(* ===== verification/Prelude.thy ===== *)
theory Prelude
  imports Main "HOL-Library.Word" "HOL-Library.List_Lexorder"
begin

text \<open>
  Shared vocabulary of the development: machine integers and byte strings, the outcome type of
  the fallible Rust functions, the cursor-style readers that every decoder of the code base is
  written with, and the generic lemmas the component theories share.

  A Rust function of type \<^verbatim>\<open>Result<T, E>\<close> is modelled by a value of \<open>('a, 'e) result\<close>: \<open>Ok\<close> and
  \<open>Err\<close> are the two variants of the Rust type and \<open>Panic\<close> stands for a run-time panic (an index or
  sub_slice out of range, \<^verbatim>\<open>unwrap\<close> of \<^verbatim>\<open>None\<close>, \<^verbatim>\<open>unreachable!\<close>, or an integer overflow, which panics
  in the default development profile; the workspace configures no other profile).  Vector lengths
  and \<^verbatim>\<open>usize\<close> cursors are natural numbers; the fixed-width integers that are stored in files keep
  their width.  A Rust \<^verbatim>\<open>String\<close> is a \<open>string\<close>, a list of 8-bit characters, namely its UTF-8
  bytes.
\<close>

unbundle bit_operations_syntax

named_theorems result_simps "simplification rules for outcome values and sequencing"
named_theorems codec_simps "lengths and inverse laws of the byte codecs"

type_synonym u8 = "8 word"
type_synonym u16 = "16 word"
type_synonym u32 = "32 word"
type_synonym u64 = "64 word"
type_synonym i64 = "64 word"
type_synonym bytes = "u8 list"

datatype ('a, 'e) result = Ok 'a | Err 'e | Panic string

fun rbind :: "('a, 'e) result \<Rightarrow> ('a \<Rightarrow> ('b, 'e) result) \<Rightarrow> ('b, 'e) result" where
  "rbind (Ok x) f = f x"
| "rbind (Err e) f = Err e"
| "rbind (Panic p) f = Panic p"

fun map_err :: "('e \<Rightarrow> 'f) \<Rightarrow> ('a, 'e) result \<Rightarrow> ('a, 'f) result" where
  "map_err f (Ok x) = Ok x"
| "map_err f (Err e) = Err (f e)"
| "map_err f (Panic p) = Panic p"

definition ok_or :: "'e \<Rightarrow> 'a option \<Rightarrow> ('a, 'e) result" where
  "ok_or e x = (case x of None \<Rightarrow> Err e | Some v \<Rightarrow> Ok v)"

definition unwrap :: "'a option \<Rightarrow> ('a, 'e) result" where
  "unwrap x = (case x of None \<Rightarrow> Panic ''called `Option::unwrap()` on a `None` value'' | Some v \<Rightarrow> Ok v)"

definition is_panic :: "('a, 'e) result \<Rightarrow> bool" where
  "is_panic r = (case r of Panic _ \<Rightarrow> True | _ \<Rightarrow> False)"

text \<open>A loop that converts the items of a vector and stops at the first failure, and the same for an
  optional item (\<^verbatim>\<open>map(..).transpose()\<close>).\<close>

fun traverse :: "('a \<Rightarrow> ('b, 'e) result) \<Rightarrow> 'a list \<Rightarrow> ('b list, 'e) result" where
  "traverse f [] = Ok []"
| "traverse f (x # xs) = rbind (f x) (\<lambda>y. rbind (traverse f xs) (\<lambda>ys. Ok (y # ys)))"

definition traverse_option :: "('a \<Rightarrow> ('b, 'e) result) \<Rightarrow> 'a option \<Rightarrow> ('b option, 'e) result" where
  "traverse_option f x = (case x of None \<Rightarrow> Ok None | Some y \<Rightarrow> rbind (f y) (\<lambda>z. Ok (Some z)))"

text \<open>Stateful operations (\<^verbatim>\<open>&mut self\<close>) return the outcome together with the state they leave
  behind, also when they fail: an early return with \<^verbatim>\<open>?\<close> keeps the updates made before it.\<close>

type_synonym ('s, 'a, 'e) op = "'s \<Rightarrow> ('a, 'e) result \<times> 's"

definition sbind :: "('s, 'a, 'e) op \<Rightarrow> ('a \<Rightarrow> ('s, 'b, 'e) op) \<Rightarrow> ('s, 'b, 'e) op" where
  "sbind m f s = (case m s of
     (Ok x, s') \<Rightarrow> f x s'
   | (Err e, s') \<Rightarrow> (Err e, s')
   | (Panic p, s') \<Rightarrow> (Panic p, s'))"

definition lift_result :: "('a, 'e) result \<Rightarrow> ('s, 'a, 'e) op" where
  "lift_result r s = (r, s)"

lemmas [result_simps] = rbind.simps map_err.simps

lemma rbind_Ok_iff [result_simps]: "rbind r f = Ok y \<longleftrightarrow> (\<exists>x. r = Ok x \<and> f x = Ok y)"
  by (cases r) auto

lemma rbind_Panic_iff: "rbind r f = Panic p \<longleftrightarrow> r = Panic p \<or> (\<exists>x. r = Ok x \<and> f x = Panic p)"
  by (cases r) auto

lemma rbind_assoc: "rbind (rbind r f) g = rbind r (\<lambda>x. rbind (f x) g)"
  by (cases r) auto

lemma traverse_Ok_iff: "traverse f xs = Ok ys \<longleftrightarrow> list_all2 (\<lambda>x y. f x = Ok y) xs ys"
  by (induction xs arbitrary: ys) (auto simp: rbind_Ok_iff list_all2_Cons1)

lemma traverse_option_Ok_iff:
  "traverse_option f x = Ok y \<longleftrightarrow> rel_option (\<lambda>a b. f a = Ok b) x y"
  by (cases x; cases y) (auto simp: traverse_option_def rbind_Ok_iff)

lemma ok_or_simps [simp]: "ok_or e None = Err e" "ok_or e (Some v) = Ok v"
  by (simp_all add: ok_or_def)

lemma unwrap_simps [simp]:
  "unwrap (Some v) = Ok v"
  "(unwrap x = Ok v) = (x = Some v)"
  by (auto simp: unwrap_def split: option.splits)

lemma is_panic_simps [simp]:
  "\<not> is_panic (Ok x)" "\<not> is_panic (Err e)" "is_panic (Panic p)"
  by (simp_all add: is_panic_def)

lemma is_panic_rbind:
  "is_panic (rbind r f) \<longleftrightarrow> is_panic r \<or> (\<exists>x. r = Ok x \<and> is_panic (f x))"
  by (cases r) auto

lemma is_panic_map_err [simp]: "is_panic (map_err f r) = is_panic r"
  by (cases r) auto

lemma sbind_Ok: "m s = (Ok x, s') \<Longrightarrow> sbind m f s = f x s'"
  by (simp add: sbind_def)

lemma sbind_Err: "m s = (Err e, s') \<Longrightarrow> sbind m f s = (Err e, s')"
  by (simp add: sbind_def)

lemma sbind_Ok_iff: "sbind m f s = (Ok y, s') \<longleftrightarrow> (\<exists>x t. m s = (Ok x, t) \<and> f x t = (Ok y, s'))"
  by (auto simp: sbind_def split: prod.splits result.splits)

lemma lift_result_iff: "lift_result r s = (r', s') \<longleftrightarrow> r = r' \<and> s = s'"
  by (auto simp: lift_result_def)

lemma sbind_lift [simp]:
  "sbind (lift_result (Ok x)) f s = f x s"
  "sbind (lift_result (Err e)) f s = (Err e, s)"
  "sbind (lift_result (Panic p)) f s = (Panic p, s)"
  by (simp_all add: sbind_def lift_result_def)

text \<open>A relation that an operation establishes between the states before and after it, whatever its outcome.  For a
  reflexive and transitive relation it is proved piece by piece.\<close>

definition op_rel :: "('s \<Rightarrow> 's \<Rightarrow> bool) \<Rightarrow> ('s, 'a, 'e) op \<Rightarrow> bool" where
  "op_rel R m \<longleftrightarrow> (\<forall>s. R s (snd (m s)))"

lemma op_relD: "op_rel R m \<Longrightarrow> m s = (r, s') \<Longrightarrow> R s s'"
  by (metis op_rel_def snd_conv)

lemma op_rel_snd: "op_rel R m \<Longrightarrow> R s (snd (m s))"
  by (simp add: op_rel_def)

lemma op_rel_lift: "reflp R \<Longrightarrow> op_rel R (lift_result r)"
  by (simp add: op_rel_def lift_result_def reflpD)

lemma op_rel_sbind:
  assumes "transp R" and m: "op_rel R m" and g: "\<And>x. op_rel R (g x)"
  shows "op_rel R (sbind m g)"
  unfolding op_rel_def
proof
  fix s
  obtain r s' where r: "m s = (r, s')" by fastforce
  with m have R: "R s s'" by (auto dest: op_relD)
  show "R s (snd (sbind m g s))"
  proof (cases r)
    case (Ok x)
    with r transpD [OF assms(1) R op_rel_snd [OF g]] show ?thesis by (simp add: sbind_def)
  qed (use r R in \<open>simp_all add: sbind_def\<close>)
qed

text \<open>Rust indexing, slicing and insertion, with their panics.\<close>

definition index :: "'a list \<Rightarrow> nat \<Rightarrow> ('a, 'e) result" where
  "index xs i = (if i < length xs then Ok (xs ! i) else Panic ''index out of bounds'')"

definition sub_slice :: "'a list \<Rightarrow> nat \<Rightarrow> nat \<Rightarrow> ('a list, 'e) result" where
  "sub_slice xs i j =
     (if i \<le> j \<and> j \<le> length xs then Ok (take (j - i) (drop i xs))
      else Panic ''range out of bounds for slice'')"

definition vec_insert :: "'a list \<Rightarrow> nat \<Rightarrow> 'a \<Rightarrow> ('a list, 'e) result" where
  "vec_insert xs i x =
     (if i \<le> length xs then Ok (take i xs @ x # drop i xs)
      else Panic ''insertion index out of bounds'')"

text \<open>\<^verbatim>\<open>iter().position(p)\<close>.\<close>

fun position :: "('a \<Rightarrow> bool) \<Rightarrow> 'a list \<Rightarrow> nat option" where
  "position p [] = None"
| "position p (x # xs) = (if p x then Some 0 else map_option Suc (position p xs))"

text \<open>\<^verbatim>\<open>checked\<close> arithmetic: \<open>None\<close> is the overflow on which Rust panics.\<close>

definition checked_add :: "'a::len word \<Rightarrow> 'a word \<Rightarrow> ('a word, 'e) result" where
  "checked_add a b =
     (if unat a + unat b < 2 ^ LENGTH('a) then Ok (a + b) else Panic ''attempt to add with overflow'')"

definition checked_mul :: "'a::len word \<Rightarrow> 'a word \<Rightarrow> ('a word, 'e) result" where
  "checked_mul a b =
     (if unat a * unat b < 2 ^ LENGTH('a) then Ok (a * b) else Panic ''attempt to multiply with overflow'')"

lemma index_Ok [simp]: "i < length xs \<Longrightarrow> index xs i = Ok (xs ! i)"
  by (simp add: index_def)

lemma slice_Ok [simp]: "i \<le> j \<Longrightarrow> j \<le> length xs \<Longrightarrow> sub_slice xs i j = Ok (take (j - i) (drop i xs))"
  by (simp add: sub_slice_def)

lemma vec_insert_Ok [simp]: "i \<le> length xs \<Longrightarrow> vec_insert xs i x = Ok (take i xs @ x # drop i xs)"
  by (simp add: vec_insert_def)

lemma position_None_iff: "position p xs = None \<longleftrightarrow> (\<forall>x \<in> set xs. \<not> p x)"
  by (induction xs) auto

lemma position_SomeD:
  "position p xs = Some i \<Longrightarrow> i < length xs \<and> p (xs ! i) \<and> (\<forall>j < i. \<not> p (xs ! j))"
proof (induction xs arbitrary: i)
  case Nil
  then show ?case by simp
next
  case (Cons x xs)
  show ?case
  proof (cases "p x")
    case True
    with Cons.prems show ?thesis by auto
  next
    case False
    with Cons.prems obtain k where k: "position p xs = Some k" "i = Suc k" by auto
    with Cons.IH [OF k(1)] False show ?thesis by (auto simp: nth_Cons split: nat.splits)
  qed
qed

lemma position_takeWhile:
  "(case position p xs of None \<Rightarrow> length xs | Some i \<Rightarrow> i) = length (takeWhile (\<lambda>x. \<not> p x) xs)"
  by (induction xs) (auto split: option.splits)

text \<open>Decimal rendering of a number, as \<^verbatim>\<open>format!("{}", n)\<close> prints it.\<close>

fun show_nat :: "nat \<Rightarrow> string" where
  "show_nat n =
     (if n < 10 then [char_of (48 + n)] else show_nat (n div 10) @ [char_of (48 + n mod 10)])"

declare show_nat.simps [simp del]

end
