(* ===== verification/Bytes.thy ===== *)
theory Bytes
  imports Prelude
begin

text \<open>
  Little-endian integer encodings (\<^verbatim>\<open>to_le_bytes\<close>, \<^verbatim>\<open>from_le_bytes\<close>), \<^verbatim>\<open>copy_from_slice\<close> into a
  fixed buffer, and the readers that advance a cursor over a byte buffer.
\<close>

primrec le_bytes :: "nat \<Rightarrow> 'a::len word \<Rightarrow> bytes" where
  "le_bytes 0 w = []"
| "le_bytes (Suc n) w = ucast w # le_bytes n (drop_bit 8 w)"

primrec from_le :: "bytes \<Rightarrow> 'a::len word" where
  "from_le [] = 0"
| "from_le (b # bs) = ucast b OR push_bit 8 (from_le bs)"

abbreviation le16 :: "u16 \<Rightarrow> bytes" where "le16 \<equiv> le_bytes 2"
abbreviation le32 :: "u32 \<Rightarrow> bytes" where "le32 \<equiv> le_bytes 4"
abbreviation le64 :: "u64 \<Rightarrow> bytes" where "le64 \<equiv> le_bytes 8"

lemma length_le_bytes [simp, codec_simps]: "length (le_bytes n w) = n"
  by (induction n arbitrary: w) auto

lemma le_bytes_eq_Nil [simp]: "le_bytes n w = [] \<longleftrightarrow> n = 0"
  by (cases n) simp_all

lemma from_le_le_bytes: "from_le (le_bytes n w) = take_bit (8 * n) w"
proof (induction n arbitrary: w)
  case 0
  then show ?case by simp
next
  case (Suc n)
  show ?case
    by (rule bit_word_eqI)
      (auto simp: Suc bit_simps bit_or_iff bit_push_bit_iff bit_take_bit_iff bit_drop_bit_eq bit_ucast_iff)
qed

lemma from_le_inverse [codec_simps]:
  "LENGTH('a::len) = 8 * n \<Longrightarrow> from_le (le_bytes n (w :: 'a word)) = w"
  by (simp add: from_le_le_bytes take_bit_word_eq_self)

lemma from_le_le [simp, codec_simps]:
  "from_le (le16 a) = a" "from_le (le32 b) = b" "from_le (le64 c) = c"
  by (simp_all add: from_le_inverse)

lemma bit_from_le_bound: "bit (from_le bs :: 'a::len word) k \<Longrightarrow> k < 8 * length bs"
proof (induction bs arbitrary: k)
  case Nil
  then show ?case by simp
next
  case (Cons b bs)
  then have "bit b k \<or> 8 \<le> k \<and> bit (from_le bs :: 'a word) (k - 8)"
    by (auto simp: bit_or_iff bit_ucast_iff bit_push_bit_iff)
  then show ?case
    using Cons.IH [of "k - 8"] by (auto dest: bit_imp_le_length)
qed

lemma le_bytes_from_le:
  "8 * length bs \<le> LENGTH('a::len) \<Longrightarrow> le_bytes (length bs) (from_le bs :: 'a word) = bs"
proof (induction bs)
  case Nil
  then show ?case by simp
next
  case (Cons b bs)
  let ?w = "from_le bs :: 'a word"
  have len: "8 \<le> LENGTH('a)" using Cons.prems by simp
  have b: "ucast (ucast b OR push_bit 8 ?w) = b"
    by (rule bit_word_eqI) (use len in \<open>auto simp: bit_simps bit_or_iff bit_ucast_iff bit_push_bit_iff\<close>)
  have "drop_bit 8 (ucast b OR push_bit 8 ?w) = ?w"
  proof (rule bit_word_eqI)
    fix n assume "n < LENGTH('a)"
    have "8 + n < LENGTH('a)" if "bit ?w n"
      using bit_from_le_bound [OF that] Cons.prems by simp
    moreover have "\<not> bit b (8 + n)" by (auto dest: bit_imp_le_length)
    ultimately show "bit (drop_bit 8 (ucast b OR push_bit 8 ?w)) n = bit ?w n"
      by (auto simp: bit_drop_bit_eq bit_or_iff bit_ucast_iff bit_push_bit_iff)
  qed
  with b Cons show ?case by simp
qed

lemma le_bytes_field:
  "8 * k \<le> LENGTH('a::len) \<Longrightarrow> i + k \<le> length xs \<Longrightarrow>
   le_bytes k (from_le (take k (drop i xs)) :: 'a word) = take k (drop i xs)"
  using le_bytes_from_le [of "take k (drop i xs)", where 'a = 'a] by simp

lemma from_le_inject:
  assumes "le_bytes n (v :: 'a::len word) = le_bytes n w" and "LENGTH('a) = 8 * n"
  shows "v = w"
proof -
  have "v = from_le (le_bytes n v)" by (rule from_le_inverse [OF assms(2), symmetric])
  also have "\<dots> = w" unfolding assms(1) by (rule from_le_inverse [OF assms(2)])
  finally show ?thesis .
qed

text \<open>\<^verbatim>\<open>buf[i..i + n].copy_from_slice(xs)\<close> inside the buffer.\<close>

definition copy_from_slice :: "bytes \<Rightarrow> nat \<Rightarrow> bytes \<Rightarrow> bytes" where
  "copy_from_slice buf i xs = take i buf @ xs @ drop (i + length xs) buf"

lemma length_copy_from_slice [simp, codec_simps]:
  "i + length xs \<le> length buf \<Longrightarrow> length (copy_from_slice buf i xs) = length buf"
  by (simp add: copy_from_slice_def)

text \<open>Reading a fixed number of bytes at a cursor: what the buffer holds there is all that
  matters.\<close>

definition at_cursor :: "bytes \<Rightarrow> nat \<Rightarrow> bytes \<Rightarrow> bool" where
  "at_cursor buf c xs \<longleftrightarrow> (\<exists>rest. c \<le> length buf \<and> drop c buf = xs @ rest)"

lemma at_cursor_length: "at_cursor buf c xs \<Longrightarrow> c + length xs \<le> length buf"
  by (auto simp: at_cursor_def dest: arg_cong [where f = length])

lemma at_cursor_take: "at_cursor buf c xs \<Longrightarrow> take (length xs) (drop c buf) = xs"
  by (auto simp: at_cursor_def)

lemma at_cursor_append:
  "at_cursor buf c (xs @ ys) \<longleftrightarrow> at_cursor buf c xs \<and> at_cursor buf (c + length xs) ys"
proof
  assume a: "at_cursor buf c (xs @ ys)"
  then obtain rest where r: "drop c buf = (xs @ ys) @ rest" "c \<le> length buf"
    by (auto simp: at_cursor_def)
  have "drop (c + length xs) buf = drop (length xs) (drop c buf)" by (simp add: add.commute)
  with r have "drop (c + length xs) buf = ys @ rest" by simp
  with a r show "at_cursor buf c xs \<and> at_cursor buf (c + length xs) ys"
    using at_cursor_length [OF a] by (auto simp: at_cursor_def)
next
  assume a: "at_cursor buf c xs \<and> at_cursor buf (c + length xs) ys"
  then obtain r1 r2 where r: "drop c buf = xs @ r1" "drop (c + length xs) buf = ys @ r2" "c \<le> length buf"
    by (auto simp: at_cursor_def)
  have "drop (c + length xs) buf = drop (length xs) (drop c buf)" by (simp add: add.commute)
  with r have "r1 = ys @ r2" by simp
  with r show "at_cursor buf c (xs @ ys)" by (auto simp: at_cursor_def)
qed

lemma at_cursor_Cons:
  "at_cursor buf c (x # ys) \<longleftrightarrow> c < length buf \<and> buf ! c = x \<and> at_cursor buf (Suc c) ys"
proof -
  have "at_cursor buf c [x] \<longleftrightarrow> c < length buf \<and> buf ! c = x"
  proof (cases "c < length buf")
    case True
    then show ?thesis
      by (auto simp: at_cursor_def Cons_nth_drop_Suc [OF True, symmetric])
  next
    case False
    then show ?thesis by (simp add: at_cursor_def)
  qed
  then show ?thesis using at_cursor_append [of buf c "[x]" ys] by simp
qed

lemma at_cursor_self [simp]: "at_cursor (pre @ xs @ post) (length pre) xs"
  by (simp add: at_cursor_def)

lemma at_cursor_zero [simp]: "at_cursor (xs @ post) 0 xs" "at_cursor xs 0 xs"
  by (simp_all add: at_cursor_def)

lemma slice_at_cursor:
  "at_cursor buf c xs \<Longrightarrow> sub_slice buf c (c + length xs) = Ok xs"
  using at_cursor_length [of buf c xs] at_cursor_take [of buf c xs] by simp

section \<open>Strings as bytes\<close>

text \<open>A \<open>string\<close> of the model is the UTF-8 encoding of a Rust \<^verbatim>\<open>String\<close>, one character per byte.\<close>

definition string_bytes :: "string \<Rightarrow> bytes" where
  "string_bytes s = map (\<lambda>c. of_nat (of_char c)) s"

lemma of_nat_of_char_inject:
  "(of_nat (of_char c) :: u8) = of_nat (of_char d) \<longleftrightarrow> c = d"
proof -
  have "unat (of_nat (of_char c :: nat) :: u8) = of_char c" for c
    using of_char_mod_256 [of c, where ?'a = nat] by (simp add: unat_of_nat take_bit_eq_mod)
  then show ?thesis by (metis of_char_eq_iff)
qed

lemma string_bytes_inject [simp]: "string_bytes a = string_bytes b \<longleftrightarrow> a = b"
proof -
  have "inj (\<lambda>c. of_nat (of_char c) :: u8)" by (rule injI) (simp add: of_nat_of_char_inject)
  then show ?thesis by (simp add: string_bytes_def inj_map_eq_map)
qed

lemma length_string_bytes [simp]: "length (string_bytes s) = length s"
  by (simp add: string_bytes_def)

definition bytes_string :: "bytes \<Rightarrow> string" where
  "bytes_string bs = map (\<lambda>b. char_of (unat b)) bs"

lemma bytes_string_inverse [simp]: "bytes_string (string_bytes s) = s"
proof -
  have "unat (of_nat (of_char c :: nat) :: u8) = of_char c" for c
    using of_char_mod_256 [of c, where ?'a = nat] by (simp add: unat_of_nat take_bit_eq_mod)
  then show ?thesis by (simp add: bytes_string_def string_bytes_def comp_def)
qed

end
