(* ===== verification/Core_Types.thy ===== *)
theory Core_Types
  imports Bytes
begin

text \<open>
  The crate \<^verbatim>\<open>sabi-core\<close>: the database error type, transaction identifiers and their order.

  Two third-party crates are used by the storage code and are parameters of the model, fields of
  the record \<open>ext_lib\<close>: \<^verbatim>\<open>crc32fast\<close> (the checksum of the concatenation of the chunks fed to a
  \<^verbatim>\<open>Hasher\<close>) and \<^verbatim>\<open>uuid\<close> (its type is the type variable \<open>'u\<close>).  What the code relies on of
  \<^verbatim>\<open>uuid\<close> is the predicate \<open>uuid_laws\<close>: a UUID has a 16-byte representation, big-endian
  (\<^verbatim>\<open>as_bytes\<close>) and with its first fields little-endian (\<^verbatim>\<open>to_bytes_le\<close>), and \<^verbatim>\<open>from_slice\<close> reads
  the big-endian representation back.
\<close>

text \<open>\<^verbatim>\<open>std::io::Error\<close>, as far as the files of the model can produce it.\<close>

datatype io_error = UnexpectedEof | InvalidInput

datatype db_error =
    SyntaxError string
  | SerializationFailure string
  | Internal string
  | Corruption string
  | NotFound string
  | InvalidTransaction string
  | Io io_error

text \<open>\<^verbatim>\<open>Display\<close>, with the texts of the two input/output errors.\<close>

fun show_io_error :: "io_error \<Rightarrow> string" where
  "show_io_error UnexpectedEof = ''failed to fill whole buffer''"
| "show_io_error InvalidInput = ''Invalid argument (os error 22)''"

fun show_db_error :: "db_error \<Rightarrow> string" where
  "show_db_error (SyntaxError msg) = ''Syntax Error: '' @ msg"
| "show_db_error (SerializationFailure msg) = ''Serialization Failure: '' @ msg"
| "show_db_error (Internal msg) = ''Internal Error: '' @ msg"
| "show_db_error (Corruption msg) = ''Corruption: '' @ msg"
| "show_db_error (NotFound msg) = ''Not Found: '' @ msg"
| "show_db_error (InvalidTransaction msg) = ''Invalid Transaction: '' @ msg"
| "show_db_error (Io err) = ''IO Error: '' @ show_io_error err"

type_synonym 'a db_result = "('a, db_error) result"

record 'u ext_lib =
  crc32 :: "bytes \<Rightarrow> u32"
  uuid_as_bytes :: "'u \<Rightarrow> bytes"
  uuid_to_bytes_le :: "'u \<Rightarrow> bytes"
  uuid_from_slice :: "bytes \<Rightarrow> 'u option"
  uuid_unix :: "'u \<Rightarrow> (u64 \<times> u32) option"
  uuid_nil :: 'u
  uuid_display :: "'u \<Rightarrow> string"

definition uuid_laws :: "'u ext_lib \<Rightarrow> bool" where
  "uuid_laws L \<longleftrightarrow>
     (\<forall>u. length (uuid_as_bytes L u) = 16 \<and> uuid_from_slice L (uuid_as_bytes L u) = Some u) \<and>
     (\<forall>u. length (uuid_to_bytes_le L u) = 16) \<and>
     (\<forall>bs. length bs = 16 \<longrightarrow> (\<exists>u. uuid_from_slice L bs = Some u \<and> uuid_as_bytes L u = bs))"

lemma uuid_lawsD:
  assumes "uuid_laws L"
  shows "length (uuid_as_bytes L u) = 16"
    and "uuid_from_slice L (uuid_as_bytes L u) = Some u"
    and "length (uuid_to_bytes_le L u) = 16"
    and "length bs = 16 \<Longrightarrow> \<exists>u. uuid_from_slice L bs = Some u \<and> uuid_as_bytes L u = bs"
  using assms by (auto simp: uuid_laws_def)

section \<open>Transaction identifiers\<close>

datatype 'u tx_id = TxId (uuid_of: 'u)

datatype ordering = Less | Equal | Greater

fun cmp :: "'a::linorder \<Rightarrow> 'a \<Rightarrow> ordering" where
  "cmp a b = (if a < b then Less else if a = b then Equal else Greater)"

definition extract_timestamp :: "'u ext_lib \<Rightarrow> 'u tx_id \<Rightarrow> u64 \<times> u32" where
  "extract_timestamp L t = (case uuid_unix L (uuid_of t) of Some ts \<Rightarrow> ts | None \<Rightarrow> (0, 0))"

definition tx_cmp :: "'u ext_lib \<Rightarrow> 'u tx_id \<Rightarrow> 'u tx_id \<Rightarrow> ordering" where
  "tx_cmp L a b =
     (let ts1 = extract_timestamp L a; ts2 = extract_timestamp L b in
      case cmp (fst ts1) (fst ts2) of
        Equal \<Rightarrow> cmp (snd ts1) (snd ts2)
      | ord \<Rightarrow> ord)"

definition tx_partial_cmp :: "'u ext_lib \<Rightarrow> 'u tx_id \<Rightarrow> 'u tx_id \<Rightarrow> ordering option" where
  "tx_partial_cmp L a b = Some (tx_cmp L a b)"

text \<open>\<^verbatim>\<open>a <= b\<close> and \<^verbatim>\<open>a > b\<close> on \<^verbatim>\<open>TxId\<close> are the default methods of \<^verbatim>\<open>PartialOrd\<close>.\<close>

definition tx_le :: "'u ext_lib \<Rightarrow> 'u tx_id \<Rightarrow> 'u tx_id \<Rightarrow> bool" where
  "tx_le L a b \<longleftrightarrow> tx_partial_cmp L a b \<in> {Some Less, Some Equal}"

definition tx_gt :: "'u ext_lib \<Rightarrow> 'u tx_id \<Rightarrow> 'u tx_id \<Rightarrow> bool" where
  "tx_gt L a b \<longleftrightarrow> tx_partial_cmp L a b = Some Greater"

definition tx_nil :: "'u ext_lib \<Rightarrow> 'u tx_id" where
  "tx_nil L = TxId (uuid_nil L)"

text \<open>The order compares the embedded time stamps only, so it is a total preorder, and its
  equivalence is coarser than equality of identifiers.\<close>

definition tx_key :: "'u ext_lib \<Rightarrow> 'u tx_id \<Rightarrow> nat" where
  "tx_key L t = unat (fst (extract_timestamp L t)) * 2 ^ 32 + unat (snd (extract_timestamp L t))"

lemma unat_u32_less: "unat (x :: u32) < 2 ^ 32"
  using unsigned_less [where ?'a = nat and w = x] by simp

lemma tx_cmp_key: "tx_cmp L a b = cmp (tx_key L a) (tx_key L b)"
proof -
  have lex: "x < y \<Longrightarrow> x * 2 ^ 32 + unat (p :: u32) < y * 2 ^ 32 + unat (q :: u32)" for x y p q
  proof -
    assume "x < y"
    then have "x * 2 ^ 32 + 2 ^ 32 \<le> y * (2 ^ 32 :: nat)"
      by (metis Suc_leI add.commute mult_Suc mult_le_mono1)
    with unat_u32_less [of p] show ?thesis by linarith
  qed
  obtain s1 n1 s2 n2 where ts: "extract_timestamp L a = (s1, n1)" "extract_timestamp L b = (s2, n2)"
    by fastforce
  show ?thesis
  proof (cases s1 s2 rule: linorder_cases)
    case less
    with lex [of "unat s1" "unat s2" n1 n2] ts show ?thesis
      by (simp add: tx_cmp_def tx_key_def word_less_nat_alt Let_def)
  next
    case equal
    with ts show ?thesis
      by (auto simp: tx_cmp_def tx_key_def word_less_nat_alt Let_def word_unat_eq_iff)
  next
    case greater
    with lex [of "unat s2" "unat s1" n2 n1] ts show ?thesis
      by (auto simp: tx_cmp_def tx_key_def word_less_nat_alt Let_def)
  qed
qed

lemma tx_le_key: "tx_le L a b \<longleftrightarrow> tx_key L a \<le> tx_key L b"
  by (auto simp: tx_le_def tx_partial_cmp_def tx_cmp_key)

lemma tx_gt_key: "tx_gt L a b \<longleftrightarrow> tx_key L b < tx_key L a"
  by (auto simp: tx_gt_def tx_partial_cmp_def tx_cmp_key)

section \<open>A concrete library, used to show that the hypotheses can hold\<close>

definition sample_lib :: "128 word ext_lib" where
  "sample_lib = \<lparr>
     crc32 = (\<lambda>bs. of_nat (sum_list (map unat bs))),
     uuid_as_bytes = (\<lambda>u. rev (le_bytes 16 u)),
     uuid_to_bytes_le = (\<lambda>u. let b = rev (le_bytes 16 u) in
        rev (take 4 b) @ rev (take 2 (drop 4 b)) @ rev (take 2 (drop 6 b)) @ drop 8 b),
     uuid_from_slice = (\<lambda>bs. if length bs = 16 then Some (from_le (rev bs)) else None),
     uuid_unix = (\<lambda>u. if u = 0 then None else Some (ucast u, 0)),
     uuid_nil = 0,
     uuid_display = (\<lambda>u. show_nat (unat u))\<rparr>"

lemma sample_lib_laws: "uuid_laws sample_lib"
  unfolding uuid_laws_def
proof (intro conjI allI impI)
  fix u :: "128 word"
  show "length (uuid_as_bytes sample_lib u) = 16" by (simp add: sample_lib_def)
  show "uuid_from_slice sample_lib (uuid_as_bytes sample_lib u) = Some u"
    by (simp add: sample_lib_def from_le_inverse)
  show "length (uuid_to_bytes_le sample_lib u) = 16" by (simp add: sample_lib_def Let_def)
next
  fix bs :: bytes
  assume "length bs = 16"
  then show "\<exists>u. uuid_from_slice sample_lib bs = Some u \<and> uuid_as_bytes sample_lib u = bs"
    using le_bytes_from_le [of "rev bs", where 'a = 128] by (simp add: sample_lib_def)
qed

end
