(* ===== verification/Codec.thy ===== *)
theory Codec
  imports Core_Types
begin

text \<open>
  The decoders of the storage engine walk over a byte buffer with a cursor and read a counted
  sequence of items in a loop.  \<open>read_many\<close> is this loop.  The locale \<open>cursor_codec\<close> is the
  contract between the writer and the reader of one item; what it gives for the loop is proved
  once and used for the entries of B+tree nodes and for row versions.
\<close>

type_synonym 'a reader = "bytes \<Rightarrow> nat \<Rightarrow> ('a \<times> nat) db_result"

fun read_many :: "'a reader \<Rightarrow> nat \<Rightarrow> bytes \<Rightarrow> nat \<Rightarrow> ('a list \<times> nat) db_result" where
  "read_many rd 0 buf c = Ok ([], c)"
| "read_many rd (Suc n) buf c =
     rbind (rd buf c) (\<lambda>(x, c1). rbind (read_many rd n buf c1) (\<lambda>(xs, c2). Ok (x # xs, c2)))"

lemma read_many_length: "read_many rd n buf c = Ok (xs, c') \<Longrightarrow> length xs = n"
proof (induction n arbitrary: c xs)
  case 0
  then show ?case by simp
next
  case (Suc n)
  then show ?case by (auto simp: rbind_Ok_iff)
qed

locale cursor_codec =
  fixes put :: "'a \<Rightarrow> bytes"
    and get :: "'a reader"
    and ok :: "'a \<Rightarrow> bool"
  assumes get_put: "ok x \<Longrightarrow> at_cursor buf c (put x) \<Longrightarrow> get buf c = Ok (x, c + length (put x))"
    and get_advance: "get buf c = Ok (x, c') \<Longrightarrow> c' = c + length (put x) \<and> c' \<le> length buf"
    and get_ok: "get buf c = Ok (x, c') \<Longrightarrow> ok x"
    and get_no_panic: "\<not> is_panic (get buf c)"
begin

lemma read_many_put:
  "\<forall>x \<in> set xs. ok x \<Longrightarrow> at_cursor buf c (concat (map put xs)) \<Longrightarrow>
   read_many get (length xs) buf c = Ok (xs, c + length (concat (map put xs)))"
proof (induction xs arbitrary: c)
  case Nil
  then show ?case by simp
next
  case (Cons x xs)
  then have "get buf c = Ok (x, c + length (put x))"
    by (simp add: get_put at_cursor_append)
  moreover have "read_many get (length xs) buf (c + length (put x)) =
      Ok (xs, c + length (put x) + length (concat (map put xs)))"
    using Cons by (simp add: at_cursor_append)
  ultimately show ?case by (simp add: add.assoc)
qed

lemma read_many_no_panic: "\<not> is_panic (read_many get n buf c)"
proof (induction n arbitrary: c)
  case 0
  then show ?case by simp
next
  case (Suc n)
  then show ?case by (auto simp: is_panic_rbind get_no_panic)
qed

lemma read_many_ok: "read_many get n buf c = Ok (xs, c') \<Longrightarrow> \<forall>x \<in> set xs. ok x"
proof (induction n arbitrary: c xs)
  case 0
  then show ?case by simp
next
  case (Suc n)
  then show ?case by (fastforce simp: rbind_Ok_iff dest: get_ok)
qed

text \<open>A successful loop has consumed exactly the bytes of the items it returns.\<close>

lemma read_many_advance:
  "read_many get n buf c = Ok (xs, c') \<Longrightarrow> c \<le> length buf \<Longrightarrow>
   c' = c + length (concat (map put xs)) \<and> c' \<le> length buf"
proof (induction n arbitrary: c xs)
  case 0
  then show ?case by simp
next
  case (Suc n)
  from Suc.prems(1) obtain x c1 ys where x: "get buf c = Ok (x, c1)"
    and ys: "read_many get n buf c1 = Ok (ys, c')" "xs = x # ys"
    by (auto simp: rbind_Ok_iff)
  from get_advance [OF x] have c1: "c1 = c + length (put x)" "c1 \<le> length buf" by auto
  from Suc.IH [OF ys(1) c1(2)] c1 ys(2) show ?case by simp
qed

end

section \<open>An optional 64-bit pointer: a marker byte, then the value\<close>

definition put_opt :: "u64 option \<Rightarrow> bytes" where
  "put_opt p = (case p of Some v \<Rightarrow> 1 # le64 v | None \<Rightarrow> [0])"

definition get_opt :: "bytes \<Rightarrow> nat \<Rightarrow> u64 option \<times> nat" where
  "get_opt buf c =
     (if c + 9 \<le> length buf \<and> buf ! c \<noteq> 0
      then (Some (from_le (take 8 (drop (c + 1) buf))), c + 1 + 8)
      else (None, c + 1))"

lemma length_put_opt [simp]: "length (put_opt p) = (case p of None \<Rightarrow> 1 | Some _ \<Rightarrow> 9)"
  by (cases p) (simp_all add: put_opt_def)

lemma get_put_opt:
  assumes "at_cursor buf c (put_opt p)"
  shows "get_opt buf c = (p, c + length (put_opt p))"
proof (cases p)
  case None
  with assms show ?thesis by (simp add: get_opt_def put_opt_def at_cursor_Cons)
next
  case (Some v)
  with assms have h: "c < length buf" "buf ! c = 1" "at_cursor buf (Suc c) (le64 v)"
    by (auto simp: put_opt_def at_cursor_Cons)
  with at_cursor_length [OF h(3)] at_cursor_take [OF h(3)] Some show ?thesis
    by (simp add: get_opt_def)
qed

lemma from_le_at_cursor:
  "at_cursor buf c (le_bytes n (w :: 'a::len word)) \<Longrightarrow> LENGTH('a) = 8 * n \<Longrightarrow>
   from_le (take n (drop c buf)) = w"
  using at_cursor_take [of buf c "le_bytes n w"] by (simp add: from_le_inverse)

end
