(* ===== verification/Wal.thy ===== *)
theory Wal
  imports Codec
begin

text \<open>
  \<^verbatim>\<open>sabi-storage/src/wal.rs\<close>: the write-ahead log.  A log file is its content and the length of the
  prefix that has been synced to disk; a record is framed as \<open>[length | payload | checksum]\<close>.  The
  reader, the record decoder and the replay loop follow the code, with the panics of its unchecked
  slices.
\<close>

definition WAL_MAGIC :: bytes where "WAL_MAGIC = [0x53, 0x41, 0x42, 0x49, 0x57, 0x41, 0x4C]"

definition WAL_VERSION :: u16 where "WAL_VERSION = 1"

definition WAL_HEADER_SIZE :: nat where "WAL_HEADER_SIZE = 11"

datatype wal_record_type = TBegin | TPut | TDelete | TCommit | TAbort

fun record_type_code :: "wal_record_type \<Rightarrow> u8" where
  "record_type_code TBegin = 1"
| "record_type_code TPut = 2"
| "record_type_code TDelete = 3"
| "record_type_code TCommit = 4"
| "record_type_code TAbort = 5"

definition record_type_from_u8 :: "u8 \<Rightarrow> wal_record_type db_result" where
  "record_type_from_u8 v =
     (if v = 1 then Ok TBegin
      else if v = 2 then Ok TPut
      else if v = 3 then Ok TDelete
      else if v = 4 then Ok TCommit
      else if v = 5 then Ok TAbort
      else Err (Corruption (''Unknown WAL record type '' @ show_nat (unat v))))"

datatype 'u wal_record =
    WalBegin "'u tx_id"
  | WalPut "'u tx_id" u32 bytes bytes
  | WalDelete "'u tx_id" u32 bytes
  | WalCommit "'u tx_id"
  | WalAbort "'u tx_id"

definition serialize_record :: "'u ext_lib \<Rightarrow> 'u wal_record \<Rightarrow> bytes" where
  "serialize_record L r =
     (case r of
        WalBegin tx \<Rightarrow> record_type_code TBegin # uuid_to_bytes_le L (uuid_of tx)
      | WalPut tx table_id k v \<Rightarrow>
          record_type_code TPut # uuid_to_bytes_le L (uuid_of tx) @ le32 table_id @
          le32 (of_nat (length k)) @ k @ le32 (of_nat (length v)) @ v
      | WalDelete tx table_id k \<Rightarrow>
          record_type_code TDelete # uuid_to_bytes_le L (uuid_of tx) @ le32 table_id @
          le32 (of_nat (length k)) @ k
      | WalCommit tx \<Rightarrow> record_type_code TCommit # uuid_to_bytes_le L (uuid_of tx)
      | WalAbort tx \<Rightarrow> record_type_code TAbort # uuid_to_bytes_le L (uuid_of tx))"

text \<open>Reading a 32-bit integer, or a length and that many bytes, with unchecked slices.\<close>

definition get_u32 :: "bytes \<Rightarrow> nat \<Rightarrow> (u32 \<times> nat) db_result" where
  "get_u32 buf c = rbind (sub_slice buf c (c + 4)) (\<lambda>bs. Ok (from_le bs, c + 4))"

definition get_block :: "bytes \<Rightarrow> nat \<Rightarrow> (bytes \<times> nat) db_result" where
  "get_block buf c =
     rbind (get_u32 buf c) (\<lambda>(n, c).
     rbind (sub_slice buf c (c + unat n)) (\<lambda>bs. Ok (bs, c + unat n)))"

definition deserialize_record :: "'u ext_lib \<Rightarrow> bytes \<Rightarrow> 'u wal_record db_result" where
  "deserialize_record L payload =
     rbind (index payload 0) (\<lambda>b.
     rbind (record_type_from_u8 b) (\<lambda>record_type.
     rbind (sub_slice payload 1 17) (\<lambda>tx_bytes.
     rbind (unwrap (uuid_from_slice L tx_bytes)) (\<lambda>u.
     let tx = TxId u; c = 17 in
     case record_type of
       TBegin \<Rightarrow> Ok (WalBegin tx)
     | TPut \<Rightarrow>
         rbind (get_u32 payload c) (\<lambda>(table_id, c).
         rbind (get_block payload c) (\<lambda>(k, c).
         rbind (get_block payload c) (\<lambda>(v, c).
         Ok (WalPut tx table_id k v))))
     | TDelete \<Rightarrow>
         rbind (get_u32 payload c) (\<lambda>(table_id, c).
         rbind (get_block payload c) (\<lambda>(k, c).
         Ok (WalDelete tx table_id k)))
     | TCommit \<Rightarrow> Ok (WalCommit tx)
     | TAbort \<Rightarrow> Ok (WalAbort tx)))))"

section \<open>The writer\<close>

record wal_file =
  wal_log :: bytes
  wal_synced :: nat

definition wal_header :: bytes where
  "wal_header = WAL_MAGIC @ le16 WAL_VERSION @ le16 0"

definition wal_writer_open :: "wal_file \<Rightarrow> wal_file" where
  "wal_writer_open w =
     (if length (wal_log w) = 0
      then \<lparr>wal_log = wal_log w @ wal_header, wal_synced = length (wal_log w @ wal_header)\<rparr>
      else w)"

definition wal_frame :: "'u ext_lib \<Rightarrow> 'u wal_record \<Rightarrow> bytes" where
  "wal_frame L r =
     (let payload = serialize_record L r;
          checksum = crc32 L payload;
          len = of_nat (length payload)
      in le32 len @ payload @ le32 checksum)"

definition is_commit :: "'u wal_record \<Rightarrow> bool" where
  "is_commit r = (case r of WalCommit _ \<Rightarrow> True | _ \<Rightarrow> False)"

definition wal_append :: "'u ext_lib \<Rightarrow> 'u wal_record \<Rightarrow> (wal_file, unit, db_error) op" where
  "wal_append L r w =
     (let log = wal_log w @ wal_frame L r
      in (Ok (), if is_commit r then \<lparr>wal_log = log, wal_synced = length log\<rparr>
                 else w\<lparr>wal_log := log\<rparr>))"

text \<open>\<^verbatim>\<open>File::flush\<close> does nothing: \<^verbatim>\<open>std::fs::File\<close> has no buffer of its own.\<close>

definition wal_flush :: "(wal_file, unit, db_error) op" where
  "wal_flush w = (Ok (), w)"

definition wal_write_all :: "bytes \<Rightarrow> (wal_file, unit, db_error) op" where
  "wal_write_all buf w = (Ok (), w\<lparr>wal_log := wal_log w @ buf\<rparr>)"

definition wal_sync_all :: "(wal_file, unit, db_error) op" where
  "wal_sync_all w = (Ok (), w\<lparr>wal_synced := length (wal_log w)\<rparr>)"

definition wal_sync_data :: "(wal_file, unit, db_error) op" where
  "wal_sync_data w = (Ok (), w\<lparr>wal_synced := length (wal_log w)\<rparr>)"

section \<open>The reader and the replay\<close>

definition wal_reader_open :: "bytes \<Rightarrow> nat db_result" where
  "wal_reader_open f =
     (if length f < WAL_HEADER_SIZE then Err (Io UnexpectedEof)
      else if take 7 f \<noteq> WAL_MAGIC then Err (Corruption ''Invalid WAL magic'')
      else
        let version = from_le [f ! 6, f ! 7] :: u16
        in if version \<noteq> WAL_VERSION
           then Err (Corruption (''Unsupported WAL version '' @ show_nat (unat version)))
           else Ok WAL_HEADER_SIZE)"

definition wal_read_exact :: "bytes \<Rightarrow> nat \<Rightarrow> nat \<Rightarrow> (bytes \<times> nat) db_result" where
  "wal_read_exact f pos n =
     (if pos + n \<le> length f then Ok (take n (drop pos f), pos + n) else Err (Io UnexpectedEof))"

definition wal_read_next :: "'u ext_lib \<Rightarrow> bytes \<Rightarrow> nat \<Rightarrow> ('u wal_record option \<times> nat) db_result" where
  "wal_read_next L f pos =
     (let len_buf = take 4 (drop pos f); n = length len_buf
      in if n = 0 then Ok (None, pos)
         else if n \<noteq> 4 then Err (Corruption ''Truncated WAL length'')
         else
           rbind (wal_read_exact f (pos + 4) (unat (from_le len_buf :: u32))) (\<lambda>(payload, pos).
           rbind (wal_read_exact f pos 4) (\<lambda>(checksum_buf, pos).
           if crc32 L payload \<noteq> from_le checksum_buf
           then Err (Corruption ''WAL checksum mismatch (possible crash)'')
           else rbind (deserialize_record L payload) (\<lambda>r. Ok (Some r, pos)))))"

record 'u replay_state =
  rs_active :: "'u tx_id set"
  rs_committed :: "'u tx_id set"
  rs_aborted :: "'u tx_id set"
  rs_records :: "'u wal_record list"

definition replay_init :: "'u replay_state" where
  "replay_init = \<lparr>rs_active = {}, rs_committed = {}, rs_aborted = {}, rs_records = []\<rparr>"

definition replay_step :: "'u wal_record \<Rightarrow> 'u replay_state \<Rightarrow> 'u replay_state" where
  "replay_step r st =
     (let st = (case r of
          WalBegin tx \<Rightarrow> st\<lparr>rs_active := insert tx (rs_active st)\<rparr>
        | WalCommit tx \<Rightarrow> st\<lparr>rs_active := rs_active st - {tx}, rs_committed := insert tx (rs_committed st)\<rparr>
        | WalAbort tx \<Rightarrow> st\<lparr>rs_active := rs_active st - {tx}, rs_aborted := insert tx (rs_aborted st)\<rparr>
        | _ \<Rightarrow> st)
      in st\<lparr>rs_records := rs_records st @ [r]\<rparr>)"

lemma wal_read_next_advances:
  "wal_read_next L f pos = Ok (Some r, pos') \<Longrightarrow> pos + 8 \<le> pos' \<and> pos' \<le> length f"
  by (auto simp: wal_read_next_def wal_read_exact_def Let_def rbind_Ok_iff split: if_splits)

function replay_loop :: "'u ext_lib \<Rightarrow> bytes \<Rightarrow> nat \<Rightarrow> 'u replay_state \<Rightarrow> 'u replay_state db_result" where
  "replay_loop L f pos st =
     (case wal_read_next L f pos of
        Ok (None, _) \<Rightarrow> Ok st
      | Ok (Some r, pos') \<Rightarrow> replay_loop L f pos' (replay_step r st)
      | Err e \<Rightarrow> Err e
      | Panic p \<Rightarrow> Panic p)"
  by pat_completeness auto
termination
  by (relation "measure (\<lambda>(L, f, pos, st). length f - pos)") (auto dest!: wal_read_next_advances)

declare replay_loop.simps [simp del]

definition replay_keep :: "'u tx_id set \<Rightarrow> 'u wal_record \<Rightarrow> bool" where
  "replay_keep committed r =
     (case r of
        WalPut tx _ _ _ \<Rightarrow> tx \<in> committed
      | WalDelete tx _ _ \<Rightarrow> tx \<in> committed
      | WalBegin tx \<Rightarrow> tx \<in> committed
      | WalCommit tx \<Rightarrow> tx \<in> committed
      | WalAbort _ \<Rightarrow> False)"

definition replay_wal :: "'u ext_lib \<Rightarrow> bytes \<Rightarrow> 'u wal_record list db_result" where
  "replay_wal L f =
     rbind (wal_reader_open f) (\<lambda>pos.
     rbind (replay_loop L f pos replay_init) (\<lambda>st.
     Ok (filter (replay_keep (rs_committed st)) (rs_records st))))"

section \<open>Records\<close>

text \<open>The writer stores a transaction id with \<^verbatim>\<open>to_bytes_le\<close> and the reader parses these bytes with
  \<^verbatim>\<open>from_slice\<close>, which expects the big-endian form: \<open>reread_uuid\<close> is the id that comes back.\<close>

definition reread_uuid :: "'u ext_lib \<Rightarrow> 'u \<Rightarrow> 'u" where
  "reread_uuid L u = the (uuid_from_slice L (uuid_to_bytes_le L u))"

definition record_fits :: "'u ext_lib \<Rightarrow> 'u wal_record \<Rightarrow> bool" where
  "record_fits L r \<longleftrightarrow> length (serialize_record L r) < 2 ^ 32"

lemma get_u32_at: "at_cursor buf c (le32 w) \<Longrightarrow> get_u32 buf c = Ok (w, c + 4)"
  using slice_at_cursor [of buf c "le32 w", where ?'a = db_error] by (simp add: get_u32_def)

lemma get_block_at:
  assumes "at_cursor buf c (le32 (of_nat (length bs)) @ bs)" and "length bs < 2 ^ 32"
  shows "get_block buf c = Ok (bs, c + 4 + length bs)"
proof -
  have at: "at_cursor buf c (le32 (of_nat (length bs)))" "at_cursor buf (c + 4) bs"
    using assms(1) by (simp_all add: at_cursor_append)
  have n: "unat (of_nat (length bs) :: u32) = length bs"
    using assms(2) by (simp add: unat_of_nat take_bit_nat_eq_self)
  show ?thesis
    using get_u32_at [OF at(1)] slice_at_cursor [OF at(2), where ?'a = db_error] n
    by (simp add: get_block_def)
qed

lemma record_type_from_code [simp]: "record_type_from_u8 (record_type_code t) = Ok t"
  by (cases t) (simp_all add: record_type_from_u8_def)

lemma deserialize_record_prefix:
  assumes "uuid_laws L"
  shows "deserialize_record L (record_type_code t # uuid_to_bytes_le L u @ body) =
    (let tx = TxId (reread_uuid L u); buf = record_type_code t # uuid_to_bytes_le L u @ body in
     case t of
       TBegin \<Rightarrow> Ok (WalBegin tx)
     | TPut \<Rightarrow>
         rbind (get_u32 buf 17) (\<lambda>(table_id, c).
         rbind (get_block buf c) (\<lambda>(k, c).
         rbind (get_block buf c) (\<lambda>(v, c).
         Ok (WalPut tx table_id k v))))
     | TDelete \<Rightarrow>
         rbind (get_u32 buf 17) (\<lambda>(table_id, c).
         rbind (get_block buf c) (\<lambda>(k, c).
         Ok (WalDelete tx table_id k)))
     | TCommit \<Rightarrow> Ok (WalCommit tx)
     | TAbort \<Rightarrow> Ok (WalAbort tx))"
proof -
  let ?buf = "record_type_code t # uuid_to_bytes_le L u @ body"
  note len = uuid_lawsD(3) [OF assms, of u]
  obtain v where v: "uuid_from_slice L (uuid_to_bytes_le L u) = Some v"
    using uuid_lawsD(4) [OF assms len] by blast
  have "(sub_slice ?buf 1 17 :: bytes db_result) = Ok (uuid_to_bytes_le L u)"
    using len by (simp add: sub_slice_def)
  then show ?thesis
    using v by (simp add: deserialize_record_def reread_uuid_def Let_def)
qed

lemma body_at_cursor:
  assumes "uuid_laws L"
  shows "at_cursor (t # uuid_to_bytes_le L u @ body) 17 body"
  using at_cursor_self [of "t # uuid_to_bytes_le L u" body "[]"] uuid_lawsD(3) [OF assms, of u]
  by simp

lemma deserialize_serialize_record:
  assumes L: "uuid_laws L" and fits: "record_fits L r"
  shows "deserialize_record L (serialize_record L r) = Ok (map_wal_record (reread_uuid L) r)"
proof (cases r)
  case (WalPut tx table_id k v)
  let ?body = "le32 table_id @ le32 (of_nat (length k)) @ k @ le32 (of_nat (length v)) @ v"
  let ?buf = "record_type_code TPut # uuid_to_bytes_le L (uuid_of tx) @ ?body"
  have ser: "serialize_record L r = ?buf" by (simp add: WalPut serialize_record_def)
  have len: "length k < 2 ^ 32" "length v < 2 ^ 32"
    using fits by (simp_all add: record_fits_def ser)
  have "at_cursor ?buf 17 (le32 table_id @ (le32 (of_nat (length k)) @ k) @ (le32 (of_nat (length v)) @ v))"
    using body_at_cursor [OF L, of "record_type_code TPut" "uuid_of tx" ?body] by simp
  then have at: "at_cursor ?buf 17 (le32 table_id)" "at_cursor ?buf 21 (le32 (of_nat (length k)) @ k)"
      "at_cursor ?buf (21 + 4 + length k) (le32 (of_nat (length v)) @ v)"
    by (subst (asm) at_cursor_append, subst (asm) at_cursor_append, simp add: add.assoc)+
  show ?thesis
    unfolding ser deserialize_record_prefix [OF L]
    using get_u32_at [OF at(1)] get_block_at [OF at(2) len(1)] get_block_at [OF at(3) len(2)] WalPut
    by (simp add: Let_def, cases tx) simp
next
  case (WalDelete tx table_id k)
  let ?body = "le32 table_id @ le32 (of_nat (length k)) @ k"
  let ?buf = "record_type_code TDelete # uuid_to_bytes_le L (uuid_of tx) @ ?body"
  have ser: "serialize_record L r = ?buf" by (simp add: WalDelete serialize_record_def)
  have len: "length k < 2 ^ 32" using fits by (simp add: record_fits_def ser)
  have "at_cursor ?buf 17 ?body" by (rule body_at_cursor [OF L])
  then have at: "at_cursor ?buf 17 (le32 table_id)" "at_cursor ?buf 21 (le32 (of_nat (length k)) @ k)"
    by (subst (asm) at_cursor_append, simp)+
  show ?thesis
    unfolding ser deserialize_record_prefix [OF L]
    using get_u32_at [OF at(1)] get_block_at [OF at(2) len] WalDelete
    by (simp add: Let_def, cases tx) simp
next
  case (WalBegin tx)
  with deserialize_record_prefix [OF L, of TBegin "uuid_of tx" "[]"] show ?thesis
    by (cases tx) (simp add: serialize_record_def)
next
  case (WalCommit tx)
  with deserialize_record_prefix [OF L, of TCommit "uuid_of tx" "[]"] show ?thesis
    by (cases tx) (simp add: serialize_record_def)
next
  case (WalAbort tx)
  with deserialize_record_prefix [OF L, of TAbort "uuid_of tx" "[]"] show ?thesis
    by (cases tx) (simp add: serialize_record_def)
qed

text \<open>A log record is read back with its kind, table, key and value unchanged; its transaction
  id comes back as the reader's interpretation of the bytes the writer stored.\<close>

lemma wal_record_roundtrip:
  assumes "uuid_laws L" and "record_fits L r"
  shows "deserialize_record L (serialize_record L r) = Ok (map_wal_record (reread_uuid L) r)"
  by (rule deserialize_serialize_record [OF assms])

text \<open>C35. The transaction id survives the log exactly if its two byte representations coincide:
  for any other id a commit record is read back as the commit of a different transaction.\<close>

theorem wal_tx_id_preserved_iff:
  assumes "uuid_laws L"
  shows "deserialize_record L (serialize_record L (WalCommit (TxId u))) = Ok (WalCommit (TxId u)) \<longleftrightarrow>
     uuid_to_bytes_le L u = uuid_as_bytes L u"
proof -
  have "record_fits L (WalCommit (TxId u))"
    using uuid_lawsD(3) [OF assms, of u] by (simp add: record_fits_def serialize_record_def)
  then have "deserialize_record L (serialize_record L (WalCommit (TxId u))) =
      Ok (WalCommit (TxId (reread_uuid L u)))"
    using deserialize_serialize_record [OF assms] by fastforce
  moreover obtain v where v: "uuid_from_slice L (uuid_to_bytes_le L u) = Some v"
      "uuid_as_bytes L v = uuid_to_bytes_le L u"
    using uuid_lawsD(4) [OF assms uuid_lawsD(3) [OF assms]] by metis
  moreover have "v = u \<longleftrightarrow> uuid_as_bytes L v = uuid_as_bytes L u"
    using uuid_lawsD(2) [OF assms] by (metis option.inject)
  ultimately show ?thesis by (simp add: reread_uuid_def)
qed

theorem wal_tx_id_preserved_witness:
  "deserialize_record sample_lib (serialize_record sample_lib (WalCommit (TxId (2 ^ 96)))) \<noteq>
     Ok (WalCommit (TxId (2 ^ 96)))"
proof -
  have "uuid_to_bytes_le sample_lib (2 ^ 96) \<noteq> uuid_as_bytes sample_lib (2 ^ 96)"
    by (simp add: sample_lib_def Let_def) code_simp
  then show ?thesis by (simp only: wal_tx_id_preserved_iff [OF sample_lib_laws] not_False_eq_True)
qed

section \<open>Frames\<close>

lemma wal_read_next_frame:
  assumes L: "uuid_laws L" and fits: "record_fits L r" and at: "at_cursor f pos (wal_frame L r)"
  shows "wal_read_next L f pos =
    Ok (Some (map_wal_record (reread_uuid L) r), pos + length (wal_frame L r))"
proof -
  let ?p = "serialize_record L r"
  have at': "at_cursor f pos (le32 (of_nat (length ?p)))" "at_cursor f (pos + 4) ?p"
      "at_cursor f (pos + 4 + length ?p) (le32 (crc32 L ?p))"
    using at by (simp_all add: wal_frame_def Let_def at_cursor_append)
  have n: "unat (of_nat (length ?p) :: u32) = length ?p"
    using fits by (simp add: record_fits_def unat_of_nat take_bit_nat_eq_self)
  show ?thesis
    using at_cursor_take [OF at'(1)] at_cursor_take [OF at'(2)] at_cursor_take [OF at'(3)]
      at_cursor_length [OF at'(2)] at_cursor_length [OF at'(3)] n
      deserialize_serialize_record [OF L fits]
    by (simp add: wal_read_next_def wal_read_exact_def Let_def wal_frame_def add.assoc)
qed

lemma replay_loop_frames:
  assumes L: "uuid_laws L" and fits: "\<forall>r \<in> set rs. record_fits L r"
    and at: "at_cursor f pos (concat (map (wal_frame L) rs))"
  shows "replay_loop L f pos st =
    replay_loop L f (pos + length (concat (map (wal_frame L) rs)))
      (fold replay_step (map (map_wal_record (reread_uuid L)) rs) st)"
  using fits at
proof (induction rs arbitrary: pos st)
  case Nil
  then show ?case by simp
next
  case (Cons r rs)
  have at: "at_cursor f pos (wal_frame L r)"
      "at_cursor f (pos + length (wal_frame L r)) (concat (map (wal_frame L) rs))"
    using Cons.prems(2) by (simp_all add: at_cursor_append)
  have "replay_loop L f pos st = replay_loop L f (pos + length (wal_frame L r))
      (replay_step (map_wal_record (reread_uuid L) r) st)"
    using Cons.prems(1) wal_read_next_frame [OF L _ at(1)] by (subst replay_loop.simps) simp
  with Cons.IH [OF _ at(2)] Cons.prems(1) show ?case by (simp add: add.assoc)
qed

lemma replay_fold_records: "rs_records (fold replay_step rs st) = rs_records st @ rs"
proof (induction rs arbitrary: st)
  case Nil
  then show ?case by simp
next
  case (Cons r rs)
  have "rs_records (replay_step r st) = rs_records st @ [r]"
    by (cases r) (simp_all add: replay_step_def)
  with Cons show ?case by simp
qed

lemma replay_fold_committed:
  "rs_committed (fold replay_step rs st) = rs_committed st \<union> {tx. WalCommit tx \<in> set rs}"
proof (induction rs arbitrary: st)
  case Nil
  then show ?case by simp
next
  case (Cons r rs)
  have "rs_committed (replay_step r st) = rs_committed st \<union> {tx. WalCommit tx = r}"
    by (cases r) (auto simp: replay_step_def)
  with Cons show ?case by auto
qed

text \<open>The transaction a record belongs to.\<close>

fun record_tx :: "'u wal_record \<Rightarrow> 'u tx_id" where
  "record_tx (WalBegin tx) = tx"
| "record_tx (WalPut tx _ _ _) = tx"
| "record_tx (WalDelete tx _ _) = tx"
| "record_tx (WalCommit tx) = tx"
| "record_tx (WalAbort tx) = tx"

definition is_abort :: "'u wal_record \<Rightarrow> bool" where
  "is_abort r = (case r of WalAbort _ \<Rightarrow> True | _ \<Rightarrow> False)"

lemma replay_keep_iff: "replay_keep committed = (\<lambda>r. record_tx r \<in> committed \<and> \<not> is_abort r)"
proof
  show "replay_keep committed r = (record_tx r \<in> committed \<and> \<not> is_abort r)" for r
    by (cases r) (simp_all add: replay_keep_def is_abort_def)
qed

lemma length_wal_header [simp]: "length wal_header = 11"
  by (simp add: wal_header_def WAL_MAGIC_def)

lemma replay_loop_end: "pos = length f \<Longrightarrow> replay_loop L f pos st = Ok st"
  by (subst replay_loop.simps) (simp add: wal_read_next_def)

section \<open>The log as an append-only sequence of frames\<close>

locale append_log =
  fixes app :: "'r \<Rightarrow> ('s, unit, db_error) op"
    and image :: "'s \<Rightarrow> bytes"
    and frame :: "'r \<Rightarrow> bytes"
  assumes app_ok: "fst (app r s) = Ok ()"
    and app_image: "image (snd (app r s)) = image s @ frame r"
begin

lemma append_all: "image (fold (\<lambda>r s. snd (app r s)) rs s) = image s @ concat (map frame rs)"
  by (induction rs arbitrary: s) (simp_all add: app_image)

lemma append_keeps: "take (length (image s)) (image (snd (app r s))) = image s"
  by (simp add: app_image)

end

interpretation wal: append_log "wal_append L" wal_log "wal_frame L" for L
  by unfold_locales (simp_all add: wal_append_def Let_def)

text \<open>The file a fresh writer leaves behind after appending a list of records.\<close>

definition wal_written :: "'u ext_lib \<Rightarrow> 'u wal_record list \<Rightarrow> wal_file" where
  "wal_written L rs = fold (\<lambda>r w. snd (wal_append L r w)) rs
     (wal_writer_open \<lparr>wal_log = [], wal_synced = 0\<rparr>)"

lemma wal_written_log: "wal_log (wal_written L rs) = wal_header @ concat (map (wal_frame L) rs)"
  by (simp add: wal_written_def wal.append_all wal_writer_open_def)

lemma frames_at_header:
  "at_cursor (wal_header @ concat (map (wal_frame L) rs) @ rest) 11 (concat (map (wal_frame L) rs))"
  using at_cursor_self [of wal_header] by simp

text \<open>C16. Recovery never starts: the reader takes the version from bytes 6 and 7 of the header,
  the last byte of the magic and the first byte of the version, so it rejects every log that the
  writer of this code base creates, whatever has been appended to it.\<close>

theorem replay_rejects_every_written_log:
  "replay_wal L (wal_log (wal_written L rs)) = Err (Corruption ''Unsupported WAL version 332'')"
proof -
  have hdr: "wal_header = [0x53, 0x41, 0x42, 0x49, 0x57, 0x41, 0x4C, 1, 0, 0, 0]"
    by (simp add: wal_header_def WAL_MAGIC_def WAL_VERSION_def numeral_2_eq_2)
  have "show_nat 332 = ''332''" by code_simp
  then have "wal_reader_open (wal_header @ xs) = Err (Corruption ''Unsupported WAL version 332'')" for xs
    by (simp add: wal_reader_open_def hdr WAL_HEADER_SIZE_def WAL_MAGIC_def WAL_VERSION_def Let_def)
  then show ?thesis by (simp add: replay_wal_def wal_written_log)
qed

text \<open>Distinct ids stay distinct in the log, because their little-endian forms are distinct.\<close>

lemma reread_uuid_inject:
  assumes "uuid_laws L" and "inj (uuid_to_bytes_le L)"
  shows "inj (reread_uuid L)"
proof (rule inj_on_inverseI)
  fix u
  have "uuid_as_bytes L (reread_uuid L u) = uuid_to_bytes_le L u"
    using uuid_lawsD(4) [OF assms(1) uuid_lawsD(3) [OF assms(1)], of u] by (auto simp: reread_uuid_def)
  then show "inv (uuid_to_bytes_le L) (uuid_as_bytes L (reread_uuid L u)) = u" using assms(2) by simp
qed

lemma map_record_simps:
  "record_tx (map_wal_record g r) = map_tx_id g (record_tx r)" "is_abort (map_wal_record g r) = is_abort r"
  by (cases r; simp add: is_abort_def)+

lemma committed_map_iff:
  assumes "inj g"
  shows "WalCommit (map_tx_id g tx) \<in> map_wal_record g ` set rs \<longleftrightarrow> WalCommit tx \<in> set rs"
proof -
  have "WalCommit (map_tx_id g tx) = map_wal_record g (WalCommit tx)" by simp
  then show ?thesis
    using inj_image_mem_iff [OF wal_record.inj_map [OF assms], of "WalCommit tx" "set rs"] by metis
qed

text \<open>C17. What the replay loop and its filter compute, on the records that were written: the records of the
  transactions that have a commit record in the log, without abort records, in log order, and nothing of any
  other transaction.  Every record is as it was written but for its transaction id, which the log changes
  in the same way in all of them (C35), so that records of one transaction keep a common id and those of
  different transactions different ids.  That the little-endian form of an id determines it is documented
  behaviour of \<^verbatim>\<open>uuid\<close>.\<close>

theorem replay_returns_committed:
  assumes "uuid_laws L" and "inj (uuid_to_bytes_le L)" and "\<forall>r \<in> set rs. record_fits L r"
  shows "inj (reread_uuid L) \<and>
     (\<exists>st. replay_loop L (wal_log (wal_written L rs)) WAL_HEADER_SIZE replay_init = Ok st \<and>
        filter (replay_keep (rs_committed st)) (rs_records st) =
          map (map_wal_record (reread_uuid L))
            (filter (\<lambda>r. WalCommit (record_tx r) \<in> set rs \<and> \<not> is_abort r) rs))"
proof -
  let ?seen = "map (map_wal_record (reread_uuid L)) rs"
  let ?f = "wal_log (wal_written L rs)"
  have inj: "inj (reread_uuid L)" by (rule reread_uuid_inject [OF assms(1,2)])
  have at: "at_cursor ?f 11 (concat (map (wal_frame L) rs))"
    using frames_at_header [of L rs "[]"] by (simp add: wal_written_log)
  have "replay_loop L ?f 11 replay_init = Ok (fold replay_step ?seen replay_init)"
    using replay_loop_frames [OF assms(1,3) at] by (simp add: replay_loop_end wal_written_log)
  then show ?thesis
    by (simp add: inj WAL_HEADER_SIZE_def replay_fold_records replay_fold_committed replay_keep_iff
        replay_init_def filter_map comp_def map_record_simps committed_map_iff [OF inj])
qed

lemma sample_le_inject: "inj (uuid_to_bytes_le sample_lib)"
proof (rule injI)
  fix u v :: "128 word"
  let ?b = "\<lambda>u :: 128 word. rev (le_bytes 16 u)"
  assume "uuid_to_bytes_le sample_lib u = uuid_to_bytes_le sample_lib v"
  then have "take 4 (?b u) = take 4 (?b v)" "take 2 (drop 4 (?b u)) = take 2 (drop 4 (?b v))"
      "take 2 (drop 6 (?b u)) = take 2 (drop 6 (?b v))" "drop 8 (?b u) = drop 8 (?b v)"
    by (simp_all add: sample_lib_def Let_def append_eq_append_conv)
  moreover have "b = take 4 b @ take 2 (drop 4 b) @ take 2 (drop 6 b) @ drop 8 b" for b :: bytes
  proof -
    have "drop 4 b = take 2 (drop 4 b) @ drop 6 b" "drop 6 b = take 2 (drop 6 b) @ drop 8 b"
      using append_take_drop_id [of 2 "drop 4 b"] append_take_drop_id [of 2 "drop 6 b"] by simp_all
    then show ?thesis using append_take_drop_id [of 4 b] by simp
  qed
  ultimately have "?b u = ?b v" by metis
  then show "u = v" using from_le_inject [of 16 u v] by simp
qed

theorem replay_returns_committed_witness:
  "\<exists>st. replay_loop sample_lib
      (wal_log (wal_written sample_lib [WalBegin (TxId 8), WalPut (TxId 8) 1 [5] [6], WalBegin (TxId 9),
         WalDelete (TxId 9) 1 [5], WalCommit (TxId 8), WalAbort (TxId 9)])) WAL_HEADER_SIZE replay_init = Ok st \<and>
     filter (replay_keep (rs_committed st)) (rs_records st) =
       map (map_wal_record (reread_uuid sample_lib)) [WalBegin (TxId 8), WalPut (TxId 8) 1 [5] [6], WalCommit (TxId 8)]"
proof -
  let ?rs = "[WalBegin (TxId 8), WalPut (TxId 8) 1 [5] [6], WalBegin (TxId 9),
    WalDelete (TxId 9) 1 [5], WalCommit (TxId 8), WalAbort (TxId 9)] :: 128 word wal_record list"
  have "\<forall>r \<in> set ?rs. record_fits sample_lib r"
    by (simp add: record_fits_def serialize_record_def sample_lib_def Let_def)
  from replay_returns_committed [OF sample_lib_laws sample_le_inject this] show ?thesis
    by (simp add: is_abort_def)
qed

lemma wal_read_next_torn:
  assumes fits: "record_fits L r" and k: "0 < k" "k < length (wal_frame L r)"
    and f: "drop pos f = take k (wal_frame L r)"
  shows "\<exists>e. wal_read_next L f pos = Err e"
proof (cases "k < 4")
  case True
  then have "take 4 (drop pos f) = take k (wal_frame L r)" using f by simp
  with True k show ?thesis by (auto simp: wal_read_next_def Let_def)
next
  case False
  let ?p = "serialize_record L r"
  have frame: "wal_frame L r = le32 (of_nat (length ?p)) @ ?p @ le32 (crc32 L ?p)"
    by (simp add: wal_frame_def Let_def)
  have "take 4 (drop pos f) = le32 (of_nat (length ?p))"
    unfolding f frame using False by (simp add: min_def)
  moreover have "unat (of_nat (length ?p) :: u32) = length ?p"
    using fits by (simp add: record_fits_def unat_of_nat take_bit_nat_eq_self)
  moreover have "length f - pos = k" using arg_cong [OF f, of length] k by simp
  then have "\<not> pos + 4 + length ?p + 4 \<le> length f"
    using k by (simp add: frame)
  ultimately show ?thesis
    by (auto simp: wal_read_next_def wal_read_exact_def Let_def)
qed

text \<open>A torn tail makes recovery fail as a whole: if a crash leaves only a proper, non-empty
  part of the last frame, the replay loop returns an error instead of the complete records before
  it.\<close>

lemma torn_tail_fails:
  assumes "uuid_laws L" and "\<forall>r \<in> set rs. record_fits L r" and "record_fits L r"
    and "0 < k" and "k < length (wal_frame L r)"
  shows "\<exists>e. replay_loop L (wal_log (wal_written L rs) @ take k (wal_frame L r)) WAL_HEADER_SIZE
     replay_init = Err e"
proof -
  let ?f = "wal_log (wal_written L rs) @ take k (wal_frame L r)"
  let ?pos = "11 + length (concat (map (wal_frame L) rs))"
  have at: "at_cursor ?f 11 (concat (map (wal_frame L) rs))"
    using frames_at_header [of L rs] by (simp add: wal_written_log)
  have "drop ?pos ?f = take k (wal_frame L r)" by (simp add: wal_written_log)
  then obtain e where "wal_read_next L ?f ?pos = Err e"
    using wal_read_next_torn [OF assms(3-5)] by blast
  then have "replay_loop L ?f ?pos st = Err e" for st by (subst replay_loop.simps) simp
  with replay_loop_frames [OF assms(1,2) at] show ?thesis by (simp add: WAL_HEADER_SIZE_def)
qed

section \<open>Durability\<close>

text \<open>A crash keeps the synced prefix and an arbitrary part of what was written after it.\<close>

definition crash_image :: "wal_file \<Rightarrow> bytes \<Rightarrow> bool" where
  "crash_image w f \<longleftrightarrow> (\<exists>k. wal_synced w \<le> k \<and> f = take k (wal_log w))"

lemma wal_append_synced_mono:
  "wal_synced w \<le> length (wal_log w) \<Longrightarrow>
   wal_synced w \<le> wal_synced (snd (wal_append L r w)) \<and>
   wal_synced (snd (wal_append L r w)) \<le> length (wal_log (snd (wal_append L r w)))"
  by (auto simp: wal_append_def Let_def)

lemma wal_fold_synced_mono:
  "wal_synced w \<le> length (wal_log w) \<Longrightarrow>
   wal_synced w \<le> wal_synced (fold (\<lambda>r w. snd (wal_append L r w)) rs w)"
proof (induction rs arbitrary: w)
  case Nil
  then show ?case by simp
next
  case (Cons r rs)
  from wal_append_synced_mono [OF Cons.prems, of L r] Cons.IH [of "snd (wal_append L r w)"]
  show ?case by simp
qed

text \<open>Commits are durable: once the commit record of a transaction has been appended, every
  crash, also after more records have been appended, leaves a file that begins with the complete
  log up to and including this commit record.\<close>

lemma commit_durable:
  assumes "crash_image (wal_written L (rs @ WalCommit tx # later)) f"
  shows "take (length (wal_log (wal_written L (rs @ [WalCommit tx])))) f =
     wal_log (wal_written L (rs @ [WalCommit tx]))"
proof -
  let ?w = "wal_written L (rs @ [WalCommit tx])" and ?v = "wal_written L (rs @ WalCommit tx # later)"
  have v: "?v = fold (\<lambda>r w. snd (wal_append L r w)) later ?w" by (simp add: wal_written_def)
  have synced: "wal_synced ?w = length (wal_log ?w)"
    by (simp add: wal_written_def wal_append_def is_commit_def Let_def)
  then have "length (wal_log ?w) \<le> wal_synced ?v"
    using wal_fold_synced_mono [of ?w L later] v by simp
  moreover obtain k where "wal_synced ?v \<le> k" "f = take k (wal_log ?v)"
    using assms by (auto simp: crash_image_def)
  moreover have "wal_log ?v = wal_log ?w @ concat (map (wal_frame L) later)"
    by (simp add: v wal.append_all)
  ultimately show ?thesis by (simp add: min_def)
qed

end
