(* ===== verification/Page.thy ===== *)
theory Page
  imports Core_Types
begin

text \<open>
  \<^verbatim>\<open>sabi-storage/src/page.rs\<close>: the 4096-byte page image.  The buffer is filled with
  \<open>copy_from_slice\<close> in the order of the code; \<open>page_image\<close> is the resulting layout.  The lemmas
  show that a page whose payload fits is read back unchanged, that an image is accepted only with
  a matching checksum, and which images make the reader panic.
\<close>

definition PAGE_SIZE :: nat where "PAGE_SIZE = 4096"

definition PAGE_MAGIC :: bytes where "PAGE_MAGIC = [0x53, 0x41, 0x42, 0x49]"

datatype page_type = Free | Data | BTreeInternal | BTreeLeaf

type_synonym page_id = u64

record page_header =
  ph_type :: page_type
  ph_flags :: u16
  ph_page_id :: u64
  ph_lsn :: u64
  ph_payload_len :: u32

record page =
  pg_header :: page_header
  pg_payload :: bytes

definition page_new :: "u64 \<Rightarrow> page_type \<Rightarrow> page" where
  "page_new pid ty = \<lparr>
     pg_header = \<lparr>ph_type = ty, ph_flags = 0, ph_page_id = pid, ph_lsn = 0, ph_payload_len = 0\<rparr>,
     pg_payload = []\<rparr>"

text \<open>\<^verbatim>\<open>page_type as u16\<close> and \<^verbatim>\<open>PageType::try_from\<close>.\<close>

fun page_type_code :: "page_type \<Rightarrow> u16" where
  "page_type_code Free = 0"
| "page_type_code Data = 1"
| "page_type_code BTreeInternal = 2"
| "page_type_code BTreeLeaf = 3"

definition page_type_try_from :: "u16 \<Rightarrow> page_type db_result" where
  "page_type_try_from v =
     (if v = 0 then Ok Free
      else if v = 1 then Ok Data
      else if v = 2 then Ok BTreeInternal
      else if v = 3 then Ok BTreeLeaf
      else Err (Corruption ''Unknown page type''))"

definition page_serialize :: "(bytes \<Rightarrow> u32) \<Rightarrow> page \<Rightarrow> bytes db_result" where
  "page_serialize crc p =
     (let h = pg_header p;
          payload_length = of_nat (length (pg_payload p)) :: u32;
          buf = replicate PAGE_SIZE 0;
          buf = copy_from_slice buf 0 PAGE_MAGIC;
          buf = copy_from_slice buf 4 (le16 (page_type_code (ph_type h)));
          buf = copy_from_slice buf 6 (le16 (ph_flags h));
          buf = copy_from_slice buf 8 (le64 (ph_page_id h));
          buf = copy_from_slice buf 16 (le64 (ph_lsn h));
          buf = copy_from_slice buf 24 (le32 payload_length);
          payload_start = 32;
          payload_end = payload_start + length (pg_payload p)
      in if payload_end > PAGE_SIZE then Err (Corruption ''Page payload overflow'')
         else
           (let buf = copy_from_slice buf payload_start (pg_payload p);
                checksum = crc (take 28 buf @ take (payload_end - payload_start) (drop payload_start buf))
            in Ok (copy_from_slice buf 28 (le32 checksum))))"

definition page_deserialize :: "(bytes \<Rightarrow> u32) \<Rightarrow> bytes \<Rightarrow> page db_result" where
  "page_deserialize crc data =
     (if take 4 data \<noteq> PAGE_MAGIC then Err (Corruption ''Invalid page magic'')
      else rbind (page_type_try_from (from_le (take 2 (drop 4 data)))) (\<lambda>ty.
        let flags = from_le (take 2 (drop 6 data));
            pid = from_le (take 8 (drop 8 data));
            lsn = from_le (take 8 (drop 16 data));
            payload_len = from_le (take 4 (drop 24 data)) :: u32;
            expected_checksum = from_le (take 4 (drop 28 data)) :: u32
        in rbind (sub_slice data 32 (32 + unat payload_len)) (\<lambda>payload.
             let actual_checksum = crc (take 28 data @ payload)
             in if actual_checksum \<noteq> expected_checksum
                then Err (Corruption ''Page checksum mismatch'')
                else Ok \<lparr>
                  pg_header = \<lparr>ph_type = ty, ph_flags = flags, ph_page_id = pid, ph_lsn = lsn,
                               ph_payload_len = payload_len\<rparr>,
                  pg_payload = payload\<rparr>)))"

section \<open>The layout of an image\<close>

definition MAX_PAYLOAD :: nat where "MAX_PAYLOAD = PAGE_SIZE - 32"

lemma MAX_PAYLOAD_eq [simp]: "MAX_PAYLOAD = 4064"
  by (simp add: MAX_PAYLOAD_def PAGE_SIZE_def)

lemma PAGE_SIZE_eq [simp]: "PAGE_SIZE = 4096"
  by (simp add: PAGE_SIZE_def)

lemma length_PAGE_MAGIC [simp]: "length PAGE_MAGIC = 4"
  by (simp add: PAGE_MAGIC_def)

text \<open>The first 28 bytes: everything the checksum covers besides the payload.\<close>

definition page_prefix :: "page \<Rightarrow> bytes" where
  "page_prefix p =
     PAGE_MAGIC @ le16 (page_type_code (ph_type (pg_header p))) @ le16 (ph_flags (pg_header p)) @
     le64 (ph_page_id (pg_header p)) @ le64 (ph_lsn (pg_header p)) @
     le32 (of_nat (length (pg_payload p)))"

definition page_image :: "(bytes \<Rightarrow> u32) \<Rightarrow> page \<Rightarrow> bytes" where
  "page_image crc p =
     page_prefix p @ le32 (crc (page_prefix p @ pg_payload p)) @ pg_payload p @
     replicate (MAX_PAYLOAD - length (pg_payload p)) 0"

lemma length_page_prefix [simp]: "length (page_prefix p) = 28"
  by (simp add: page_prefix_def)

lemma length_page_image [simp]:
  "length (pg_payload p) \<le> MAX_PAYLOAD \<Longrightarrow> length (page_image crc p) = PAGE_SIZE"
  by (simp add: page_image_def)

lemma copy_after_prefix:
  "i = length pre \<Longrightarrow> copy_from_slice (pre @ replicate n 0) i xs = pre @ xs @ replicate (n - length xs) 0"
  by (simp add: copy_from_slice_def)

lemma page_header_image:
  "copy_from_slice (copy_from_slice (copy_from_slice (copy_from_slice (copy_from_slice
     (copy_from_slice (replicate 4096 0) 0 PAGE_MAGIC)
       4 (le16 (page_type_code (ph_type (pg_header p))))) 6 (le16 (ph_flags (pg_header p))))
       8 (le64 (ph_page_id (pg_header p)))) 16 (le64 (ph_lsn (pg_header p))))
       24 (le32 (of_nat (length (pg_payload p)))) =
   page_prefix p @ replicate 4068 0"
proof -
  let ?ty = "le16 (page_type_code (ph_type (pg_header p)))" and ?fl = "le16 (ph_flags (pg_header p))"
    and ?i = "le64 (ph_page_id (pg_header p))" and ?l = "le64 (ph_lsn (pg_header p))"
    and ?n = "le32 (of_nat (length (pg_payload p)))"
  have b1: "copy_from_slice (replicate 4096 0) 0 PAGE_MAGIC = PAGE_MAGIC @ replicate 4092 0"
    using copy_after_prefix [of 0 "[]" 4096 PAGE_MAGIC] by simp
  note b2 = copy_after_prefix [of 4 PAGE_MAGIC 4092 ?ty]
  note b3 = copy_after_prefix [of 6 "PAGE_MAGIC @ ?ty" 4090 ?fl]
  note b4 = copy_after_prefix [of 8 "PAGE_MAGIC @ ?ty @ ?fl" 4088 ?i]
  note b5 = copy_after_prefix [of 16 "PAGE_MAGIC @ ?ty @ ?fl @ ?i" 4080 ?l]
  note b6 = copy_after_prefix [of 24 "PAGE_MAGIC @ ?ty @ ?fl @ ?i @ ?l" 4072 ?n]
  show ?thesis using b2 b3 b4 b5 b6 by (simp add: b1 page_prefix_def)
qed

lemma page_serialize_image:
  assumes "length (pg_payload p) \<le> MAX_PAYLOAD"
  shows "page_serialize crc p = Ok (page_image crc p)"
proof -
  let ?n = "length (pg_payload p)"
  have pay: "copy_from_slice (page_prefix p @ replicate 4068 0) 32 (pg_payload p) =
    page_prefix p @ replicate 4 0 @ pg_payload p @ replicate (4064 - ?n) 0"
    using copy_after_prefix [of 32 "page_prefix p @ replicate 4 0" 4064 "pg_payload p"]
      replicate_add [of 4 4064 "0 :: u8"] by simp
  have "copy_from_slice (page_prefix p @ replicate 4 0 @ pg_payload p @ replicate (4064 - ?n) 0) 28
      (le32 c) = page_prefix p @ le32 c @ pg_payload p @ replicate (4064 - ?n) 0" for c :: u32
    by (simp add: copy_from_slice_def)
  with assms pay show ?thesis
    by (simp add: page_serialize_def page_image_def Let_def page_header_image)
qed

lemma page_serialize_overflow:
  "length (pg_payload p) > MAX_PAYLOAD \<Longrightarrow>
   page_serialize crc p = Err (Corruption ''Page payload overflow'')"
  by (simp add: page_serialize_def Let_def)

section \<open>Reading an image\<close>

lemma page_type_try_from_code [simp]: "page_type_try_from (page_type_code ty) = Ok ty"
  by (cases ty) (simp_all add: page_type_try_from_def)

lemma page_type_code_try_from: "page_type_try_from v = Ok ty \<Longrightarrow> page_type_code ty = v"
  by (auto simp: page_type_try_from_def split: if_splits)

lemma unat_of_nat_u32 [simp]: "n < 4294967296 \<Longrightarrow> unat (of_nat n :: u32) = n"
  by (simp add: unat_of_nat take_bit_nat_eq_self)

lemma page_image_fields:
  assumes "length (pg_payload p) \<le> MAX_PAYLOAD"
  shows "take 4 (page_image crc p) = PAGE_MAGIC"
    and "take 2 (drop 4 (page_image crc p)) = le16 (page_type_code (ph_type (pg_header p)))"
    and "take 2 (drop 6 (page_image crc p)) = le16 (ph_flags (pg_header p))"
    and "take 8 (drop 8 (page_image crc p)) = le64 (ph_page_id (pg_header p))"
    and "take 8 (drop 16 (page_image crc p)) = le64 (ph_lsn (pg_header p))"
    and "take 4 (drop 24 (page_image crc p)) = le32 (of_nat (length (pg_payload p)))"
    and "take 4 (drop 28 (page_image crc p)) = le32 (crc (page_prefix p @ pg_payload p))"
    and "take 28 (page_image crc p) = page_prefix p"
    and "take (length (pg_payload p)) (drop 32 (page_image crc p)) = pg_payload p"
  by (simp_all add: page_image_def page_prefix_def)

text \<open>What the reader returns for a written page: the recorded payload length is the real one.\<close>

definition page_stored :: "page \<Rightarrow> page" where
  "page_stored p = p\<lparr>pg_header := (pg_header p)\<lparr>ph_payload_len := of_nat (length (pg_payload p))\<rparr>\<rparr>"

lemma page_stored_simps [simp]:
  "pg_payload (page_stored p) = pg_payload p"
  "ph_type (pg_header (page_stored p)) = ph_type (pg_header p)"
  "ph_page_id (pg_header (page_stored p)) = ph_page_id (pg_header p)"
  by (simp_all add: page_stored_def)

lemma page_deserialize_image:
  assumes "length (pg_payload p) \<le> MAX_PAYLOAD"
  shows "page_deserialize crc (page_image crc p) = Ok (page_stored p)"
proof -
  let ?n = "length (pg_payload p)"
  have n: "unat (of_nat ?n :: u32) = ?n" using assms by simp
  have sl: "(sub_slice (page_image crc p) 32 (32 + ?n) :: bytes db_result) = Ok (pg_payload p)"
    using assms page_image_fields(9) [OF assms, of crc] by simp
  show ?thesis
    by (simp add: page_deserialize_def page_image_fields [OF assms] Let_def n sl page_stored_def)
qed

text \<open>C33. A page whose payload fits in 4064 bytes is serialized to exactly one 4096-byte block, and
  reading this block returns the page, with the payload length recorded in its header.\<close>

theorem page_roundtrip:
  assumes "length (pg_payload p) \<le> MAX_PAYLOAD"
  shows "\<exists>buf. page_serialize crc p = Ok buf \<and> length buf = PAGE_SIZE \<and>
           page_deserialize crc buf = Ok (page_stored p)"
  using page_serialize_image [OF assms] page_deserialize_image [OF assms] assms
  by simp

theorem page_roundtrip_witness:
  "\<exists>buf. page_serialize (\<lambda>_. 7) (page_new 3 Data) = Ok buf \<and> length buf = PAGE_SIZE \<and>
     page_deserialize (\<lambda>_. 7) buf = Ok (page_stored (page_new 3 Data))"
  by (rule page_roundtrip) (simp add: page_new_def)

text \<open>Serialization on every branch: filling the buffer field by field, with the checksum last,
  yields the layout magic, type, flags, id, LSN, payload length, checksum, payload, zero padding;
  a payload above 4064 bytes is rejected with a corruption error; nothing panics.\<close>

lemma page_serialize_cases:
  "page_serialize crc p =
     (if length (pg_payload p) > MAX_PAYLOAD then Err (Corruption ''Page payload overflow'')
      else Ok (page_image crc p))"
  by (simp add: page_serialize_image page_serialize_overflow)

lemma page_deserialize_OkD:
  assumes "page_deserialize crc data = Ok p" and "length data = PAGE_SIZE"
  shows "length (pg_payload p) \<le> MAX_PAYLOAD"
    and "page_prefix p = take 28 data"
    and "pg_payload p = take (length (pg_payload p)) (drop 32 data)"
    and "le32 (crc (page_prefix p @ pg_payload p)) = take 4 (drop 28 data)"
proof -
  let ?len = "from_le (take 4 (drop 24 data)) :: u32"
  from assms(1) have magic: "take 4 data = PAGE_MAGIC"
    by (auto simp: page_deserialize_def split: if_splits)
  from assms(1) obtain ty where ty: "page_type_try_from (from_le (take 2 (drop 4 data))) = Ok ty"
    by (cases "page_type_try_from (from_le (take 2 (drop 4 data)))")
      (auto simp: page_deserialize_def split: if_splits)
  have fit: "32 + unat ?len \<le> 4096"
  proof (rule ccontr)
    assume "\<not> 32 + unat ?len \<le> 4096"
    then have "(sub_slice data 32 (32 + unat ?len) :: bytes db_result) = Panic ''range out of bounds for slice''"
      using assms(2) by (simp add: sub_slice_def)
    with assms(1) magic ty show False by (simp add: page_deserialize_def Let_def)
  qed
  define pay where "pay = take (unat ?len) (drop 32 data)"
  have sl: "(sub_slice data 32 (32 + unat ?len) :: bytes db_result) = Ok pay"
    using fit assms(2) by (simp add: pay_def)
  have len: "length pay = unat ?len" using fit assms(2) by (simp add: pay_def)
  from assms(1) magic ty sl have crc: "crc (take 28 data @ pay) = from_le (take 4 (drop 28 data))"
    and p: "pg_payload p = pay" "ph_type (pg_header p) = ty"
      "ph_flags (pg_header p) = from_le (take 2 (drop 6 data))"
      "ph_page_id (pg_header p) = from_le (take 8 (drop 8 data))"
      "ph_lsn (pg_header p) = from_le (take 8 (drop 16 data))"
    by (auto simp: page_deserialize_def Let_def split: if_splits)
  have "take 28 data = take 4 data @ take 2 (drop 4 data) @ take 2 (drop 6 data) @
      take 8 (drop 8 data) @ take 8 (drop 16 data) @ take 4 (drop 24 data)"
    using take_add [of 4 24 data] take_add [of 2 22 "drop 4 data"] take_add [of 2 20 "drop 6 data"]
      take_add [of 8 12 "drop 8 data"] take_add [of 8 4 "drop 16 data"] by simp
  then show pre: "page_prefix p = take 28 data"
    using p magic len page_type_code_try_from [OF ty] assms(2)
    by (simp add: page_prefix_def le_bytes_field)
  show "length (pg_payload p) \<le> MAX_PAYLOAD" using len p fit by simp
  show "pg_payload p = take (length (pg_payload p)) (drop 32 data)" using len p by (simp add: pay_def)
  show "le32 (crc (page_prefix p @ pg_payload p)) = take 4 (drop 28 data)"
    using crc p pre assms(2) by (simp add: le_bytes_field)
qed

text \<open>Corruption detection: a 4096-byte block is accepted only if it begins with exactly the
  bytes that serializing the returned page would write; in particular the checksum stored in the
  block is the one computed from its header and payload.\<close>

lemma page_deserialize_canonical:
  assumes "page_deserialize crc data = Ok p" and "length data = PAGE_SIZE"
  shows "\<exists>buf. page_serialize crc p = Ok buf \<and>
           take (32 + length (pg_payload p)) buf = take (32 + length (pg_payload p)) data"
proof -
  note d = page_deserialize_OkD [OF assms]
  let ?n = "length (pg_payload p)"
  have "take (32 + ?n) data = take 28 data @ take 4 (drop 28 data) @ take ?n (drop 32 data)"
    using take_add [of 28 "4 + ?n" data] take_add [of 4 ?n "drop 28 data"] by simp
  also have "\<dots> = page_prefix p @ le32 (crc (page_prefix p @ pg_payload p)) @ pg_payload p"
    using d by simp
  finally show ?thesis
    using d(1) by (simp add: page_serialize_image page_image_def)
qed

text \<open>C34. The reader is not total: a block with a valid magic number and page type but a recorded
  payload length above 4064 makes the slice of the payload panic, before the checksum is compared.
  This is the only way in which it panics.\<close>

theorem page_deserialize_panic_iff:
  assumes "length data = PAGE_SIZE"
  shows "is_panic (page_deserialize crc data) \<longleftrightarrow>
     take 4 data = PAGE_MAGIC \<and>
     (from_le (take 2 (drop 4 data)) :: u16) \<in> {0, 1, 2, 3} \<and>
     unat (from_le (take 4 (drop 24 data)) :: u32) > MAX_PAYLOAD"
  using assms
  by (auto simp: page_deserialize_def page_type_try_from_def is_panic_rbind sub_slice_def Let_def)

theorem page_deserialize_panic_witness:
  "is_panic (page_deserialize (\<lambda>_. 0)
     (PAGE_MAGIC @ [3, 0] @ replicate 18 0 @ [0xff, 0xff, 0xff, 0xff] @ replicate 4068 0))"
  by (subst page_deserialize_panic_iff) simp_all

end
