(* ===== verification/Page_File.thy ===== *)
theory Page_File
  imports Page
begin

text \<open>
  \<^verbatim>\<open>sabi-storage/src/page_file.rs\<close>: pages in one file.  A file is its byte content; \<open>file_write\<close>
  fills the gap with zeros when it starts beyond the end, as a POSIX file does.  Disk failures and
  lock poisoning are not modelled: the only I/O errors are a read past the end of the file and a
  seek offset that does not fit in a signed 64-bit integer.

  The locale \<open>block_store\<close> is what the clients of a page file (the B+tree and the engine) rely on:
  a written block is read back, other blocks are untouched, an allocated id is fresh.  It is
  interpreted here for raw data pages and in \<^verbatim>\<open>Btree_Node\<close> for B+tree nodes.
\<close>

definition file_seek :: "u64 \<Rightarrow> nat db_result" where
  "file_seek off = (if unat off < 2 ^ 63 then Ok (unat off) else Err (Io InvalidInput))"

definition file_read_exact :: "bytes \<Rightarrow> nat \<Rightarrow> nat \<Rightarrow> bytes db_result" where
  "file_read_exact f pos n =
     (if pos + n \<le> length f then Ok (take n (drop pos f)) else Err (Io UnexpectedEof))"

definition file_write :: "bytes \<Rightarrow> nat \<Rightarrow> bytes \<Rightarrow> bytes" where
  "file_write f pos xs =
     take pos f @ replicate (pos - length f) 0 @ xs @ drop (pos + length xs) f"

record page_file =
  pf_file :: bytes
  pf_free_list :: "u64 list"

definition page_file_open :: "bytes \<Rightarrow> page_file" where
  "page_file_open content = \<lparr>pf_file = content, pf_free_list = []\<rparr>"

definition page_offset :: "u64 \<Rightarrow> u64 db_result" where
  "page_offset pid = checked_mul pid (of_nat PAGE_SIZE)"

definition read_page :: "(bytes \<Rightarrow> u32) \<Rightarrow> page_file \<Rightarrow> u64 \<Rightarrow> page db_result" where
  "read_page crc f pid =
     rbind (page_offset pid) (\<lambda>offset.
     rbind (file_seek offset) (\<lambda>pos.
     rbind (file_read_exact (pf_file f) pos PAGE_SIZE) (\<lambda>buf.
     page_deserialize crc buf)))"

definition write_page :: "(bytes \<Rightarrow> u32) \<Rightarrow> page \<Rightarrow> (page_file, unit, db_error) op" where
  "write_page crc p =
     sbind (lift_result (page_offset (ph_page_id (pg_header p)))) (\<lambda>offset.
     sbind (lift_result (file_seek offset)) (\<lambda>pos.
     sbind (lift_result (page_serialize crc p)) (\<lambda>buf f.
       (Ok (), f\<lparr>pf_file := file_write (pf_file f) pos buf\<rparr>))))"

text \<open>\<^verbatim>\<open>Vec::pop\<close> takes the last element of the free list.\<close>

definition allocate_page :: "(page_file, u64, db_error) op" where
  "allocate_page f =
     (if pf_free_list f \<noteq> [] then
        (Ok (last (pf_free_list f)), f\<lparr>pf_free_list := butlast (pf_free_list f)\<rparr>)
      else (Ok (of_nat (length (pf_file f) div PAGE_SIZE)), f))"

definition free_page :: "u64 \<Rightarrow> page_file \<Rightarrow> page_file" where
  "free_page pid f = f\<lparr>pf_free_list := pf_free_list f @ [pid]\<rparr>"

section \<open>Blocks of the file\<close>

definition page_count :: "page_file \<Rightarrow> nat" where
  "page_count f = length (pf_file f) div PAGE_SIZE"

text \<open>The bound on the number of pages keeps every offset below \<open>2 ^ 63\<close>.\<close>

definition MAX_PAGES :: nat where "MAX_PAGES = 2 ^ 50"

definition wf_page_file :: "page_file \<Rightarrow> bool" where
  "wf_page_file f \<longleftrightarrow>
     length (pf_file f) mod PAGE_SIZE = 0 \<and> page_count f \<le> MAX_PAGES \<and>
     distinct (pf_free_list f) \<and> (\<forall>pid \<in> set (pf_free_list f). unat pid < page_count f)"

definition block_at :: "page_file \<Rightarrow> nat \<Rightarrow> bytes" where
  "block_at f i = take PAGE_SIZE (drop (i * PAGE_SIZE) (pf_file f))"

lemma page_offset_Ok [simp]:
  assumes "unat pid < MAX_PAGES"
  shows "page_offset pid = Ok (pid * 4096)" and "unat (pid * 4096 :: u64) = unat pid * 4096"
proof -
  have m: "unat pid * 4096 < 2 ^ 64" using assms by (simp add: MAX_PAGES_def)
  then show "page_offset pid = Ok (pid * 4096)"
    by (simp add: page_offset_def checked_mul_def)
  show "unat (pid * 4096 :: u64) = unat pid * 4096"
    using m by (simp add: unat_mult_lem [THEN iffD1])
qed

lemma file_seek_page:
  "unat pid < MAX_PAGES \<Longrightarrow> file_seek (pid * 4096) = Ok (unat pid * 4096)"
  by (simp add: file_seek_def MAX_PAGES_def)

lemma wf_length: "wf_page_file f \<Longrightarrow> length (pf_file f) = page_count f * 4096"
  by (auto simp: wf_page_file_def page_count_def)

lemma length_block_at [simp]:
  "wf_page_file f \<Longrightarrow> i < page_count f \<Longrightarrow> length (block_at f i) = 4096"
  by (simp add: block_at_def wf_length)

lemma read_page_block:
  assumes "wf_page_file f" and "unat pid < page_count f"
  shows "read_page crc f pid = page_deserialize crc (block_at f (unat pid))"
proof -
  have lt: "unat pid < MAX_PAGES" using assms by (simp add: wf_page_file_def)
  have "unat pid * 4096 + 4096 \<le> length (pf_file f)"
    using assms(2) wf_length [OF assms(1)] by simp
  with lt show ?thesis
    by (simp add: read_page_def file_seek_page file_read_exact_def block_at_def)
qed

lemma read_page_beyond:
  assumes "wf_page_file f" and "page_count f \<le> unat pid" and "unat pid < MAX_PAGES"
  shows "read_page crc f pid = Err (Io UnexpectedEof)"
  using assms wf_length [OF assms(1)]
  by (simp add: read_page_def file_seek_page file_read_exact_def)

lemma write_page_too_large:
  "unat (ph_page_id (pg_header p)) < MAX_PAGES \<Longrightarrow> length (pg_payload p) > MAX_PAYLOAD \<Longrightarrow>
   write_page crc p f = (Err (Corruption ''Page payload overflow''), f)"
  by (simp add: write_page_def file_seek_page page_serialize_overflow)

lemma write_page_Ok:
  "unat (ph_page_id (pg_header p)) < MAX_PAGES \<Longrightarrow> length (pg_payload p) \<le> MAX_PAYLOAD \<Longrightarrow>
   write_page crc p f = (Ok (), f\<lparr>pf_file :=
     file_write (pf_file f) (unat (ph_page_id (pg_header p)) * 4096) (page_image crc p)\<rparr>)"
  by (simp add: write_page_def file_seek_page page_serialize_image)

text \<open>Overwriting or appending one block of a file of whole blocks.\<close>

lemma file_write_block:
  assumes "length f = n * 4096" and "length xs = 4096" and "i \<le> n"
  shows "length (file_write f (i * 4096) xs) = (if i = n then Suc n else n) * 4096"
    and "take 4096 (drop (i * 4096) (file_write f (i * 4096) xs)) = xs"
    and "j \<noteq> i \<Longrightarrow> take 4096 (drop (j * 4096) (file_write f (i * 4096) xs)) = take 4096 (drop (j * 4096) f)"
proof -
  have le: "i * 4096 \<le> length f" using assms by simp
  then have eq: "file_write f (i * 4096) xs = take (i * 4096) f @ xs @ drop (i * 4096 + 4096) f"
    using assms(2) by (simp add: file_write_def)
  show "length (file_write f (i * 4096) xs) = (if i = n then Suc n else n) * 4096"
    using assms by (auto simp: eq)
  show "take 4096 (drop (i * 4096) (file_write f (i * 4096) xs)) = xs"
    using le assms(2) by (simp add: eq)
  assume "j \<noteq> i"
  then consider "Suc j \<le> i" | "Suc i \<le> j" by linarith
  then show "take 4096 (drop (j * 4096) (file_write f (i * 4096) xs)) = take 4096 (drop (j * 4096) f)"
  proof cases
    case 1
    then have "4096 \<le> i * 4096 - j * 4096" "4096 \<le> length f - j * 4096" "j * 4096 \<le> i * 4096"
      using le by linarith+
    then show ?thesis using le by (simp add: eq drop_take min_def)
  next
    case 2
    then have "i * 4096 + 4096 \<le> j * 4096" by simp
    then show ?thesis using le assms(2) by (simp add: eq)
  qed
qed

section \<open>The effect of one write\<close>

lemma write_page_effect:
  assumes wf: "wf_page_file f" and pid: "unat (ph_page_id (pg_header p)) \<le> page_count f"
    and bound: "unat (ph_page_id (pg_header p)) < MAX_PAGES"
    and fits: "length (pg_payload p) \<le> MAX_PAYLOAD"
  shows "\<exists>f'. write_page crc p f = (Ok (), f') \<and> wf_page_file f' \<and>
     pf_free_list f' = pf_free_list f \<and>
     page_count f' = max (page_count f) (Suc (unat (ph_page_id (pg_header p)))) \<and>
     block_at f' (unat (ph_page_id (pg_header p))) = page_image crc p \<and>
     (\<forall>j. j \<noteq> unat (ph_page_id (pg_header p)) \<longrightarrow> block_at f' j = block_at f j)"
proof -
  let ?i = "unat (ph_page_id (pg_header p))"
  let ?f = "f\<lparr>pf_file := file_write (pf_file f) (?i * 4096) (page_image crc p)\<rparr>"
  note fw = file_write_block [OF wf_length [OF wf], of "page_image crc p" ?i]
  have img: "length (page_image crc p) = 4096" using fits by simp
  have count: "page_count ?f = max (page_count f) (Suc ?i)"
    using fw(1) [OF img pid] pid by (auto simp: page_count_def)
  have "length (pf_file ?f) mod PAGE_SIZE = 0" using fw(1) [OF img pid] by simp
  with wf count pid bound have "wf_page_file ?f"
    by (auto simp: wf_page_file_def)
  moreover have "block_at ?f ?i = page_image crc p"
    using fw(2) [OF img pid] by (simp add: block_at_def)
  moreover have "\<forall>j. j \<noteq> ?i \<longrightarrow> block_at ?f j = block_at f j"
    using fw(3) [OF img pid] by (simp add: block_at_def)
  ultimately show ?thesis
    using write_page_Ok [OF bound fits, of crc f] count by simp
qed

lemma write_page_reads:
  assumes "wf_page_file f" and "unat (ph_page_id (pg_header p)) \<le> page_count f"
    and "unat (ph_page_id (pg_header p)) < MAX_PAGES" and "length (pg_payload p) \<le> MAX_PAYLOAD"
  shows "\<exists>f'. write_page crc p f = (Ok (), f') \<and> wf_page_file f' \<and>
     pf_free_list f' = pf_free_list f \<and>
     page_count f' = max (page_count f) (Suc (unat (ph_page_id (pg_header p)))) \<and>
     read_page crc f' (ph_page_id (pg_header p)) = Ok (page_stored p) \<and>
     (\<forall>j. j \<noteq> ph_page_id (pg_header p) \<longrightarrow> unat j < page_count f \<longrightarrow>
        read_page crc f' j = read_page crc f j)"
proof -
  obtain f' where f': "write_page crc p f = (Ok (), f')" "wf_page_file f'"
      "pf_free_list f' = pf_free_list f"
      "page_count f' = max (page_count f) (Suc (unat (ph_page_id (pg_header p))))"
      "block_at f' (unat (ph_page_id (pg_header p))) = page_image crc p"
      "\<forall>j. j \<noteq> unat (ph_page_id (pg_header p)) \<longrightarrow> block_at f' j = block_at f j"
    using write_page_effect [OF assms, of crc] by auto
  have "read_page crc f' (ph_page_id (pg_header p)) = Ok (page_stored p)"
    using f' assms(4) by (simp add: read_page_block page_deserialize_image)
  moreover have "read_page crc f' j = read_page crc f j"
    if "j \<noteq> ph_page_id (pg_header p)" "unat j < page_count f" for j
    using that f' assms(1) by (simp add: read_page_block word_unat_eq_iff)
  ultimately show ?thesis using f' by auto
qed

text \<open>A page written to an allocated slot, or to the slot right behind the last one, is read
  back; every other page of the file reads as before.\<close>

lemma read_after_write:
  assumes "wf_page_file f" and "unat (ph_page_id (pg_header p)) \<le> page_count f"
    and "unat (ph_page_id (pg_header p)) < MAX_PAGES" and "length (pg_payload p) \<le> MAX_PAYLOAD"
  shows "\<exists>f'. write_page crc p f = (Ok (), f') \<and> wf_page_file f' \<and>
     read_page crc f' (ph_page_id (pg_header p)) = Ok (page_stored p) \<and>
     (\<forall>j. j \<noteq> ph_page_id (pg_header p) \<and> unat j < page_count f \<longrightarrow>
        read_page crc f' j = read_page crc f j)"
  using write_page_reads [OF assms, of crc] by auto

definition sample_file :: page_file where
  "sample_file = page_file_open (replicate 4096 0)"

lemma sample_file_wf: "wf_page_file sample_file" "page_count sample_file = 1"
  by (simp_all add: sample_file_def page_file_open_def wf_page_file_def page_count_def MAX_PAGES_def)

text \<open>Allocation never hands out a page that is in use: it returns either an id that it removes
  from the free list, or the number of pages in the file, whose slot is behind the last page.  The
  content of the file is unchanged, and the id is usable for the next write.\<close>

lemma allocate_page_fresh:
  assumes "wf_page_file f" and "page_count f < MAX_PAGES"
  shows "\<exists>pid f'. allocate_page f = (Ok pid, f') \<and> wf_page_file f' \<and> pf_file f' = pf_file f \<and>
     pid \<notin> set (pf_free_list f') \<and>
     (if pf_free_list f = [] then unat pid = page_count f else pid \<in> set (pf_free_list f))"
proof (cases "pf_free_list f" rule: rev_exhaust)
  case Nil
  have n: "unat (of_nat (page_count f) :: u64) = page_count f"
    using assms(2) by (simp add: unat_of_nat take_bit_nat_eq_self MAX_PAGES_def)
  with Nil assms show ?thesis by (simp add: allocate_page_def page_count_def)
next
  case (snoc pids pid)
  with assms show ?thesis by (auto simp: allocate_page_def wf_page_file_def page_count_def)
qed

section \<open>The interface of a store of blocks\<close>

text \<open>Nothing in the code base frees a page, so the clients work on files without free ids.\<close>

definition store_inv :: "page_file \<Rightarrow> bool" where
  "store_inv f \<longleftrightarrow> wf_page_file f \<and> pf_free_list f = []"

locale block_store =
  fixes rd :: "'s \<Rightarrow> u64 \<Rightarrow> 'b db_result"
    and wr :: "u64 \<Rightarrow> 'b \<Rightarrow> ('s, unit, db_error) op"
    and alloc :: "('s, u64, db_error) op"
    and count :: "'s \<Rightarrow> nat"
    and inv :: "'s \<Rightarrow> bool"
    and storable :: "'b \<Rightarrow> bool"
  assumes wr_ok: "inv s \<Longrightarrow> storable b \<Longrightarrow> unat i \<le> count s \<Longrightarrow> unat i < MAX_PAGES \<Longrightarrow>
      \<exists>s'. wr i b s = (Ok (), s') \<and> inv s' \<and> count s' = max (count s) (Suc (unat i)) \<and>
        rd s' i = Ok b \<and> (\<forall>j. j \<noteq> i \<longrightarrow> unat j < count s \<longrightarrow> rd s' j = rd s j)"
    and alloc_ok: "inv s \<Longrightarrow> count s < MAX_PAGES \<Longrightarrow>
      alloc s = (Ok (of_nat (count s)), s)"
begin

lemma unat_count: "inv s \<Longrightarrow> count s < MAX_PAGES \<Longrightarrow> unat (of_nat (count s) :: u64) = count s"
  by (simp add: unat_of_nat take_bit_nat_eq_self MAX_PAGES_def)

text \<open>Allocate, then write the new block: the store grows by one and the old blocks stay.\<close>

lemma alloc_then_write:
  assumes "inv s" and "count s < MAX_PAGES" and "storable b"
  shows "\<exists>s'. sbind alloc (\<lambda>i. sbind (wr i b) (\<lambda>_ t. (Ok i, t))) s = (Ok (of_nat (count s)), s') \<and>
     inv s' \<and> count s' = Suc (count s) \<and> rd s' (of_nat (count s)) = Ok b \<and>
     (\<forall>j. unat j < count s \<longrightarrow> rd s' j = rd s j)"
proof -
  let ?i = "of_nat (count s) :: u64"
  have i: "unat ?i = count s" by (rule unat_count [OF assms(1,2)])
  obtain s' where s': "wr ?i b s = (Ok (), s')" "inv s'" "count s' = Suc (count s)"
      "rd s' ?i = Ok b" "\<forall>j. j \<noteq> ?i \<longrightarrow> unat j < count s \<longrightarrow> rd s' j = rd s j"
    using wr_ok [OF assms(1,3), of ?i] i assms(2) by auto
  have "rd s' j = rd s j" if "unat j < count s" for j
    using s'(5) that i by (metis less_irrefl)
  with s' show ?thesis
    by (simp add: sbind_def alloc_ok [OF assms(1,2)])
qed

text \<open>Two writes to different existing blocks do not disturb each other.\<close>

lemma write_two:
  assumes "inv s" "storable a" "storable b" "unat i < count s" "unat j \<le> count s"
    and "count s < MAX_PAGES" and "i \<noteq> j"
  shows "\<exists>s'. sbind (wr i a) (\<lambda>_. wr j b) s = (Ok (), s') \<and> inv s' \<and>
     count s' = max (count s) (Suc (unat j)) \<and> rd s' i = Ok a \<and> rd s' j = Ok b \<and>
     (\<forall>k. k \<noteq> i \<longrightarrow> k \<noteq> j \<longrightarrow> unat k < count s \<longrightarrow> rd s' k = rd s k)"
proof -
  obtain t where t: "wr i a s = (Ok (), t)" "inv t" "count t = count s" "rd t i = Ok a"
      "\<forall>k. k \<noteq> i \<longrightarrow> unat k < count s \<longrightarrow> rd t k = rd s k"
    using wr_ok [OF assms(1,2), of i] assms(4,6) by (auto simp: max_def split: if_splits)
  obtain s' where s': "wr j b t = (Ok (), s')" "inv s'" "count s' = max (count s) (Suc (unat j))"
      "rd s' j = Ok b" "\<forall>k. k \<noteq> j \<longrightarrow> unat k < count s \<longrightarrow> rd s' k = rd t k"
    using wr_ok [OF t(2) assms(3), of j] t(3) assms(5,6) by auto
  then show ?thesis using t assms(4,7) by (auto simp: sbind_def)
qed

end

text \<open>Data pages: the engine writes \<open>Page::new(id, Data)\<close> with a payload and reads payloads.\<close>

definition write_data :: "(bytes \<Rightarrow> u32) \<Rightarrow> u64 \<Rightarrow> bytes \<Rightarrow> (page_file, unit, db_error) op" where
  "write_data crc pid bs = write_page crc ((page_new pid Data)\<lparr>pg_payload := bs\<rparr>)"

definition read_data :: "(bytes \<Rightarrow> u32) \<Rightarrow> page_file \<Rightarrow> u64 \<Rightarrow> bytes db_result" where
  "read_data crc f pid = rbind (read_page crc f pid) (\<lambda>p. Ok (pg_payload p))"

lemma allocate_page_count:
  "store_inv f \<Longrightarrow> allocate_page f = (Ok (of_nat (page_count f)), f)"
  by (simp add: allocate_page_def store_inv_def page_count_def)

lemma write_page_store:
  assumes "store_inv f" and "unat (ph_page_id (pg_header p)) \<le> page_count f"
    and "unat (ph_page_id (pg_header p)) < MAX_PAGES" and "length (pg_payload p) \<le> MAX_PAYLOAD"
  shows "\<exists>f'. write_page crc p f = (Ok (), f') \<and> store_inv f' \<and>
     page_count f' = max (page_count f) (Suc (unat (ph_page_id (pg_header p)))) \<and>
     read_page crc f' (ph_page_id (pg_header p)) = Ok (page_stored p) \<and>
     (\<forall>j. j \<noteq> ph_page_id (pg_header p) \<longrightarrow> unat j < page_count f \<longrightarrow>
        read_page crc f' j = read_page crc f j)"
  using write_page_reads [of f p crc] assms by (auto simp: store_inv_def)

interpretation data_pages: block_store "read_data crc" "write_data crc" allocate_page page_count
  store_inv "\<lambda>bs :: bytes. length bs \<le> MAX_PAYLOAD" for crc
proof
  fix f and bs :: bytes and i :: u64
  assume "store_inv f" "length bs \<le> MAX_PAYLOAD" "unat i \<le> page_count f" "unat i < MAX_PAGES"
  then show "\<exists>f'. write_data crc i bs f = (Ok (), f') \<and> store_inv f' \<and>
      page_count f' = max (page_count f) (Suc (unat i)) \<and> read_data crc f' i = Ok bs \<and>
      (\<forall>j. j \<noteq> i \<longrightarrow> unat j < page_count f \<longrightarrow> read_data crc f' j = read_data crc f j)"
    using write_page_store [of f "(page_new i Data)\<lparr>pg_payload := bs\<rparr>" crc]
    by (auto simp: write_data_def read_data_def page_new_def)
qed (rule allocate_page_count)

end
