(* ===== verification/Btree_Node.thy ===== *)
theory Btree_Node
  imports Codec Page_File
begin

text \<open>
  The B+tree node of \<^verbatim>\<open>sabi-storage/src/btree.rs\<close>: its in-memory form, its encoding in the payload
  of a page, the in-place parent pointer accessors, and the helpers that read and write a node
  through the page file.
\<close>

definition MAX_KEYS :: nat where "MAX_KEYS = 128"

type_synonym key = bytes

record node_header =
  nh_is_leaf :: bool
  nh_key_count :: u16
  nh_parent :: "page_id option"

record leaf_node =
  l_header :: node_header
  l_next :: "page_id option"
  l_keys :: "key list"
  l_values :: "page_id list"

record internal_node =
  i_header :: node_header
  i_keys :: "key list"
  i_children :: "page_id list"

datatype node = NodeLeaf leaf_node | NodeInternal internal_node

section \<open>Encoding\<close>

text \<open>One entry of a node: the key length in 16 bits, the key, and a page id.\<close>

definition put_entry :: "key \<times> page_id \<Rightarrow> bytes" where
  "put_entry e = (case e of (k, v) \<Rightarrow>
     le16 (of_nat (min (length k) 65535)) @ k @ le64 v)"

definition get_entry :: "string \<Rightarrow> (key \<times> page_id) reader" where
  "get_entry what buf c =
     (if c + 2 > length buf then Err (Corruption ''Truncated key length'')
      else
        let key_len = unat (from_le [buf ! c, buf ! (c + 1)] :: u16);
            c = c + 2
        in if c + key_len > length buf then Err (Corruption ''Truncated key'')
           else
             let k = take key_len (drop c buf);
                 c = c + key_len
             in if c + 8 > length buf then Err (Corruption what)
                else Ok ((k, from_le (take 8 (drop c buf))), c + 8))"

definition deserialize_btree :: "page \<Rightarrow> node db_result" where
  "deserialize_btree p =
     (if ph_type (pg_header p) \<noteq> BTreeLeaf \<and> ph_type (pg_header p) \<noteq> BTreeInternal
      then Err (Corruption ''Not a BTree page'')
      else
        let is_leaf = (ph_type (pg_header p) = BTreeLeaf);
            buf = pg_payload p
        in if 2 > length buf then Err (Corruption ''Truncated BTree page'')
           else
             let key_count = from_le [buf ! 0, buf ! 1] :: u16;
                 (parent, c) = get_opt buf 2;
                 header = \<lparr>nh_is_leaf = is_leaf, nh_key_count = key_count, nh_parent = parent\<rparr>
             in if is_leaf then
                  let (nxt, c) = get_opt buf c
                  in rbind (read_many (get_entry ''Truncated value'') (unat key_count) buf c)
                       (\<lambda>(es, c). Ok (NodeLeaf \<lparr>l_header = header, l_next = nxt,
                          l_keys = map fst es, l_values = map snd es\<rparr>))
                else if c + 8 > length buf then Err (Corruption ''Truncated first child'')
                else
                  let first_child = from_le (take 8 (drop c buf));
                      c = c + 8
                  in rbind (read_many (get_entry ''Truncated child'') (unat key_count) buf c)
                       (\<lambda>(es, c). Ok (NodeInternal \<lparr>i_header = header,
                          i_keys = map fst es, i_children = first_child # map snd es\<rparr>)))"

definition serialize_btree :: "page \<Rightarrow> node \<Rightarrow> page db_result" where
  "serialize_btree p n =
     (case n of
        NodeLeaf l \<Rightarrow>
          let buf = le16 (nh_key_count (l_header l)) @ put_opt (nh_parent (l_header l)) @
                    put_opt (l_next l) @ concat (map put_entry (zip (l_keys l) (l_values l)))
          in Ok (p\<lparr>pg_payload := buf,
                   pg_header := (pg_header p)\<lparr>ph_type := BTreeLeaf, ph_payload_len := of_nat (length buf)\<rparr>\<rparr>)
      | NodeInternal i \<Rightarrow>
          rbind (index (i_children i) 0) (\<lambda>first_child.
          let buf = le16 (nh_key_count (i_header i)) @ put_opt (nh_parent (i_header i)) @
                    le64 first_child @ concat (map put_entry (zip (i_keys i) (tl (i_children i))))
          in Ok (p\<lparr>pg_payload := buf,
                   pg_header := (pg_header p)\<lparr>ph_type := BTreeInternal, ph_payload_len := of_nat (length buf)\<rparr>\<rparr>)))"

definition read_parent :: "page \<Rightarrow> page_id option" where
  "read_parent p =
     (if ph_type (pg_header p) \<noteq> BTreeLeaf \<and> ph_type (pg_header p) \<noteq> BTreeInternal then None
      else if length (pg_payload p) < 3 then None
      else if pg_payload p ! 2 \<noteq> 0 \<and> length (pg_payload p) \<ge> 11
      then Some (from_le (take 8 (drop 3 (pg_payload p))))
      else None)"

definition write_parent :: "page \<Rightarrow> page_id \<Rightarrow> page db_result" where
  "write_parent p parent =
     (if ph_type (pg_header p) \<noteq> BTreeLeaf \<and> ph_type (pg_header p) \<noteq> BTreeInternal
      then Err (Internal ''Not a BTree page'')
      else if length (pg_payload p) < 3 then Err (Corruption ''Page too small for parent'')
      else
        let buf = (if length (pg_payload p) < 11
                   then pg_payload p @ replicate (11 - length (pg_payload p)) 0 else pg_payload p);
            buf = buf[2 := 1];
            buf = copy_from_slice buf 3 (le64 parent)
        in Ok (p\<lparr>pg_payload := buf\<rparr>))"

definition read_node :: "(bytes \<Rightarrow> u32) \<Rightarrow> page_file \<Rightarrow> page_id \<Rightarrow> node db_result" where
  "read_node crc f pid = rbind (read_page crc f pid) deserialize_btree"

definition write_node :: "(bytes \<Rightarrow> u32) \<Rightarrow> page_id \<Rightarrow> node \<Rightarrow> (page_file, unit, db_error) op" where
  "write_node crc pid n =
     sbind (lift_result (serialize_btree (page_new pid BTreeLeaf) n)) (write_page crc)"

definition parent_of :: "(bytes \<Rightarrow> u32) \<Rightarrow> page_file \<Rightarrow> page_id \<Rightarrow> page_id option db_result" where
  "parent_of crc f pid = rbind (read_page crc f pid) (\<lambda>p. Ok (read_parent p))"

definition set_parent :: "(bytes \<Rightarrow> u32) \<Rightarrow> page_id \<Rightarrow> page_id \<Rightarrow> (page_file, unit, db_error) op" where
  "set_parent crc pid parent f =
     (sbind (lift_result (read_page crc f pid)) (\<lambda>p.
      sbind (lift_result (write_parent p parent)) (write_page crc))) f"

section \<open>Entries are a cursor codec\<close>

lemma length_put_entry: "length (put_entry (k, v)) = 10 + length k"
  by (simp add: put_entry_def)

lemma from_le_pair: "at_cursor buf c (le16 w) \<Longrightarrow> from_le [buf ! c, buf ! Suc c] = w"
proof -
  assume a: "at_cursor buf c (le16 w)"
  then obtain a b where ab: "le16 w = [a, b]" by (simp add: numeral_2_eq_2)
  with a have "[buf ! c, buf ! Suc c] = le16 w" by (simp add: at_cursor_Cons)
  then show ?thesis by simp
qed

lemma unat_of_nat_u16 [simp]: "n < 65536 \<Longrightarrow> unat (of_nat n :: u16) = n"
  by (simp add: unat_of_nat take_bit_nat_eq_self)

lemma get_put_entry:
  assumes "length (fst e) < 65536" and "at_cursor buf c (put_entry e)"
  shows "get_entry what buf c = Ok (e, c + length (put_entry e))"
proof -
  obtain k v where e: "e = (k, v)" by fastforce
  have n: "length k < 65536" using assms(1) e by simp
  have at: "at_cursor buf c (le16 (of_nat (length k)))" "at_cursor buf (c + 2) k"
      "at_cursor buf (c + 2 + length k) (le64 v)"
    using assms(2) n by (simp_all add: e put_entry_def at_cursor_append min_def)
  have len: "unat (from_le [buf ! c, buf ! Suc c] :: u16) = length k"
    using from_le_pair [OF at(1)] n by simp
  have val: "from_le (take 8 (drop (c + 2 + length k) buf)) = v"
    using from_le_at_cursor [OF at(3)] by simp
  have key: "take (length k) (drop (c + 2) buf) = k" by (rule at_cursor_take [OF at(2)])
  show ?thesis
    using len val key at_cursor_length [OF at(3)] e
    by (simp add: get_entry_def Let_def length_put_entry add.commute add.left_commute)
qed

lemma unat_u16_less: "unat (x :: u16) < 65536"
  using unsigned_less [where ?'a = nat and w = x] by simp

lemma get_entry_advance:
  "get_entry what buf c = Ok (e, c') \<Longrightarrow> c' = c + length (put_entry e) \<and> c' \<le> length buf"
  by (auto simp: get_entry_def Let_def length_put_entry split: if_splits)

interpretation entry: cursor_codec put_entry "get_entry what" "\<lambda>e. length (fst e) < 65536" for what
proof
  show "get_entry what buf c = Ok (e, c + length (put_entry e))"
    if "length (fst e) < 65536" "at_cursor buf c (put_entry e)" for e buf c
    using that by (rule get_put_entry)
  show "c' = c + length (put_entry e) \<and> c' \<le> length buf"
    if "get_entry what buf c = Ok (e, c')" for buf c e c'
    using that by (rule get_entry_advance)
  show "length (fst e) < 65536" if "get_entry what buf c = Ok (e, c')" for buf c e c'
    using that by (auto simp: get_entry_def Let_def unat_u16_less split: if_splits)
  show "\<not> is_panic (get_entry what buf c)" for buf c
    by (simp add: get_entry_def Let_def)
qed

section \<open>Round trip of a node\<close>

definition leaf_bytes :: "leaf_node \<Rightarrow> bytes" where
  "leaf_bytes l = le16 (nh_key_count (l_header l)) @ put_opt (nh_parent (l_header l)) @
     put_opt (l_next l) @ concat (map put_entry (zip (l_keys l) (l_values l)))"

definition internal_bytes :: "internal_node \<Rightarrow> bytes" where
  "internal_bytes i = le16 (nh_key_count (i_header i)) @ put_opt (nh_parent (i_header i)) @
     le64 (hd (i_children i)) @ concat (map put_entry (zip (i_keys i) (tl (i_children i))))"

fun node_bytes :: "node \<Rightarrow> bytes" where
  "node_bytes (NodeLeaf l) = leaf_bytes l"
| "node_bytes (NodeInternal i) = internal_bytes i"

fun node_type :: "node \<Rightarrow> page_type" where
  "node_type (NodeLeaf l) = BTreeLeaf"
| "node_type (NodeInternal i) = BTreeInternal"

text \<open>A node in memory is well-formed when its counters agree with its vectors and every key
  length fits its 16-bit field.\<close>

fun wf_node :: "node \<Rightarrow> bool" where
  "wf_node (NodeLeaf l) \<longleftrightarrow>
     nh_is_leaf (l_header l) \<and> length (l_keys l) < 65536 \<and>
     nh_key_count (l_header l) = of_nat (length (l_keys l)) \<and>
     length (l_values l) = length (l_keys l) \<and> list_all (\<lambda>k. length k < 65536) (l_keys l)"
| "wf_node (NodeInternal i) \<longleftrightarrow>
     \<not> nh_is_leaf (i_header i) \<and> length (i_keys i) < 65536 \<and>
     nh_key_count (i_header i) = of_nat (length (i_keys i)) \<and>
     length (i_children i) = Suc (length (i_keys i)) \<and> list_all (\<lambda>k. length k < 65536) (i_keys i)"

definition storable_node :: "node \<Rightarrow> bool" where
  "storable_node n \<longleftrightarrow> wf_node n \<and> length (node_bytes n) \<le> MAX_PAYLOAD"

lemma serialize_btree_wf:
  "wf_node n \<Longrightarrow> serialize_btree p n = Ok (p\<lparr>pg_payload := node_bytes n,
     pg_header := (pg_header p)\<lparr>ph_type := node_type n, ph_payload_len := of_nat (length (node_bytes n))\<rparr>\<rparr>)"
proof (cases n)
  case (NodeLeaf l)
  then show ?thesis by (simp add: serialize_btree_def leaf_bytes_def Let_def)
next
  case (NodeInternal i)
  assume "wf_node n"
  with NodeInternal obtain c cs where "i_children i = c # cs" by (cases "i_children i") auto
  with NodeInternal show ?thesis by (simp add: serialize_btree_def internal_bytes_def Let_def)
qed

lemma entries_ok:
  "list_all (\<lambda>k. length k < 65536) ks \<Longrightarrow> \<forall>e \<in> set (zip ks vs). length (fst e) < 65536"
  by (auto simp: list_all_iff dest: set_zip_leftD)

lemma deserialize_node_bytes:
  assumes "wf_node n" and "ph_type (pg_header p) = node_type n" and "pg_payload p = node_bytes n @ rest"
  shows "deserialize_btree p = Ok n"
proof (cases n)
  case (NodeLeaf l)
  let ?es = "zip (l_keys l) (l_values l)"
  let ?c = "2 + length (put_opt (nh_parent (l_header l)))"
  have at: "at_cursor (pg_payload p) 0 (leaf_bytes l)" using assms(3) NodeLeaf by simp
  then have at': "at_cursor (pg_payload p) 0 (le16 (nh_key_count (l_header l)))"
      "at_cursor (pg_payload p) 2 (put_opt (nh_parent (l_header l)))"
      "at_cursor (pg_payload p) ?c (put_opt (l_next l))"
      "at_cursor (pg_payload p) (?c + length (put_opt (l_next l))) (concat (map put_entry ?es))"
    unfolding leaf_bytes_def at_cursor_append length_le_bytes add_0 by blast+
  have es: "\<forall>e \<in> set ?es. length (fst e) < 65536" using assms(1) NodeLeaf by (intro entries_ok) simp
  have n: "unat (nh_key_count (l_header l)) = length ?es" using assms(1) NodeLeaf by simp
  have "2 \<le> length (pg_payload p)" using at_cursor_length [OF at'(1)] by simp
  then show ?thesis
    using assms(1,2) NodeLeaf from_le_pair [OF at'(1)] get_put_opt [OF at'(2)] get_put_opt [OF at'(3)]
      entry.read_many_put [OF es at'(4), of "''Truncated value''"] n
    by (simp add: deserialize_btree_def Let_def del: length_put_opt)
next
  case (NodeInternal i)
  let ?es = "zip (i_keys i) (tl (i_children i))"
  let ?c = "2 + length (put_opt (nh_parent (i_header i)))"
  have at: "at_cursor (pg_payload p) 0 (internal_bytes i)" using assms(3) NodeInternal by simp
  then have at': "at_cursor (pg_payload p) 0 (le16 (nh_key_count (i_header i)))"
      "at_cursor (pg_payload p) 2 (put_opt (nh_parent (i_header i)))"
      "at_cursor (pg_payload p) ?c (le64 (hd (i_children i)))"
      "at_cursor (pg_payload p) (?c + 8) (concat (map put_entry ?es))"
    unfolding internal_bytes_def at_cursor_append length_le_bytes add_0 by blast+
  have es: "\<forall>e \<in> set ?es. length (fst e) < 65536" using assms(1) NodeInternal by (intro entries_ok) simp
  have n: "unat (nh_key_count (i_header i)) = length ?es" using assms(1) NodeInternal by simp
  have hd: "hd (i_children i) # tl (i_children i) = i_children i"
    using assms(1) NodeInternal by (cases "i_children i") auto
  have "2 \<le> length (pg_payload p)" using at_cursor_length [OF at'(1)] by simp
  then show ?thesis
    using assms(1,2) NodeInternal from_le_pair [OF at'(1)] get_put_opt [OF at'(2)]
      from_le_at_cursor [OF at'(3)] at_cursor_length [OF at'(3)] hd
      entry.read_many_put [OF es at'(4), of "''Truncated child''"] n
    by (simp add: deserialize_btree_def Let_def del: length_put_opt)
qed

text \<open>C31. Every well-formed node survives its encoding: the page written for it decodes to the same
  node, whatever page it is written over.\<close>

theorem node_roundtrip:
  assumes "wf_node n"
  shows "\<exists>p'. serialize_btree p n = Ok p' \<and> deserialize_btree p' = Ok n"
  using serialize_btree_wf [OF assms, of p] deserialize_node_bytes [OF assms, where rest = "[]"]
  by simp

definition sample_leaf :: leaf_node where
  "sample_leaf = \<lparr>l_header = \<lparr>nh_is_leaf = True, nh_key_count = 2, nh_parent = None\<rparr>,
     l_next = Some 9, l_keys = [[1], [2, 3]], l_values = [40, 41]\<rparr>"

theorem node_roundtrip_witness:
  "\<exists>p'. serialize_btree (page_new 5 BTreeLeaf) (NodeLeaf sample_leaf) = Ok p' \<and>
     deserialize_btree p' = Ok (NodeLeaf sample_leaf)"
  by (rule node_roundtrip) (simp add: sample_leaf_def)

section \<open>Decoding arbitrary pages\<close>

lemma deserialize_btree_cases:
  assumes "deserialize_btree p = Ok n"
  obtains (leaf) kc par c nxt c' es c'' where
      "ph_type (pg_header p) = BTreeLeaf" "2 \<le> length (pg_payload p)"
      "get_opt (pg_payload p) 2 = (par, c)" "get_opt (pg_payload p) c = (nxt, c')"
      "read_many (get_entry ''Truncated value'') (unat (kc :: u16)) (pg_payload p) c' = Ok (es, c'')"
      "n = NodeLeaf \<lparr>l_header = \<lparr>nh_is_leaf = True, nh_key_count = kc, nh_parent = par\<rparr>,
         l_next = nxt, l_keys = map fst es, l_values = map snd es\<rparr>"
    | (internal) kc par c child es c'' where
      "ph_type (pg_header p) = BTreeInternal" "2 \<le> length (pg_payload p)"
      "get_opt (pg_payload p) 2 = (par, c)" "c + 8 \<le> length (pg_payload p)"
      "read_many (get_entry ''Truncated child'') (unat (kc :: u16)) (pg_payload p) (c + 8) = Ok (es, c'')"
      "n = NodeInternal \<lparr>i_header = \<lparr>nh_is_leaf = False, nh_key_count = kc, nh_parent = par\<rparr>,
         i_keys = map fst es, i_children = child # map snd es\<rparr>"
proof -
  obtain par c where pc: "get_opt (pg_payload p) 2 = (par, c)" by fastforce
  obtain nxt c' where nc: "get_opt (pg_payload p) c = (nxt, c')" by fastforce
  show thesis
  proof (cases "ph_type (pg_header p) = BTreeLeaf")
    case True
    with assms pc nc show ?thesis
      by (auto simp: deserialize_btree_def Let_def rbind_Ok_iff split: if_splits intro!: leaf)
  next
    case False
    with assms pc show ?thesis
      by (auto simp: deserialize_btree_def Let_def rbind_Ok_iff split: if_splits intro!: internal)
  qed
qed

text \<open>Decoding is safe on arbitrary bytes: whatever the payload of a page is, reading it as a
  B+tree node ends with a node or with an error, never with an out-of-range access.\<close>

lemma deserialize_btree_no_panic: "\<not> is_panic (deserialize_btree p)"
  by (auto simp: deserialize_btree_def Let_def is_panic_rbind entry.read_many_no_panic
      split: prod.splits)

lemma deserialize_btree_wf_node: "deserialize_btree p = Ok n \<Longrightarrow> wf_node n"
proof (erule deserialize_btree_cases)
  fix kc par c nxt c' es c''
  assume es: "read_many (get_entry ''Truncated value'') (unat (kc :: u16)) (pg_payload p) c' = Ok (es, c'')"
    and n: "n = NodeLeaf \<lparr>l_header = \<lparr>nh_is_leaf = True, nh_key_count = kc, nh_parent = par\<rparr>,
         l_next = nxt, l_keys = map fst es, l_values = map snd es\<rparr>"
  show "wf_node n"
    using n read_many_length [OF es] entry.read_many_ok [OF es] unat_u16_less [of kc]
    by (auto simp: list_all_iff)
next
  fix kc par c child es c''
  assume es: "read_many (get_entry ''Truncated child'') (unat (kc :: u16)) (pg_payload p) (c + 8) = Ok (es, c'')"
    and n: "n = NodeInternal \<lparr>i_header = \<lparr>nh_is_leaf = False, nh_key_count = kc, nh_parent = par\<rparr>,
         i_keys = map fst es, i_children = child # map snd es\<rparr>"
  show "wf_node n"
    using n read_many_length [OF es] entry.read_many_ok [OF es] unat_u16_less [of kc]
    by (auto simp: list_all_iff)
qed

text \<open>What is read is consistent: a node read through the page file always has as many keys as
  its counter says, one value per key in a leaf and one child more than keys in an internal node,
  so the descent of the tree never indexes out of range.\<close>

lemma read_node_consistent:
  assumes "read_node crc f pid = Ok n"
  shows "wf_node n"
  using assms deserialize_btree_wf_node by (auto simp: read_node_def rbind_Ok_iff)

lemma get_opt_step: "get_opt buf c = (p, c') \<Longrightarrow> c' = c + length (put_opt p) \<and> (c < length buf \<longrightarrow> c' \<le> length buf)"
  by (auto simp: get_opt_def split: if_splits)

text \<open>A node decoded from a page occupies at least its own size in the payload.\<close>

lemma deserialize_btree_size:
  assumes "deserialize_btree p = Ok n" and "\<And>l. n = NodeLeaf l \<Longrightarrow> l_keys l \<noteq> []"
  shows "length (node_bytes n) \<le> length (pg_payload p)"
  using assms(1)
proof (cases rule: deserialize_btree_cases)
  case (leaf kc par c nxt c' es c'')
  then have "es \<noteq> []" using assms(2) by auto
  then obtain m where m: "unat kc = Suc m" using read_many_length [OF leaf(5)] by (cases "unat kc") auto
  have "c' \<le> length (pg_payload p)"
    using leaf(5) m by (auto simp: rbind_Ok_iff get_entry_def Let_def split: if_splits)
  with entry.read_many_advance [OF leaf(5)]
  have "c' + length (concat (map put_entry es)) \<le> length (pg_payload p)" by auto
  with get_opt_step [OF leaf(3)] get_opt_step [OF leaf(4)] show ?thesis
    by (simp add: leaf(6) leaf_bytes_def zip_map_fst_snd)
next
  case (internal kc par c child es c'')
  from entry.read_many_advance [OF internal(5)] internal(4)
  have "c + 8 + length (concat (map put_entry es)) \<le> length (pg_payload p)" by auto
  with get_opt_step [OF internal(3)] show ?thesis
    by (simp add: internal(6) internal_bytes_def zip_map_fst_snd)
qed

section \<open>Nodes are stored in blocks\<close>

text \<open>The effect of writing a node, on the level of pages.\<close>

lemma write_node_page:
  assumes "store_inv f" and "storable_node n" and "unat i \<le> page_count f" and "unat i < MAX_PAGES"
  shows "\<exists>f' p. write_node crc i n f = (Ok (), f') \<and> store_inv f' \<and>
     page_count f' = max (page_count f) (Suc (unat i)) \<and> read_page crc f' i = Ok p \<and>
     ph_page_id (pg_header p) = i \<and> ph_type (pg_header p) = node_type n \<and> pg_payload p = node_bytes n \<and>
     (\<forall>j. j \<noteq> i \<longrightarrow> unat j < page_count f \<longrightarrow> read_page crc f' j = read_page crc f j)"
proof -
  define p where "p = (page_new i BTreeLeaf)\<lparr>pg_payload := node_bytes n, pg_header :=
    (pg_header (page_new i BTreeLeaf))\<lparr>ph_type := node_type n, ph_payload_len := of_nat (length (node_bytes n))\<rparr>\<rparr>"
  have ser: "serialize_btree (page_new i BTreeLeaf) n = Ok p"
    using assms(2) serialize_btree_wf by (simp add: storable_node_def p_def)
  have p: "ph_page_id (pg_header p) = i" "pg_payload p = node_bytes n" "ph_type (pg_header p) = node_type n"
    by (simp_all add: p_def page_new_def)
  have "length (pg_payload p) \<le> MAX_PAYLOAD" using assms(2) p by (simp add: storable_node_def)
  with assms p show ?thesis
    using write_page_store [of f p crc] by (auto simp: write_node_def ser)
qed

lemma read_node_page:
  assumes "read_page crc f i = Ok p" and "wf_node n" and "ph_type (pg_header p) = node_type n"
    and "pg_payload p = node_bytes n"
  shows "read_node crc f i = Ok n"
  using assms deserialize_node_bytes [of n p "[]"] by (simp add: read_node_def)

interpretation node_pages: block_store "read_node crc" "write_node crc" allocate_page page_count
  store_inv storable_node for crc
proof
  fix f n and i :: u64
  assume h: "store_inv f" "storable_node n" "unat i \<le> page_count f" "unat i < MAX_PAGES"
  obtain f' p where f': "write_node crc i n f = (Ok (), f')" "store_inv f'"
      "page_count f' = max (page_count f) (Suc (unat i))" "read_page crc f' i = Ok p"
      "ph_type (pg_header p) = node_type n" "pg_payload p = node_bytes n"
      "\<forall>j. j \<noteq> i \<longrightarrow> unat j < page_count f \<longrightarrow> read_page crc f' j = read_page crc f j"
    using write_node_page [OF h, of crc] by blast
  then have "read_node crc f' i = Ok n" using h(2) by (intro read_node_page) (auto simp: storable_node_def)
  with f' show "\<exists>f'. write_node crc i n f = (Ok (), f') \<and> store_inv f' \<and>
      page_count f' = max (page_count f) (Suc (unat i)) \<and> read_node crc f' i = Ok n \<and>
      (\<forall>j. j \<noteq> i \<longrightarrow> unat j < page_count f \<longrightarrow> read_node crc f' j = read_node crc f j)"
    by (auto simp: read_node_def)
qed (rule allocate_page_count)

theorem read_node_consistent_witness:
  "\<exists>f'. write_node (\<lambda>_. 0) 1 (NodeLeaf sample_leaf) sample_file = (Ok (), f') \<and>
     read_node (\<lambda>_. 0) f' 1 = Ok (NodeLeaf sample_leaf) \<and> wf_node (NodeLeaf sample_leaf)"
proof -
  have st: "storable_node (NodeLeaf sample_leaf)"
    by (simp add: storable_node_def sample_leaf_def leaf_bytes_def put_entry_def)
  have inv: "store_inv sample_file"
    using sample_file_wf by (simp add: store_inv_def sample_file_def page_file_open_def)
  obtain f' where f': "write_node (\<lambda>_. 0) 1 (NodeLeaf sample_leaf) sample_file = (Ok (), f')"
      "read_node (\<lambda>_. 0) f' 1 = Ok (NodeLeaf sample_leaf)"
    using node_pages.wr_ok [OF inv st, of 1 "\<lambda>_. 0"] sample_file_wf(2) by (auto simp: MAX_PAGES_def)
  from read_node_consistent [OF f'(2)] f' show ?thesis by blast
qed

section \<open>Parent pointers updated in place\<close>

fun node_parent :: "node \<Rightarrow> page_id option" where
  "node_parent (NodeLeaf l) = nh_parent (l_header l)"
| "node_parent (NodeInternal i) = nh_parent (i_header i)"

fun with_parent :: "page_id option \<Rightarrow> node \<Rightarrow> node" where
  "with_parent q (NodeLeaf l) = NodeLeaf (l\<lparr>l_header := (l_header l)\<lparr>nh_parent := q\<rparr>\<rparr>)"
| "with_parent q (NodeInternal i) = NodeInternal (i\<lparr>i_header := (i_header i)\<lparr>nh_parent := q\<rparr>\<rparr>)"

fun node_keys :: "node \<Rightarrow> key list" where
  "node_keys (NodeLeaf l) = l_keys l"
| "node_keys (NodeInternal i) = i_keys i"

fun node_key_count :: "node \<Rightarrow> u16" where
  "node_key_count (NodeLeaf l) = nh_key_count (l_header l)"
| "node_key_count (NodeInternal i) = nh_key_count (i_header i)"

fun node_body :: "node \<Rightarrow> bytes" where
  "node_body (NodeLeaf l) = put_opt (l_next l) @ concat (map put_entry (zip (l_keys l) (l_values l)))"
| "node_body (NodeInternal i) =
     le64 (hd (i_children i)) @ concat (map put_entry (zip (i_keys i) (tl (i_children i))))"

lemma node_bytes_parts: "node_bytes n = le16 (node_key_count n) @ put_opt (node_parent n) @ node_body n"
  by (cases n) (simp_all add: leaf_bytes_def internal_bytes_def)

lemma with_parent_simps [simp]:
  "node_parent (with_parent q n) = q" "node_body (with_parent q n) = node_body n"
  "node_key_count (with_parent q n) = node_key_count n" "node_type (with_parent q n) = node_type n"
  "wf_node (with_parent q n) = wf_node n" "node_keys (with_parent q n) = node_keys n"
  by (cases n; simp)+

lemma node_type_btree: "node_type n = BTreeLeaf \<or> node_type n = BTreeInternal"
  by (cases n) simp_all

lemma read_parent_node:
  assumes "ph_type (pg_header p) = node_type n" and "pg_payload p = node_bytes n"
  shows "read_parent p = node_parent n"
proof -
  obtain a b where ab: "le16 (node_key_count n) = [a, b]" by (simp add: numeral_2_eq_2)
  show ?thesis
  proof (cases "node_parent n")
    case None
    then show ?thesis
      using assms node_type_btree [of n] ab by (auto simp: read_parent_def node_bytes_parts put_opt_def)
  next
    case (Some q)
    then have "pg_payload p = [a, b, 1] @ le64 q @ node_body n"
      using assms ab by (simp add: node_bytes_parts put_opt_def)
    then show ?thesis
      using assms(1) node_type_btree [of n] Some
      by (auto simp: read_parent_def)
  qed
qed

lemma write_parent_bytes:
  assumes "ph_type (pg_header p) \<in> {BTreeLeaf, BTreeInternal}"
    and "pg_payload p = a @ m # x @ rest" and "length a = 2" and "length x = 8"
  shows "write_parent p q = Ok (p\<lparr>pg_payload := a @ (1 # le64 q) @ rest\<rparr>)"
proof -
  have "(a @ m # x @ rest)[2 := 1] = a @ 1 # x @ rest"
    using assms(3) by (simp add: list_update_append)
  moreover have "copy_from_slice (a @ 1 # x @ rest) 3 (le64 q) = a @ (1 # le64 q) @ rest"
    using assms(3,4) by (simp add: copy_from_slice_def)
  ultimately show ?thesis using assms by (auto simp: write_parent_def Let_def)
qed

text \<open>Re-parenting a node that already has a parent pointer is right: only the pointer
  changes, the keys, values, children and the leaf chain are kept.\<close>

lemma write_parent_present:
  assumes "wf_node n" and "node_parent n = Some q0"
    and "ph_type (pg_header p) = node_type n" and "pg_payload p = node_bytes n"
  shows "\<exists>p'. write_parent p q = Ok p' \<and> deserialize_btree p' = Ok (with_parent (Some q) n)"
proof -
  have "pg_payload p = le16 (node_key_count n) @ 1 # le64 q0 @ node_body n"
    using assms(2,4) by (simp add: node_bytes_parts put_opt_def)
  from write_parent_bytes [OF _ this] node_type_btree [of n] assms(3)
  have w: "write_parent p q =
      Ok (p\<lparr>pg_payload := le16 (node_key_count n) @ (1 # le64 q) @ node_body n\<rparr>)" (is "_ = Ok ?p'")
    by auto
  have "pg_payload ?p' = node_bytes (with_parent (Some q) n) @ []"
    by (simp add: node_bytes_parts put_opt_def)
  then have "deserialize_btree ?p' = Ok (with_parent (Some q) n)"
    using assms(1,3) by (intro deserialize_node_bytes) simp_all
  with w show ?thesis by simp
qed

theorem write_parent_present_witness:
  "let n = with_parent (Some 4) (NodeLeaf sample_leaf);
       p = (page_new 5 BTreeLeaf)\<lparr>pg_payload := node_bytes n\<rparr>
   in \<exists>p'. write_parent p 6 = Ok p' \<and> deserialize_btree p' = Ok (with_parent (Some 6) n)"
  using write_parent_present [of "with_parent (Some 4) (NodeLeaf sample_leaf)" 4
      "(page_new 5 BTreeLeaf)\<lparr>pg_payload := node_bytes (with_parent (Some 4) (NodeLeaf sample_leaf))\<rparr>" 6]
  by (simp add: Let_def sample_leaf_def page_new_def)

lemma length_body: "node_keys n \<noteq> [] \<Longrightarrow> wf_node n \<Longrightarrow> 8 \<le> length (node_body n)"
proof (cases n)
  case (NodeLeaf l)
  assume "node_keys n \<noteq> []" "wf_node n"
  with NodeLeaf obtain k ks v vs where "l_keys l = k # ks" "l_values l = v # vs"
    by (cases "l_keys l"; cases "l_values l") auto
  with NodeLeaf show ?thesis by (simp add: length_put_entry)
qed simp

lemma write_parent_absent:
  assumes "node_parent n = None" and "ph_type (pg_header p) = node_type n"
    and "pg_payload p = node_bytes n" and "8 \<le> length (node_body n)"
  shows "write_parent p q = Ok (p\<lparr>pg_payload :=
     le16 (node_key_count n) @ (1 # le64 q) @ drop 8 (node_body n)\<rparr>)"
proof -
  have "pg_payload p = le16 (node_key_count n) @ 0 # take 8 (node_body n) @ drop 8 (node_body n)"
    using assms(1,3) by (simp add: node_bytes_parts put_opt_def)
  from write_parent_bytes [OF _ this] node_type_btree [of n] assms(2,4) show ?thesis by auto
qed

text \<open>Re-parenting a node without a parent pointer damages it.  The encoding stores an absent
  parent in one byte, but the in-place update writes eight bytes behind the marker, over the body
  of the node.  No node that holds at least one key and has no parent reads back as itself with
  the new parent.\<close>

lemma write_parent_absent_damages:
  assumes "wf_node n" and "node_parent n = None" and "node_keys n \<noteq> []"
    and "ph_type (pg_header p) = node_type n" and "pg_payload p = node_bytes n"
  shows "\<exists>p'. write_parent p q = Ok p' \<and> deserialize_btree p' \<noteq> Ok (with_parent (Some q) n)"
proof -
  have body: "8 \<le> length (node_body n)" using assms(1,3) by (rule length_body [rotated])
  let ?p' = "p\<lparr>pg_payload := le16 (node_key_count n) @ (1 # le64 q) @ drop 8 (node_body n)\<rparr>"
  have "deserialize_btree ?p' \<noteq> Ok (with_parent (Some q) n)"
  proof
    assume d: "deserialize_btree ?p' = Ok (with_parent (Some q) n)"
    have "length (node_bytes (with_parent (Some q) n)) \<le> length (pg_payload ?p')"
      by (rule deserialize_btree_size [OF d]) (use assms(3) in \<open>cases n; auto\<close>)
    then show False using body by (simp add: node_bytes_parts)
  qed
  with write_parent_absent [OF assms(2,4,5) body] show ?thesis by blast
qed

text \<open>The damage to a leaf whose successor id is below \<open>2 ^ 56\<close>, as every allocated id is: its link
  to the next leaf is lost, its entries survive.\<close>

lemma le_bytes_append: "le_bytes (m + n) w = le_bytes m w @ le_bytes n (drop_bit (8 * m) w)"
proof (induction m arbitrary: w)
  case 0
  then show ?case by simp
next
  case (Suc m)
  then show ?case by (simp add: drop_bit_drop_bit add.commute)
qed

lemma write_parent_loses_next:
  assumes "wf_node (NodeLeaf l)" and "nh_parent (l_header l) = None" and "l_next l = Some nx"
    and "unat nx < 2 ^ 56"
    and "ph_type (pg_header p) = BTreeLeaf" and "pg_payload p = leaf_bytes l"
  shows "\<exists>p'. write_parent p q = Ok p' \<and> pg_header p' = pg_header p \<and>
     pg_payload p' = leaf_bytes (l\<lparr>l_header := (l_header l)\<lparr>nh_parent := Some q\<rparr>, l_next := None\<rparr>)"
proof -
  have "drop_bit 56 nx = 0"
    using assms(4) by (simp add: word_unat_eq_iff unat_div_distrib drop_bit_eq_div)
  then have top: "le64 nx = le_bytes 7 nx @ [0]"
    using le_bytes_append [of 7 1 nx] by simp
  have "drop 8 (node_body (NodeLeaf l)) = 0 # concat (map put_entry (zip (l_keys l) (l_values l)))"
    using assms(3) top by (simp add: put_opt_def)
  moreover have "8 \<le> length (node_body (NodeLeaf l))" using assms(3) by simp
  ultimately show ?thesis
    using write_parent_absent [of "NodeLeaf l" p q] assms(2,5,6)
    by (simp add: leaf_bytes_def put_opt_def)
qed

end
