(* ===== verification/Btree.thy ===== *)
theory Btree
  imports Btree_Node Wal
begin

text \<open>
  The operations of the B+tree of \<^verbatim>\<open>sabi-storage/src/btree.rs\<close> on the page file and the log.

  The loops follow page ids stored in the file, so they may run forever on a damaged file; they
  are \<open>partial_function (option)\<close> definitions, where \<open>None\<close> means that the loop does not end.
  \<^verbatim>\<open>insert_into_parent\<close> and \<^verbatim>\<open>split_internal\<close> call each other in tail position; the model is the
  loop over \<open>insert_parent_step\<close>, whose result is the pending insertion, if any.
\<close>

definition BTREE_TABLE_ID :: u32 where "BTREE_TABLE_ID = 1"

record btree =
  bt_root :: page_id
  bt_pages :: page_file
  bt_wal :: wal_file

text \<open>Operations of the page file and of the log, run inside a tree.\<close>

definition on_pages :: "(page_file, 'a, db_error) op \<Rightarrow> (btree, 'a, db_error) op" where
  "on_pages m b = (case m (bt_pages b) of (r, f) \<Rightarrow> (r, b\<lparr>bt_pages := f\<rparr>))"

definition on_wal :: "(wal_file, 'a, db_error) op \<Rightarrow> (btree, 'a, db_error) op" where
  "on_wal m b = (case m (bt_wal b) of (r, w) \<Rightarrow> (r, b\<lparr>bt_wal := w\<rparr>))"

definition log_btree_insert :: "'u ext_lib \<Rightarrow> key \<Rightarrow> page_id \<Rightarrow> 'u tx_id \<Rightarrow> (wal_file, unit, db_error) op" where
  "log_btree_insert L k v tx = wal_append L (WalPut tx BTREE_TABLE_ID k (le64 v))"

definition log_btree_delete :: "'u ext_lib \<Rightarrow> key \<Rightarrow> 'u tx_id \<Rightarrow> (wal_file, unit, db_error) op" where
  "log_btree_delete L k tx = wal_append L (WalDelete tx BTREE_TABLE_ID k)"

definition find_child :: "key list \<Rightarrow> key \<Rightarrow> nat" where
  "find_child ks k = (case position (\<lambda>k'. k < k') ks of Some i \<Rightarrow> i | None \<Rightarrow> length ks)"

definition insert_sorted :: "key list \<Rightarrow> page_id list \<Rightarrow> key \<Rightarrow> page_id \<Rightarrow> (key list \<times> page_id list) db_result" where
  "insert_sorted ks vs k v =
     (let pos = find_child ks k in
      rbind (vec_insert ks pos k) (\<lambda>ks'.
      rbind (vec_insert vs pos v) (\<lambda>vs'. Ok (ks', vs'))))"

definition empty_leaf :: leaf_node where
  "empty_leaf = \<lparr>l_header = \<lparr>nh_is_leaf = True, nh_key_count = 0, nh_parent = None\<rparr>,
     l_next = None, l_keys = [], l_values = []\<rparr>"

definition btree_new :: "(bytes \<Rightarrow> u32) \<Rightarrow> page_file \<Rightarrow> wal_file \<Rightarrow> btree db_result" where
  "btree_new crc pages wal =
     (case sbind allocate_page (\<lambda>root.
             sbind (write_node crc root (NodeLeaf empty_leaf)) (\<lambda>_ f. (Ok root, f))) pages of
        (Ok root, f) \<Rightarrow> Ok \<lparr>bt_root = root, bt_pages = f, bt_wal = wal\<rparr>
      | (Err e, _) \<Rightarrow> Err e
      | (Panic p, _) \<Rightarrow> Panic p)"

section \<open>Searching\<close>

definition leaf_lookup :: "leaf_node \<Rightarrow> key \<Rightarrow> page_id option db_result" where
  "leaf_lookup l k =
     (case position (\<lambda>k'. k' = k) (l_keys l) of
        Some i \<Rightarrow> rbind (index (l_values l) i) (\<lambda>v. Ok (Some v))
      | None \<Rightarrow> Ok None)"

partial_function (option) get_loop ::
  "(bytes \<Rightarrow> u32) \<Rightarrow> page_file \<Rightarrow> key \<Rightarrow> page_id \<Rightarrow> page_id option db_result option" where
  "get_loop crc f k current =
     (case read_node crc f current of
        Err e \<Rightarrow> Some (Err e)
      | Panic p \<Rightarrow> Some (Panic p)
      | Ok (NodeLeaf l) \<Rightarrow> Some (leaf_lookup l k)
      | Ok (NodeInternal i) \<Rightarrow>
          (case index (i_children i) (find_child (i_keys i) k) of
             Err e \<Rightarrow> Some (Err e)
           | Panic p \<Rightarrow> Some (Panic p)
           | Ok child \<Rightarrow> get_loop crc f k child))"

definition btree_get :: "(bytes \<Rightarrow> u32) \<Rightarrow> btree \<Rightarrow> key \<Rightarrow> page_id option db_result option" where
  "btree_get crc b k = get_loop crc (bt_pages b) k (bt_root b)"

partial_function (option) find_leaf_loop ::
  "(bytes \<Rightarrow> u32) \<Rightarrow> page_file \<Rightarrow> key \<Rightarrow> page_id \<Rightarrow> page_id db_result option" where
  "find_leaf_loop crc f k current =
     (case read_node crc f current of
        Err e \<Rightarrow> Some (Err e)
      | Panic p \<Rightarrow> Some (Panic p)
      | Ok (NodeLeaf l) \<Rightarrow> Some (Ok current)
      | Ok (NodeInternal i) \<Rightarrow>
          (case index (i_children i) (find_child (i_keys i) k) of
             Err e \<Rightarrow> Some (Err e)
           | Panic p \<Rightarrow> Some (Panic p)
           | Ok child \<Rightarrow> find_leaf_loop crc f k child))"

definition find_leaf :: "(bytes \<Rightarrow> u32) \<Rightarrow> btree \<Rightarrow> key \<Rightarrow> page_id db_result option" where
  "find_leaf crc b k = find_leaf_loop crc (bt_pages b) k (bt_root b)"

definition in_range :: "key \<Rightarrow> key \<Rightarrow> key \<times> page_id \<Rightarrow> bool" where
  "in_range lo hi e \<longleftrightarrow> fst e \<ge> lo \<and> fst e \<le> hi"

partial_function (option) range_loop ::
  "(bytes \<Rightarrow> u32) \<Rightarrow> page_file \<Rightarrow> key \<Rightarrow> key \<Rightarrow> page_id \<Rightarrow> (key \<times> page_id) list \<Rightarrow>
   (key \<times> page_id) list db_result option" where
  "range_loop crc f lo hi current out =
     (case read_node crc f current of
        Err e \<Rightarrow> Some (Err e)
      | Panic p \<Rightarrow> Some (Panic p)
      | Ok (NodeInternal i) \<Rightarrow> Some (Panic ''internal error: entered unreachable code'')
      | Ok (NodeLeaf l) \<Rightarrow>
          (case l_next l of
             Some nxt \<Rightarrow>
               range_loop crc f lo hi nxt (out @ filter (in_range lo hi) (zip (l_keys l) (l_values l)))
           | None \<Rightarrow> Some (Ok (out @ filter (in_range lo hi) (zip (l_keys l) (l_values l))))))"

definition btree_range :: "(bytes \<Rightarrow> u32) \<Rightarrow> btree \<Rightarrow> key \<Rightarrow> key \<Rightarrow> (key \<times> page_id) list db_result option" where
  "btree_range crc b lo hi =
     (case find_leaf crc b lo of
        None \<Rightarrow> None
      | Some (Err e) \<Rightarrow> Some (Err e)
      | Some (Panic p) \<Rightarrow> Some (Panic p)
      | Some (Ok current) \<Rightarrow> range_loop crc (bt_pages b) lo hi current [])"

section \<open>Inserting\<close>

definition new_root :: "(bytes \<Rightarrow> u32) \<Rightarrow> page_id \<Rightarrow> key \<Rightarrow> page_id \<Rightarrow> (btree, unit, db_error) op" where
  "new_root crc left k right =
     sbind (on_pages allocate_page) (\<lambda>root_id.
     let root = \<lparr>i_header = \<lparr>nh_is_leaf = False, nh_key_count = 1, nh_parent = None\<rparr>,
                 i_keys = [k], i_children = [left, right]\<rparr> in
     sbind (on_pages (set_parent crc left root_id)) (\<lambda>_.
     sbind (on_pages (set_parent crc right root_id)) (\<lambda>_.
     sbind (on_pages (write_node crc root_id (NodeInternal root))) (\<lambda>_ b.
       (Ok (), b\<lparr>bt_root := root_id\<rparr>)))))"

text \<open>A pending call of \<^verbatim>\<open>insert_into_parent(left, key, right)\<close>.\<close>

type_synonym pending = "page_id \<times> key \<times> page_id"

definition split_internal :: "(bytes \<Rightarrow> u32) \<Rightarrow> page_id \<Rightarrow> internal_node \<Rightarrow> (btree, pending, db_error) op" where
  "split_internal crc node_id node =
     (let mid = length (i_keys node) div 2 in
      sbind (lift_result (index (i_keys node) mid)) (\<lambda>promote.
      sbind (on_pages allocate_page) (\<lambda>right_id.
      sbind (lift_result (sub_slice (i_keys node) (mid + 1) (length (i_keys node)))) (\<lambda>right_keys.
      sbind (lift_result (sub_slice (i_children node) (mid + 1) (length (i_children node)))) (\<lambda>right_children.
      let right = \<lparr>i_header = \<lparr>nh_is_leaf = False,
                     nh_key_count = of_nat (length (i_keys node) - mid - 1),
                     nh_parent = nh_parent (i_header node)\<rparr>,
                   i_keys = right_keys, i_children = right_children\<rparr>;
          left = node\<lparr>i_keys := take mid (i_keys node), i_children := take (mid + 1) (i_children node),
                      i_header := (i_header node)\<lparr>nh_key_count := of_nat mid\<rparr>\<rparr> in
      sbind (on_pages (write_node crc node_id (NodeInternal left))) (\<lambda>_.
      sbind (on_pages (write_node crc right_id (NodeInternal right))) (\<lambda>_.
      lift_result (Ok (node_id, promote, right_id)))))))))"

definition insert_parent_step ::
  "(bytes \<Rightarrow> u32) \<Rightarrow> page_id \<Rightarrow> key \<Rightarrow> page_id \<Rightarrow> (btree, pending option, db_error) op" where
  "insert_parent_step crc left k right b =
     sbind (lift_result (parent_of crc (bt_pages b) left)) (\<lambda>parent.
     case parent of
       None \<Rightarrow> sbind (new_root crc left k right) (\<lambda>_. lift_result (Ok None))
     | Some parent_id \<Rightarrow>
         sbind (lift_result (read_node crc (bt_pages b) parent_id)) (\<lambda>n.
         case n of
           NodeLeaf _ \<Rightarrow> lift_result (Panic ''internal error: entered unreachable code'')
         | NodeInternal parent \<Rightarrow>
             let pos = find_child (i_keys parent) k in
             sbind (lift_result (vec_insert (i_keys parent) pos k)) (\<lambda>ks.
             sbind (lift_result (vec_insert (i_children parent) (pos + 1) right)) (\<lambda>cs.
             sbind (lift_result (checked_add (nh_key_count (i_header parent)) 1)) (\<lambda>kc.
             let parent = parent\<lparr>i_keys := ks, i_children := cs,
                            i_header := (i_header parent)\<lparr>nh_key_count := kc\<rparr>\<rparr> in
             if length (i_keys parent) \<le> MAX_KEYS
             then sbind (on_pages (write_node crc parent_id (NodeInternal parent)))
                    (\<lambda>_. lift_result (Ok None))
             else sbind (split_internal crc parent_id parent) (\<lambda>p. lift_result (Ok (Some p)))))))) b"

partial_function (option) insert_into_parent ::
  "(bytes \<Rightarrow> u32) \<Rightarrow> page_id \<Rightarrow> key \<Rightarrow> page_id \<Rightarrow> btree \<Rightarrow> (unit db_result \<times> btree) option" where
  "insert_into_parent crc left k right b =
     (case insert_parent_step crc left k right b of
        (Err e, b') \<Rightarrow> Some (Err e, b')
      | (Panic p, b') \<Rightarrow> Some (Panic p, b')
      | (Ok None, b') \<Rightarrow> Some (Ok (), b')
      | (Ok (Some (left', k', right')), b') \<Rightarrow> insert_into_parent crc left' k' right' b')"

definition split_leaf :: "(bytes \<Rightarrow> u32) \<Rightarrow> page_id \<Rightarrow> leaf_node \<Rightarrow> (btree, pending, db_error) op" where
  "split_leaf crc leaf_id leaf =
     (let mid = length (l_keys leaf) div 2 in
      sbind (on_pages allocate_page) (\<lambda>new_leaf_id.
      sbind (lift_result (sub_slice (l_values leaf) mid (length (l_values leaf)))) (\<lambda>right_values.
      let new_leaf = \<lparr>l_header = \<lparr>nh_is_leaf = True, nh_key_count = of_nat (length (l_keys leaf) - mid),
                        nh_parent = nh_parent (l_header leaf)\<rparr>,
                      l_next = l_next leaf, l_keys = drop mid (l_keys leaf), l_values = right_values\<rparr>;
          left = leaf\<lparr>l_keys := take mid (l_keys leaf), l_values := take mid (l_values leaf),
                      l_next := Some new_leaf_id,
                      l_header := (l_header leaf)\<lparr>nh_key_count := of_nat mid\<rparr>\<rparr> in
      sbind (on_pages (write_node crc leaf_id (NodeLeaf left))) (\<lambda>_.
      sbind (on_pages (write_node crc new_leaf_id (NodeLeaf new_leaf))) (\<lambda>_.
      sbind (lift_result (index (l_keys new_leaf) 0)) (\<lambda>separator.
      lift_result (Ok (leaf_id, separator, new_leaf_id))))))))"

text \<open>The part of \<^verbatim>\<open>insert\<close> after the search: into the leaf, with a split when it overflows.\<close>

definition insert_into_leaf ::
  "(bytes \<Rightarrow> u32) \<Rightarrow> page_id \<Rightarrow> key \<Rightarrow> page_id \<Rightarrow> (btree, pending option, db_error) op" where
  "insert_into_leaf crc leaf_id k v b =
     sbind (lift_result (read_node crc (bt_pages b) leaf_id)) (\<lambda>n.
     case n of
       NodeInternal _ \<Rightarrow> lift_result (Panic ''internal error: entered unreachable code'')
     | NodeLeaf leaf \<Rightarrow>
         sbind (lift_result (insert_sorted (l_keys leaf) (l_values leaf) k v)) (\<lambda>(ks, vs).
         sbind (lift_result (checked_add (nh_key_count (l_header leaf)) 1)) (\<lambda>kc.
         let leaf = leaf\<lparr>l_keys := ks, l_values := vs,
                      l_header := (l_header leaf)\<lparr>nh_key_count := kc\<rparr>\<rparr> in
         if length (l_keys leaf) \<le> MAX_KEYS
         then sbind (on_pages (write_node crc leaf_id (NodeLeaf leaf))) (\<lambda>_. lift_result (Ok None))
         else sbind (split_leaf crc leaf_id leaf) (\<lambda>p. lift_result (Ok (Some p)))))) b"

definition btree_insert ::
  "'u ext_lib \<Rightarrow> key \<Rightarrow> page_id \<Rightarrow> 'u tx_id \<Rightarrow> btree \<Rightarrow> (unit db_result \<times> btree) option" where
  "btree_insert L k v tx b =
     (case on_wal (log_btree_insert L k v tx) b of
        (Err e, b) \<Rightarrow> Some (Err e, b)
      | (Panic p, b) \<Rightarrow> Some (Panic p, b)
      | (Ok _, b) \<Rightarrow>
          (case find_leaf (crc32 L) b k of
             None \<Rightarrow> None
           | Some (Err e) \<Rightarrow> Some (Err e, b)
           | Some (Panic p) \<Rightarrow> Some (Panic p, b)
           | Some (Ok leaf_id) \<Rightarrow>
               (case insert_into_leaf (crc32 L) leaf_id k v b of
                  (Err e, b) \<Rightarrow> Some (Err e, b)
                | (Panic p, b) \<Rightarrow> Some (Panic p, b)
                | (Ok None, b) \<Rightarrow> Some (Ok (), b)
                | (Ok (Some (left, sep, right)), b) \<Rightarrow> insert_into_parent (crc32 L) left sep right b)))"

end
