(* ===== verification/Btree_Search.thy ===== *)
theory Btree_Search
  imports Btree
begin

text \<open>
  What searching in the B+tree of \<^verbatim>\<open>sabi-storage/src/btree.rs\<close> returns.  A value of type \<open>bptree\<close> is
  the tree a page file holds: \<open>on_disk\<close> relates the two, \<open>search_tree\<close> is the order that makes the
  separators meaningful, \<open>entries\<close> is the table the tree stands for.  The lemmas show that the loops
  of \<^verbatim>\<open>get\<close>, \<^verbatim>\<open>find_leaf\<close> and \<^verbatim>\<open>range\<close> end on every such tree and what they return.
\<close>

section \<open>Positions\<close>

lemma find_child_le [simp]: "find_child ks k \<le> length ks"
  by (auto simp: find_child_def dest: position_SomeD split: option.splits)

lemma find_child_below: "j < find_child ks k \<Longrightarrow> ks ! j \<le> k"
  by (auto simp: find_child_def position_None_iff not_less dest: position_SomeD split: option.splits)

lemma find_child_above: "find_child ks k < length ks \<Longrightarrow> k < ks ! find_child ks k"
  by (auto simp: find_child_def dest: position_SomeD split: option.splits)

lemma find_child_above_le:
  assumes "sorted ks" and "find_child ks k \<le> j" and "j < length ks"
  shows "k < ks ! j"
  using find_child_above [of ks k] sorted_nth_mono [OF assms(1,2,3)] assms(2,3)
  by (meson le_less_trans less_le_trans)

section \<open>Trees in a page file\<close>

datatype bptree =
    BLeaf page_id "(key \<times> page_id) list"
  | BNode page_id "key list" "bptree list"

fun root_of :: "bptree \<Rightarrow> page_id" where
  "root_of (BLeaf p es) = p"
| "root_of (BNode p ks ts) = p"

fun entries :: "bptree \<Rightarrow> (key \<times> page_id) list" where
  "entries (BLeaf p es) = es"
| "entries (BNode p ks ts) = concat (map entries ts)"

fun tree_pages :: "bptree \<Rightarrow> page_id list" where
  "tree_pages (BLeaf p es) = [p]"
| "tree_pages (BNode p ks ts) = p # concat (map tree_pages ts)"

fun on_disk :: "(bytes \<Rightarrow> u32) \<Rightarrow> page_file \<Rightarrow> bptree \<Rightarrow> bool" where
  "on_disk crc f (BLeaf p es) \<longleftrightarrow>
     (\<exists>l. read_node crc f p = Ok (NodeLeaf l) \<and> l_keys l = map fst es \<and> l_values l = map snd es)"
| "on_disk crc f (BNode p ks ts) \<longleftrightarrow>
     (\<exists>i. read_node crc f p = Ok (NodeInternal i) \<and> i_keys i = ks \<and> i_children i = map root_of ts) \<and>
     (\<forall>t \<in> set ts. on_disk crc f t)"

text \<open>Child \<open>j\<close> of a node holds the keys from separator \<open>j - 1\<close> on, and below separator \<open>j\<close>.\<close>

fun search_tree :: "bptree \<Rightarrow> bool" where
  "search_tree (BLeaf p es) \<longleftrightarrow> sorted (map fst es)"
| "search_tree (BNode p ks ts) \<longleftrightarrow>
     length ts = Suc (length ks) \<and> sorted ks \<and> (\<forall>t \<in> set ts. search_tree t) \<and>
     (\<forall>j < length ts. \<forall>k \<in> fst ` set (entries (ts ! j)).
        (0 < j \<longrightarrow> ks ! (j - 1) \<le> k) \<and> (j < length ks \<longrightarrow> k < ks ! j))"

lemma map_of_concat_unique:
  assumes "i < length xss" and "\<And>j. j < length xss \<Longrightarrow> j \<noteq> i \<Longrightarrow> k \<notin> fst ` set (xss ! j)"
  shows "map_of (concat xss) k = map_of (xss ! i) k"
proof -
  have none: "map_of (concat yss) k = None" if "\<forall>ys \<in> set yss. k \<notin> fst ` set ys" for yss :: "('a \<times> 'b) list list"
    using that by (induction yss) (auto simp: map_add_None map_of_eq_None_iff)
  have "k \<notin> fst ` set ys" if "ys \<in> set (take i xss)" for ys
  proof -
    from that assms(1) obtain j where "j < i" "ys = xss ! j" by (auto simp: in_set_conv_nth)
    with assms show ?thesis by simp
  qed
  moreover have "k \<notin> fst ` set ys" if "ys \<in> set (drop (Suc i) xss)" for ys
  proof -
    from that obtain j where "j < length xss - Suc i" "ys = xss ! (Suc i + j)"
      by (auto simp: in_set_conv_nth)
    with assms(2) [of "Suc i + j"] show ?thesis by simp
  qed
  moreover have "concat xss = concat (take i xss) @ xss ! i @ concat (drop (Suc i) xss)"
    by (metis append.assoc assms(1) concat.simps(2) concat_append id_take_nth_drop append_Cons)
  ultimately show ?thesis using none by (simp add: map_add_def split: option.splits)
qed

lemma search_nodeD:
  assumes "search_tree (BNode p ks ts)"
  shows "length ts = Suc (length ks)" and "sorted ks" and "t \<in> set ts \<Longrightarrow> search_tree t"
    and "j < length ts \<Longrightarrow> k \<in> fst ` set (entries (ts ! j)) \<Longrightarrow> 0 < j \<Longrightarrow> ks ! (j - 1) \<le> k"
    and "j < length ts \<Longrightarrow> k \<in> fst ` set (entries (ts ! j)) \<Longrightarrow> j < length ks \<Longrightarrow> k < ks ! j"
  using assms unfolding search_tree.simps by blast+

text \<open>The child that the descent chooses is the only one that can hold the key.\<close>

lemma other_child:
  assumes t: "search_tree (BNode p ks ts)" and "j < length ts" and "j \<noteq> find_child ks k"
  shows "k \<notin> fst ` set (entries (ts ! j))"
proof
  assume k: "k \<in> fst ` set (entries (ts ! j))"
  show False
  proof (cases "j < find_child ks k")
    case True
    then have "j < length ks" using find_child_le [of ks k] by linarith
    then have "k < ks ! j" by (rule search_nodeD(5) [OF t assms(2) k])
    with find_child_below [OF True] show False by simp
  next
    case False
    then have j: "find_child ks k \<le> j - 1" "j - 1 < length ks" "0 < j"
      using assms(2,3) search_nodeD(1) [OF t] by auto
    then have "ks ! (j - 1) \<le> k" by (intro search_nodeD(4) [OF t assms(2) k])
    moreover have "k < ks ! (j - 1)" by (rule find_child_above_le [OF search_nodeD(2) [OF t] j(1,2)])
    ultimately show False by simp
  qed
qed

lemma find_child_in_range: "search_tree (BNode p ks ts) \<Longrightarrow> find_child ks k < length ts"
  using find_child_le [of ks k] by (simp add: less_Suc_eq_le)

lemma find_child_mem: "search_tree (BNode p ks ts) \<Longrightarrow> ts ! find_child ks k \<in> set ts"
  by (rule nth_mem) (rule find_child_in_range)

lemma map_of_child:
  assumes "search_tree (BNode p ks ts)"
  shows "map_of (entries (BNode p ks ts)) k = map_of (entries (ts ! find_child ks k)) k"
proof -
  have "map_of (concat (map entries ts)) k = map_of (map entries ts ! find_child ks k) k"
    using other_child [OF assms] find_child_in_range [OF assms]
    by (intro map_of_concat_unique) auto
  then show ?thesis using find_child_in_range [OF assms] by simp
qed

section \<open>Point lookups\<close>

lemma position_map_of:
  "(case position (\<lambda>k'. k' = k) (map fst es) of
      Some i \<Rightarrow> rbind (index (map snd es) i) (\<lambda>v. Ok (Some v)) | None \<Rightarrow> Ok None) =
   (Ok (map_of es k) :: ('b option, 'e) result)"
proof (induction es)
  case Nil
  then show ?case by simp
next
  case (Cons e es)
  then show ?case by (cases e) (auto simp: index_def split: option.splits if_splits)
qed

lemma leaf_lookup_map_of:
  assumes "l_keys l = map fst es" and "l_values l = map snd es"
  shows "leaf_lookup l k = Ok (map_of es k)"
  unfolding leaf_lookup_def assms by (rule position_map_of)

lemma get_loop_tree:
  "on_disk crc f t \<Longrightarrow> search_tree t \<Longrightarrow>
   get_loop crc f k (root_of t) = Some (Ok (map_of (entries t) k))"
proof (induction t)
  case (BLeaf p es)
  then show ?case by (auto simp: get_loop.simps [of _ _ _ p] leaf_lookup_map_of)
next
  case (BNode p ks ts)
  let ?t = "ts ! find_child ks k"
  note t = find_child_mem [OF BNode.prems(2)] find_child_in_range [OF BNode.prems(2)]
  from t(1) BNode have "get_loop crc f k (root_of ?t) = Some (Ok (map_of (entries ?t) k))" by auto
  then show ?case
    using BNode.prems(1) map_of_child [OF BNode.prems(2)] t
    by (auto simp: get_loop.simps [of _ _ _ p])
qed

text \<open>C7. A lookup ends and is right on every well-ordered tree that the file holds, whatever its
  height: it returns the page id of the first entry with the key, and nothing if no entry of the
  tree has the key.\<close>

theorem btree_get_correct:
  assumes "on_disk crc (bt_pages b) t" and "search_tree t" and "bt_root b = root_of t"
  shows "btree_get crc b k = Some (Ok (map_of (entries t) k))"
  using get_loop_tree [OF assms(1,2)] assms(3) by (simp add: btree_get_def)

section \<open>Descents and range scans\<close>

fun leaves :: "bptree \<Rightarrow> (page_id \<times> (key \<times> page_id) list) list" where
  "leaves (BLeaf p es) = [(p, es)]"
| "leaves (BNode p ks ts) = concat (map leaves ts)"

lemma concat_map_concat: "concat (map (\<lambda>t. concat (map g (h t))) ts) = concat (map g (concat (map h ts)))"
  by (induction ts) simp_all

lemma entries_leaves: "entries t = concat (map snd (leaves t))"
proof (induction t)
  case (BLeaf p es)
  then show ?case by simp
next
  case (BNode p ks ts)
  then have "map entries ts = map (\<lambda>t. concat (map snd (leaves t))) ts" by simp
  then show ?case using concat_map_concat [of snd leaves ts] by (simp del: map_eq_conv)
qed

lemma concat_split_nth:
  "i < length ts \<Longrightarrow> concat (map g ts) =
     concat (map g (take i ts)) @ g (ts ! i) @ concat (map g (drop (Suc i) ts))"
  by (metis append.assoc concat.simps(2) concat_append id_take_nth_drop list.simps(9) map_append)

lemma leaf_entries_mem:
  "(p, es) \<in> set (leaves t) \<Longrightarrow> e \<in> set es \<Longrightarrow> e \<in> set (entries t)"
  by (force simp: entries_leaves)

lemma find_leaf_tree:
  "on_disk crc f t \<Longrightarrow> search_tree t \<Longrightarrow>
   \<exists>pre p es post. leaves t = pre @ (p, es) # post \<and> find_leaf_loop crc f k (root_of t) = Some (Ok p) \<and>
     (\<forall>e \<in> set (concat (map snd pre)). fst e < k)"
proof (induction t)
  case (BLeaf p es)
  then have "find_leaf_loop crc f k p = Some (Ok p)" by (auto simp: find_leaf_loop.simps [of _ _ _ p])
  then show ?case by (intro exI [of _ "[]"] exI [of _ p] exI [of _ es]) simp
next
  case (BNode p ks ts)
  let ?i = "find_child ks k"
  note t = find_child_mem [OF BNode.prems(2), of k] find_child_in_range [OF BNode.prems(2), of k]
  obtain pre q es post where q: "leaves (ts ! ?i) = pre @ (q, es) # post"
      "find_leaf_loop crc f k (root_of (ts ! ?i)) = Some (Ok q)"
      "\<forall>e \<in> set (concat (map snd pre)). fst e < k"
    using BNode.IH [OF t(1)] BNode.prems(1) search_nodeD(3) [OF BNode.prems(2) t(1)] t(1) by auto
  let ?pre = "concat (map leaves (take ?i ts)) @ pre"
  have "fst e < k" if "e \<in> set (concat (map snd ?pre))" for e
  proof (cases "e \<in> set (concat (map snd pre))")
    case False
    with that obtain j r es' where j: "j < ?i" "(r, es') \<in> set (leaves (ts ! j))" "e \<in> set es'"
      using t(2) by (auto simp: in_set_conv_nth [of _ "take _ _"])
    then have jl: "j < length ks" "j < length ts" using find_child_le [of ks k] t(2) by linarith+
    have "fst e < ks ! j"
      using leaf_entries_mem [OF j(2,3)] by (intro search_nodeD(5) [OF BNode.prems(2) jl(2) _ jl(1)]) simp
    with find_child_below [OF j(1)] show ?thesis by simp
  qed (use q(3) in blast)
  moreover have "leaves (BNode p ks ts) = ?pre @ (q, es) # post @ concat (map leaves (drop (Suc ?i) ts))"
    using concat_split_nth [OF t(2), of leaves] q(1) by simp
  moreover have "find_leaf_loop crc f k p = Some (Ok q)"
    using BNode.prems(1) q(2) t(2) by (auto simp: find_leaf_loop.simps [of _ _ _ p])
  ultimately show ?case by (metis root_of.simps(2))
qed

text \<open>The leaves of a range scan are linked from left to right.\<close>

fun chained :: "(bytes \<Rightarrow> u32) \<Rightarrow> page_file \<Rightarrow> (page_id \<times> (key \<times> page_id) list) list \<Rightarrow> bool" where
  "chained crc f [] \<longleftrightarrow> True"
| "chained crc f ((p, es) # rest) \<longleftrightarrow>
     (\<exists>l. read_node crc f p = Ok (NodeLeaf l) \<and> l_keys l = map fst es \<and> l_values l = map snd es \<and>
        l_next l = (case rest of [] \<Rightarrow> None | (q, _) # _ \<Rightarrow> Some q)) \<and>
     chained crc f rest"

lemma chained_append: "chained crc f (pre @ post) \<Longrightarrow> chained crc f post"
  by (induction pre) auto

lemma range_loop_chain:
  "chained crc f ((p, es) # rest) \<Longrightarrow>
   range_loop crc f lo hi p out = Some (Ok (out @ filter (in_range lo hi) (es @ concat (map snd rest))))"
proof (induction rest arbitrary: p es out)
  case Nil
  then show ?case by (auto simp: range_loop.simps [of _ _ _ _ p] zip_map_fst_snd)
next
  case (Cons r rest)
  obtain q es' where r: "r = (q, es')" by fastforce
  from Cons.prems have "chained crc f ((q, es') # rest)" by (simp add: r)
  from Cons.IH [OF this] Cons.prems show ?case
    by (auto simp: range_loop.simps [of _ _ _ _ p] r zip_map_fst_snd)
qed

lemma range_tree:
  assumes "on_disk crc (bt_pages b) t" and "search_tree t" and "bt_root b = root_of t"
    and "chained crc (bt_pages b) (leaves t)"
  shows "btree_range crc b lo hi = Some (Ok (filter (in_range lo hi) (entries t)))"
proof -
  obtain pre p es post where p: "leaves t = pre @ (p, es) # post"
      "find_leaf_loop crc (bt_pages b) lo (root_of t) = Some (Ok p)"
      "\<forall>e \<in> set (concat (map snd pre)). fst e < lo"
    using find_leaf_tree [OF assms(1,2)] by blast
  have "filter (in_range lo hi) (concat (map snd pre)) = []"
    using p(3) by (fastforce simp: filter_empty_conv in_range_def)
  moreover have "chained crc (bt_pages b) ((p, es) # post)" using chained_append [of crc "bt_pages b" pre] assms(4) p(1) by (simp del: chained.simps)
  ultimately show ?thesis
    using range_loop_chain [of crc "bt_pages b" p es post lo hi "[]"] p(1,2) assms(3)
    by (simp add: btree_range_def find_leaf_def entries_leaves)
qed

text \<open>C8. A range scan ends and is exact on every well-ordered tree whose leaves are linked from left
  to right: it returns all entries of the tree with a key in the closed interval, each once, in
  key order.\<close>

theorem btree_range_correct:
  assumes "on_disk crc (bt_pages b) t" and "search_tree t" and "bt_root b = root_of t"
    and "chained crc (bt_pages b) (leaves t)"
  shows "btree_range crc b lo hi = Some (Ok (filter (in_range lo hi) (entries t)))"
  by (rule range_tree [OF assms])

section \<open>A tree of height two\<close>

definition sample_tree :: bptree where
  "sample_tree = BNode 1 [[5]] [BLeaf 2 [([1], 40), ([3], 41)], BLeaf 3 [([5], 42)]]"

definition sample_nodes :: "(page_id \<times> node) list" where
  "sample_nodes =
    [(1, NodeInternal \<lparr>i_header = \<lparr>nh_is_leaf = False, nh_key_count = 1, nh_parent = None\<rparr>,
           i_keys = [[5]], i_children = [2, 3]\<rparr>),
     (2, NodeLeaf \<lparr>l_header = \<lparr>nh_is_leaf = True, nh_key_count = 2, nh_parent = Some 1\<rparr>,
           l_next = Some 3, l_keys = [[1], [3]], l_values = [40, 41]\<rparr>),
     (3, NodeLeaf \<lparr>l_header = \<lparr>nh_is_leaf = True, nh_key_count = 1, nh_parent = Some 1\<rparr>,
           l_next = None, l_keys = [[5]], l_values = [42]\<rparr>)]"

lemma sample_file_inv: "store_inv sample_file"
  using sample_file_wf by (simp add: store_inv_def sample_file_def page_file_open_def)

lemma sample_nodes_on_disk:
  "\<exists>f. store_inv f \<and> page_count f = 4 \<and> (\<forall>(p, n) \<in> set sample_nodes. read_node crc f p = Ok n)"
proof -
  let ?n = "\<lambda>i. snd (sample_nodes ! i)"
  have s: "storable_node (?n 0)" "storable_node (?n 1)" "storable_node (?n 2)"
    by (simp_all add: sample_nodes_def storable_node_def leaf_bytes_def internal_bytes_def length_put_entry)
  obtain f1 where f1: "store_inv f1" "page_count f1 = 2" "read_node crc f1 1 = Ok (?n 0)"
    using node_pages.wr_ok [OF sample_file_inv s(1), of 1 crc] sample_file_wf(2) by (auto simp: MAX_PAGES_def)
  obtain f2 where f2: "store_inv f2" "page_count f2 = 3" "read_node crc f2 1 = Ok (?n 0)" "read_node crc f2 2 = Ok (?n 1)"
    using node_pages.wr_ok [OF f1(1) s(2), of 2 crc] f1 by (auto simp: MAX_PAGES_def)
  obtain f3 where "store_inv f3" "page_count f3 = 4" "read_node crc f3 1 = Ok (?n 0)"
      "read_node crc f3 2 = Ok (?n 1)" "read_node crc f3 3 = Ok (?n 2)"
    using node_pages.wr_ok [OF f2(1) s(3), of 3 crc] f2 by (auto simp: MAX_PAGES_def)
  then show ?thesis by - (rule exI [of _ f3], simp add: sample_nodes_def)
qed

lemma sample_tree_on_disk:
  "\<exists>b :: btree. store_inv (bt_pages b) \<and> page_count (bt_pages b) = 4 \<and> bt_root b = 1 \<and>
     on_disk crc (bt_pages b) sample_tree \<and> chained crc (bt_pages b) (leaves sample_tree)"
proof -
  obtain f where f: "store_inv f" "page_count f = 4" "\<forall>(p, n) \<in> set sample_nodes. read_node crc f p = Ok n"
    using sample_nodes_on_disk by blast
  have "on_disk crc f sample_tree" "chained crc f (leaves sample_tree)"
    using f(3) by (simp_all add: sample_tree_def sample_nodes_def)
  with f show ?thesis
    by - (rule exI [of _ "\<lparr>bt_root = 1, bt_pages = f, bt_wal = \<lparr>wal_log = [], wal_synced = 0\<rparr>\<rparr>"], simp)
qed

lemma sample_tree_search: "search_tree sample_tree"
  by (auto simp: sample_tree_def less_Suc_eq)

lemma sample_tree_root: "root_of sample_tree = 1"
  by (simp add: sample_tree_def)

theorem btree_get_correct_witness:
  "\<exists>b :: btree. on_disk (\<lambda>_. 0) (bt_pages b) sample_tree \<and> btree_get (\<lambda>_. 0) b [3] = Some (Ok (Some 41)) \<and>
     btree_get (\<lambda>_. 0) b [4] = Some (Ok None)"
proof -
  obtain b :: btree where b: "bt_root b = root_of sample_tree" "on_disk (\<lambda>_. 0) (bt_pages b) sample_tree"
    using sample_tree_on_disk [of "\<lambda>_. 0"] sample_tree_root by auto
  from btree_get_correct [OF b(2) sample_tree_search b(1)] b(2) show ?thesis
    by - (rule exI [of _ b], simp add: sample_tree_def)
qed

theorem btree_range_correct_witness:
  "\<exists>b :: btree. on_disk (\<lambda>_. 0) (bt_pages b) sample_tree \<and>
     btree_range (\<lambda>_. 0) b [2] [9] = Some (Ok [([3], 41), ([5], 42)])"
proof -
  obtain b :: btree where b: "bt_root b = root_of sample_tree" "on_disk (\<lambda>_. 0) (bt_pages b) sample_tree"
      "chained (\<lambda>_. 0) (bt_pages b) (leaves sample_tree)"
    using sample_tree_on_disk [of "\<lambda>_. 0"] sample_tree_root by auto
  from btree_range_correct [OF b(2) sample_tree_search b(1,3)] b(2) show ?thesis
    by - (rule exI [of _ b], simp add: sample_tree_def in_range_def)
qed

end
