(* ===== verification/Btree_Insert.thy ===== *)
theory Btree_Insert
  imports Btree_Search
begin

text \<open>
  What insertion into the B+tree of \<^verbatim>\<open>sabi-storage/src/btree.rs\<close> does.  The abstract insertion
  \<open>put_leaf\<close> adds an entry to the leaf the descent finds; \<open>btree_holds\<close> says that a file holds a
  given tree, with its order, its leaf chain and its page ids in range.  The refinement lemma shows
  that \<open>btree_insert\<close> implements \<open>put_leaf\<close> while the leaf has room, in keys and in bytes.  The last
  sections show the two other outcomes: the error of a leaf that is full in bytes, and the split of
  the root leaf.
\<close>

section \<open>Insertion into one leaf\<close>

definition insert_entry :: "key \<Rightarrow> page_id \<Rightarrow> (key \<times> page_id) list \<Rightarrow> (key \<times> page_id) list" where
  "insert_entry k v es = (let i = find_child (map fst es) k in take i es @ (k, v) # drop i es)"

lemma insert_sorted_entries:
  "insert_sorted (map fst es) (map snd es) k v =
     Ok (map fst (insert_entry k v es), map snd (insert_entry k v es))"
  using find_child_le [of "map fst es" k]
  by (simp add: insert_sorted_def insert_entry_def Let_def take_map drop_map)

lemma length_insert_entry [simp]: "length (insert_entry k v es) = Suc (length es)"
  using find_child_le [of "map fst es" k] by (simp add: insert_entry_def Let_def)

lemma set_insert_entry [simp]: "set (insert_entry k v es) = insert (k, v) (set es)"
proof -
  have "set es = set (take i es) \<union> set (drop i es)" for i
    by (metis append_take_drop_id set_append)
  then show ?thesis by (auto simp: insert_entry_def Let_def)
qed

lemma size_insert_entry:
  "length (concat (map put_entry (insert_entry k v es))) =
     10 + length k + length (concat (map put_entry es))"
proof -
  have "length (concat (map put_entry es)) =
      length (concat (map put_entry (take i es))) + length (concat (map put_entry (drop i es)))" for i
    by (metis append_take_drop_id concat_append length_append map_append)
  then show ?thesis by (simp add: insert_entry_def Let_def length_put_entry)
qed

lemma insert_entry_parts:
  assumes "sorted (map fst es)"
  obtains xs ys where "es = xs @ ys" "insert_entry k v es = xs @ (k, v) # ys"
    "\<forall>e \<in> set xs. fst e \<le> k" "\<forall>e \<in> set ys. k < fst e"
proof -
  let ?i = "find_child (map fst es) k"
  have i: "?i \<le> length es" using find_child_le [of "map fst es" k] by simp
  have "fst e \<le> k" if "e \<in> set (take ?i es)" for e
  proof -
    from that i obtain j where "j < ?i" "e = es ! j" by (auto simp: in_set_conv_nth)
    with find_child_below [of j "map fst es" k] i show ?thesis by simp
  qed
  moreover have "k < fst e" if "e \<in> set (drop ?i es)" for e
  proof -
    from that i obtain j where "j < length es - ?i" "e = es ! (?i + j)" by (auto simp: in_set_conv_nth)
    with find_child_above_le [OF assms, of k "?i + j"] show ?thesis by simp
  qed
  ultimately show thesis
    by (intro that [of "take ?i es" "drop ?i es"]) (simp_all add: insert_entry_def Let_def)
qed

lemma sorted_insert_entry: "sorted (map fst es) \<Longrightarrow> sorted (map fst (insert_entry k v es))"
  by (rule insert_entry_parts [of es k v]) (auto simp: sorted_append less_imp_le)

lemma map_of_insert_entry:
  assumes "sorted (map fst es)"
  shows "map_of (insert_entry k v es) k' =
    (if k' = k \<and> map_of es k = None then Some v else map_of es k')"
proof -
  obtain xs ys where xy: "es = xs @ ys" "insert_entry k v es = xs @ (k, v) # ys" "\<forall>e \<in> set ys. k < fst e"
    using insert_entry_parts [OF assms] by metis
  then have "map_of ys k = None" by (auto simp: map_of_eq_None_iff)
  with xy show ?thesis by (auto simp: map_add_def split: option.splits)
qed

section \<open>The abstract insertion\<close>

lemma size_nth: "i < length ts \<Longrightarrow> size (ts ! i) \<le> size_list size ts"
  by (rule size_list_estimation' [OF nth_mem order_refl])

function put_leaf :: "key \<Rightarrow> page_id \<Rightarrow> bptree \<Rightarrow> bptree" where
  "put_leaf k v (BLeaf p es) = BLeaf p (insert_entry k v es)"
| "put_leaf k v (BNode p ks ts) =
     (let i = find_child ks k in
      if i < length ts then BNode p ks (ts[i := put_leaf k v (ts ! i)]) else BNode p ks ts)"
  by pat_completeness auto
termination
  by (relation "measure (\<lambda>(k, v, t). size t)") (auto simp: less_Suc_eq_le size_nth)

function leaf_for :: "key \<Rightarrow> bptree \<Rightarrow> page_id \<times> (key \<times> page_id) list" where
  "leaf_for k (BLeaf p es) = (p, es)"
| "leaf_for k (BNode p ks ts) =
     (let i = find_child ks k in if i < length ts then leaf_for k (ts ! i) else (p, []))"
  by pat_completeness auto
termination
  by (relation "measure (\<lambda>(k, t). size t)") (auto simp: less_Suc_eq_le size_nth)

lemma root_of_put_leaf [simp]: "root_of (put_leaf k v t) = root_of t"
  by (cases t) (simp_all add: Let_def)

lemma put_leaf_node:
  assumes "search_tree (BNode p ks ts)"
  shows "put_leaf k v (BNode p ks ts) = BNode p ks (ts[find_child ks k := put_leaf k v (ts ! find_child ks k)])"
    and "leaf_for k (BNode p ks ts) = leaf_for k (ts ! find_child ks k)"
  using find_child_in_range [OF assms] by (simp_all add: Let_def)

lemma put_leaf_induct [consumes 1, case_names leaf node]:
  assumes "search_tree t"
    and "\<And>p es. sorted (map fst es) \<Longrightarrow> P (BLeaf p es)"
    and "\<And>p ks ts. search_tree (BNode p ks ts) \<Longrightarrow> find_child ks k < length ts \<Longrightarrow>
       ts ! find_child ks k \<in> set ts \<Longrightarrow> P (ts ! find_child ks k) \<Longrightarrow> P (BNode p ks ts)"
  shows "P t"
  using assms(1)
proof (induction t)
  case (BLeaf p es)
  then show ?case using assms(2) by simp
next
  case (BNode p ks ts)
  note mem = find_child_mem [OF BNode.prems, of k]
  show ?case
    by (rule assms(3) [OF BNode.prems find_child_in_range [OF BNode.prems] mem])
      (rule BNode.IH [OF mem search_nodeD(3) [OF BNode.prems mem]])
qed


lemma set_update: "i < length ts \<Longrightarrow> set (ts[i := x]) = insert x (set (take i ts) \<union> set (drop (Suc i) ts))"
  by (simp add: upd_conv_take_nth_drop)

lemma set_entries_put_leaf: "search_tree t \<Longrightarrow> set (entries (put_leaf k v t)) = insert (k, v) (set (entries t))"
proof (induction rule: put_leaf_induct [where k = k])
  case (leaf p es)
  then show ?case by simp
next
  case (node p ks ts)
  let ?i = "find_child ks k"
  have "set ts = insert (ts ! ?i) (set (take ?i ts) \<union> set (drop (Suc ?i) ts))"
    using set_update [OF node(2), of "ts ! ?i"] by simp
  then show ?case
    unfolding put_leaf_node(1) [OF node(1)] using node(2,4) by (auto simp: set_update)
qed

lemma entries_child_put:
  "j < length ts \<Longrightarrow> i < length ts \<Longrightarrow> set (entries t') = insert e (set (entries (ts ! i))) \<Longrightarrow>
   set (entries (ts[i := t'] ! j)) = (if j = i then insert e (set (entries (ts ! j))) else set (entries (ts ! j)))"
  by simp

lemma search_tree_put_leaf: "search_tree t \<Longrightarrow> search_tree (put_leaf k v t)"
proof (induction rule: put_leaf_induct [where k = k])
  case (leaf p es)
  then show ?case by (simp add: sorted_insert_entry)
next
  case (node p ks ts)
  let ?i = "find_child ks k"
  let ?ts = "ts[?i := put_leaf k v (ts ! ?i)]"
  have sub: "search_tree t'" if "t' \<in> set ?ts" for t'
    using that node(4) search_nodeD(3) [OF node(1)] set_update_subset_insert [of ts ?i] by fastforce
  have ent: "set (entries (?ts ! j)) =
      (if j = ?i then insert (k, v) (set (entries (ts ! j))) else set (entries (ts ! j)))" if "j < length ts" for j
    using that node(2) set_entries_put_leaf [OF search_nodeD(3) [OF node(1,3)], of k v]
    by (rule entries_child_put)
  have "(0 < j \<longrightarrow> ks ! (j - 1) \<le> k') \<and> (j < length ks \<longrightarrow> k' < ks ! j)"
    if j: "j < length ts" and k': "k' \<in> fst ` set (entries (?ts ! j))" for j k'
  proof (cases "j = ?i \<and> k' = k")
    case True
    then show ?thesis using find_child_below [of "j - 1" ks k] find_child_above [of ks k] by auto
  next
    case False
    with k' ent [OF j] have "k' \<in> fst ` set (entries (ts ! j))" by (auto split: if_splits)
    then show ?thesis using search_nodeD(4,5) [OF node(1) j] by blast
  qed
  with sub show ?case
    unfolding put_leaf_node(1) [OF node(1)] search_tree.simps
    using search_nodeD(1,2) [OF node(1)] by auto
qed

lemma map_of_put_leaf:
  "search_tree t \<Longrightarrow> map_of (entries (put_leaf k v t)) k' =
     (if k' = k \<and> map_of (entries t) k = None then Some v else map_of (entries t) k')"
proof (induction rule: put_leaf_induct [where k = k])
  case (leaf p es)
  then show ?case by (simp add: map_of_insert_entry)
next
  case (node p ks ts)
  have t': "search_tree (BNode p ks (ts[find_child ks k := put_leaf k v (ts ! find_child ks k)]))"
    using search_tree_put_leaf [OF node(1), of k v] by (simp only: put_leaf_node(1) [OF node(1)])
  show ?case
    unfolding put_leaf_node(1) [OF node(1)] map_of_child [OF t'] map_of_child [OF node(1)]
    using node(2,4) by (cases "find_child ks k' = find_child ks k") auto
qed

section \<open>The tree a file holds\<close>

definition btree_holds :: "(bytes \<Rightarrow> u32) \<Rightarrow> btree \<Rightarrow> bptree \<Rightarrow> bool" where
  "btree_holds crc b t \<longleftrightarrow>
     store_inv (bt_pages b) \<and> bt_root b = root_of t \<and> on_disk crc (bt_pages b) t \<and> search_tree t \<and>
     chained crc (bt_pages b) (leaves t) \<and> distinct (tree_pages t) \<and>
     (\<forall>p \<in> set (tree_pages t). unat p < page_count (bt_pages b))"

lemma btree_get_holds: "btree_holds crc b t \<Longrightarrow> btree_get crc b k = Some (Ok (map_of (entries t) k))"
  using get_loop_tree by (simp add: btree_holds_def btree_get_def)

lemma btree_range_holds:
  assumes "btree_holds crc b t"
  shows "btree_range crc b lo hi = Some (Ok (filter (in_range lo hi) (entries t)))"
  using range_tree [of crc b t lo hi] assms by (simp add: btree_holds_def)

text \<open>A leaf has room for a key: in number of keys, and in bytes whatever its two pointers are.\<close>

definition entries_fit :: "(key \<times> page_id) list \<Rightarrow> bool" where
  "entries_fit es \<longleftrightarrow> 20 + length (concat (map put_entry es)) \<le> MAX_PAYLOAD"

lemma on_disk_frame:
  "on_disk crc f t \<Longrightarrow> (\<And>q. q \<in> set (tree_pages t) \<Longrightarrow> read_node crc f' q = read_node crc f q) \<Longrightarrow>
   on_disk crc f' t"
proof (induction t)
  case (BLeaf p es)
  then show ?case by simp
next
  case (BNode p ks ts)
  have "on_disk crc f' t" if "t \<in> set ts" for t
    using BNode.IH [OF that] BNode.prems that by fastforce
  with BNode.prems show ?case by simp
qed

lemma child_pages_disjoint:
  assumes "distinct (tree_pages (BNode p ks ts))" and "i < length ts"
    and "t \<in> set (take i ts) \<union> set (drop (Suc i) ts)"
  shows "set (tree_pages t) \<inter> set (tree_pages (ts ! i)) = {}"
  using assms(1,3) by (auto simp: concat_split_nth [OF assms(2), of tree_pages])

lemma distinct_child: "distinct (tree_pages (BNode p ks ts)) \<Longrightarrow> t \<in> set ts \<Longrightarrow> distinct (tree_pages t)"
  by (auto simp: distinct_concat_iff)

lemma child_pages_subset: "t \<in> set ts \<Longrightarrow> set (tree_pages t) \<subseteq> set (tree_pages (BNode p ks ts))"
  by auto

lemma leaf_for_page: "search_tree t \<Longrightarrow> fst (leaf_for k t) \<in> set (tree_pages t)"
proof (induction rule: put_leaf_induct [where k = k])
  case (leaf p es)
  then show ?case by simp
next
  case (node p ks ts)
  then show ?case unfolding put_leaf_node(2) [OF node(1)] by auto
qed

lemma leaf_pages: "fst ` set (leaves t) \<subseteq> set (tree_pages t)"
  by (induction t) auto

lemma find_leaf_leaf_for:
  "search_tree t \<Longrightarrow> on_disk crc f t \<Longrightarrow> find_leaf_loop crc f k (root_of t) = Some (Ok (fst (leaf_for k t)))"
proof (induction rule: put_leaf_induct [where k = k])
  case (leaf p es)
  then show ?case by (auto simp: find_leaf_loop.simps [of _ _ _ p])
next
  case (node p ks ts)
  then have "find_leaf_loop crc f k (root_of (ts ! find_child ks k)) =
      Some (Ok (fst (leaf_for k (ts ! find_child ks k))))" by simp
  with node(2,5) show ?case
    unfolding put_leaf_node(2) [OF node(1)] by (auto simp: find_leaf_loop.simps [of _ _ _ p])
qed

text \<open>The leaf of the descent in the chain of leaves, before and after the insertion.\<close>

lemma leaf_for_split:
  "search_tree t \<Longrightarrow> distinct (tree_pages t) \<Longrightarrow>
   \<exists>pre post. leaves t = pre @ leaf_for k t # post \<and>
     leaves (put_leaf k v t) = pre @ (fst (leaf_for k t), insert_entry k v (snd (leaf_for k t))) # post \<and>
     fst (leaf_for k t) \<notin> fst ` set (pre @ post)"
proof (induction rule: put_leaf_induct [where k = k])
  case (leaf p es)
  show ?case by (intro exI [of _ "[]"]) simp
next
  case (node p ks ts)
  let ?i = "find_child ks k"
  let ?c = "ts ! ?i"
  let ?l = "concat (map leaves (take ?i ts))" and ?r = "concat (map leaves (drop (Suc ?i) ts))"
  obtain pre post where ih: "leaves ?c = pre @ leaf_for k ?c # post"
      "leaves (put_leaf k v ?c) = pre @ (fst (leaf_for k ?c), insert_entry k v (snd (leaf_for k ?c))) # post"
      "fst (leaf_for k ?c) \<notin> fst ` set (pre @ post)"
    using node(4) distinct_child [OF node(5,3)] by blast
  have "fst (leaf_for k ?c) \<notin> fst ` set (leaves t)" if "t \<in> set (take ?i ts) \<union> set (drop (Suc ?i) ts)" for t
    using child_pages_disjoint [OF node(5,2) that] leaf_for_page [OF search_nodeD(3) [OF node(1,3)], of k]
      leaf_pages [of t] by blast
  then have "fst (leaf_for k ?c) \<notin> fst ` set ((?l @ pre) @ (post @ ?r))" using ih(3) by auto
  moreover have "leaves (BNode p ks ts) = (?l @ pre) @ leaf_for k ?c # (post @ ?r)"
    using concat_split_nth [OF node(2), of leaves] ih(1) by simp
  moreover have "leaves (put_leaf k v (BNode p ks ts)) =
      (?l @ pre) @ (fst (leaf_for k ?c), insert_entry k v (snd (leaf_for k ?c))) # (post @ ?r)"
    unfolding put_leaf_node(1) [OF node(1)] using node(2) ih(2) by (simp add: upd_conv_take_nth_drop)
  ultimately show ?case unfolding put_leaf_node(2) [OF node(1)] by blast
qed

lemma map_update_same: "i < length ts \<Longrightarrow> (map g ts)[i := g (ts ! i)] = map g ts"
  by (metis list_update_id map_update)

lemma on_disk_put_leaf:
  "search_tree t \<Longrightarrow> on_disk crc f t \<Longrightarrow> distinct (tree_pages t) \<Longrightarrow>
   (\<And>q. q \<in> set (tree_pages t) \<Longrightarrow> q \<noteq> fst (leaf_for k t) \<Longrightarrow> read_node crc f' q = read_node crc f q) \<Longrightarrow>
   on_disk crc f' (BLeaf (fst (leaf_for k t)) (insert_entry k v (snd (leaf_for k t)))) \<Longrightarrow>
   on_disk crc f' (put_leaf k v t)"
proof (induction rule: put_leaf_induct [where k = k])
  case (leaf p es)
  then show ?case by simp
next
  case (node p ks ts)
  let ?i = "find_child ks k"
  let ?q = "fst (leaf_for k (ts ! ?i))"
  note same = node(7) [unfolded put_leaf_node(2) [OF node(1)]]
  have q: "?q \<in> set (tree_pages (ts ! ?i))"
    by (rule leaf_for_page [OF search_nodeD(3) [OF node(1,3)]])
  have "on_disk crc f' (put_leaf k v (ts ! ?i))"
  proof (rule node(4))
    show "on_disk crc f (ts ! ?i)" using node(3,5) by simp
    show "distinct (tree_pages (ts ! ?i))" by (rule distinct_child [OF node(6,3)])
    show "on_disk crc f' (BLeaf ?q (insert_entry k v (snd (leaf_for k (ts ! ?i)))))"
      using node(8) unfolding put_leaf_node(2) [OF node(1)] .
  qed (use same child_pages_subset [OF node(3)] in blast)
  moreover have "on_disk crc f' t" if t: "t \<in> set (take ?i ts) \<union> set (drop (Suc ?i) ts)" for t
  proof (rule on_disk_frame)
    have mem: "t \<in> set ts" using t by (auto dest: in_set_takeD in_set_dropD)
    then show "on_disk crc f t" using node(5) by simp
    show "read_node crc f' r = read_node crc f r" if "r \<in> set (tree_pages t)" for r
      using same [of r] that child_pages_subset [OF mem] child_pages_disjoint [OF node(6,2) t] q by blast
  qed
  moreover have "p \<noteq> ?q" using node(3,6) q by auto
  moreover have "map root_of (ts[?i := put_leaf k v (ts ! ?i)]) = map root_of ts"
    using node(2) by (simp add: map_update map_update_same)
  ultimately show ?case
    unfolding put_leaf_node(1) [OF node(1)] using node(2,5) same [of p] by (auto simp: set_update)
qed

lemma tree_pages_put_leaf [simp]: "tree_pages (put_leaf k v t) = tree_pages t"
proof (induction k v t rule: put_leaf.induct)
  case (1 k v p es)
  then show ?case by simp
next
  case (2 k v p ks ts)
  then show ?case by (simp add: Let_def map_update map_update_same)
qed

lemma chained_frame:
  "chained crc f xs \<Longrightarrow> (\<And>q. q \<in> fst ` set xs \<Longrightarrow> read_node crc f' q = read_node crc f q) \<Longrightarrow>
   chained crc f' xs"
  by (induction xs) auto

lemma btree_holds_frame:
  assumes h: "btree_holds crc b t" and "store_inv f'" and "page_count (bt_pages b) \<le> page_count f'"
    and same: "\<And>j. unat j < page_count (bt_pages b) \<Longrightarrow> j \<in> set (tree_pages t) \<Longrightarrow> read_page crc f' j = read_page crc (bt_pages b) j"
  shows "btree_holds crc (b\<lparr>bt_pages := f'\<rparr>) t"
proof -
  have rd: "read_node crc f' j = read_node crc (bt_pages b) j" if "j \<in> set (tree_pages t)" for j
    using same [OF _ that] that h by (simp add: btree_holds_def read_node_def)
  have "on_disk crc (bt_pages b) t" "chained crc (bt_pages b) (leaves t)" using h by (simp_all add: btree_holds_def)
  then have "on_disk crc f' t" "chained crc f' (leaves t)"
    using rd leaf_pages [of t] by (blast intro: on_disk_frame chained_frame)+
  then show ?thesis using h assms(2,3) by (auto simp: btree_holds_def)
qed

lemma chained_prefix:
  "chained crc f (xs @ (p, es) # post) \<Longrightarrow> chained crc f' ((p, es') # post') \<Longrightarrow>
   (\<And>q. q \<in> fst ` set xs \<Longrightarrow> read_node crc f' q = read_node crc f q) \<Longrightarrow>
   chained crc f' (xs @ (p, es') # post')"
proof (induction xs)
  case Nil
  then show ?case by simp
next
  case (Cons x xs)
  obtain q es0 where x: "x = (q, es0)" by fastforce
  have "(case xs @ (p, es) # post of [] \<Rightarrow> None | (q, _) # _ \<Rightarrow> Some q) =
      (case xs @ (p, es') # post' of [] \<Rightarrow> None | (q, _) # _ \<Rightarrow> Some q)"
    by (cases xs) auto
  with Cons x show ?case by (simp del: chained.simps add: chained.simps(2))
qed

lemma chained_update:
  assumes "chained crc f (pre @ (p, es) # post)"
    and "\<And>q. q \<in> fst ` set (pre @ post) \<Longrightarrow> read_node crc f' q = read_node crc f q"
    and "read_node crc f p = Ok (NodeLeaf l)" and "read_node crc f' p = Ok (NodeLeaf l')"
    and "l_next l' = l_next l" and "l_keys l' = map fst es'" and "l_values l' = map snd es'"
  shows "chained crc f' (pre @ (p, es') # post)"
proof (rule chained_prefix [OF assms(1)])
  have c: "chained crc f ((p, es) # post)" using chained_append [OF assms(1)] .
  then have "chained crc f post" by simp
  then have "chained crc f' post" by (rule chained_frame) (rule assms(2), force)
  with c show "chained crc f' ((p, es') # post)" using assms(3-7) by auto
qed (rule assms(2), force)

section \<open>Insertion into a leaf with room\<close>

text \<open>A leaf with its entries replaced and its counter adjusted.\<close>

definition with_entries :: "leaf_node \<Rightarrow> (key \<times> page_id) list \<Rightarrow> leaf_node" where
  "with_entries l es = l\<lparr>l_keys := map fst es, l_values := map snd es,
     l_header := (l_header l)\<lparr>nh_key_count := of_nat (length es)\<rparr>\<rparr>"

lemma with_entries_simps [simp]:
  "l_keys (with_entries l es) = map fst es" "l_values (with_entries l es) = map snd es"
  "l_next (with_entries l es) = l_next l"
  "nh_key_count (l_header (with_entries l es)) = of_nat (length es)"
  "nh_parent (l_header (with_entries l es)) = nh_parent (l_header l)"
  "nh_is_leaf (l_header (with_entries l es)) = nh_is_leaf (l_header l)"
  by (simp_all add: with_entries_def)

lemma length_leaf_bytes:
  "l_keys l = map fst es \<Longrightarrow> l_values l = map snd es \<Longrightarrow>
   length (leaf_bytes l) = 2 + length (put_opt (nh_parent (l_header l))) + length (put_opt (l_next l)) +
     length (concat (map put_entry es))"
  by (simp add: leaf_bytes_def zip_map_fst_snd del: length_put_opt)

lemma put_opt_bounds: "1 \<le> length (put_opt q) \<and> length (put_opt q) \<le> 9"
  by (cases q) simp_all

lemma entry_key_bound: "e \<in> set es \<Longrightarrow> 10 + length (fst e) \<le> length (concat (map put_entry es))"
  by (induction es) (auto simp: length_put_entry)

lemma storable_leaf:
  assumes "nh_is_leaf (l_header l)" and "entries_fit es" and "length es < 65536"
    and "nh_key_count (l_header l) = of_nat (length es)" "l_keys l = map fst es" "l_values l = map snd es"
  shows "storable_node (NodeLeaf l)"
proof -
  have "length (fst e) < 65536" if "e \<in> set es" for e
    using entry_key_bound [OF that] assms(2) by (simp add: entries_fit_def MAX_PAYLOAD_def)
  moreover have "length (leaf_bytes l) \<le> MAX_PAYLOAD"
    using length_leaf_bytes [OF assms(5,6)] put_opt_bounds [of "nh_parent (l_header l)"]
      put_opt_bounds [of "l_next l"] assms(2) by (simp add: entries_fit_def del: length_put_opt)
  ultimately show ?thesis using assms by (auto simp: storable_node_def list_all_iff)
qed

lemma storable_with_entries:
  "nh_is_leaf (l_header l) \<Longrightarrow> entries_fit es \<Longrightarrow> length es < 65536 \<Longrightarrow>
   storable_node (NodeLeaf (with_entries l es))"
  by (rule storable_leaf [where es = es]) simp_all

lemma insert_into_leaf_step:
  assumes rd: "read_node crc (bt_pages b) p = Ok (NodeLeaf l)"
    and es: "l_keys l = map fst es" "l_values l = map snd es" and len: "length es < 65535"
  shows "insert_into_leaf crc p k v b =
    (let l' = with_entries l (insert_entry k v es) in
     (if length es < MAX_KEYS
      then sbind (on_pages (write_node crc p (NodeLeaf l'))) (\<lambda>_. lift_result (Ok None))
      else sbind (split_leaf crc p l') (\<lambda>q. lift_result (Ok (Some q)))) b)"
proof -
  have kc: "nh_key_count (l_header l) = of_nat (length es)"
    using read_node_consistent [OF rd] es by simp
  have add: "checked_add (nh_key_count (l_header l)) 1 = (Ok (of_nat (Suc (length es))) :: u16 db_result)"
    using kc len by (simp add: checked_add_def)
  have "insert_sorted (l_keys l) (l_values l) k v =
      Ok (map fst (insert_entry k v es), map snd (insert_entry k v es))"
    unfolding es by (rule insert_sorted_entries)
  then show ?thesis
    by (simp add: insert_into_leaf_def rd add with_entries_def Let_def Suc_le_eq)
qed

text \<open>The same for the whole operation: the record is logged first, then the tree is searched.\<close>

definition logged_insert :: "'u ext_lib \<Rightarrow> key \<Rightarrow> page_id \<Rightarrow> 'u tx_id \<Rightarrow> btree \<Rightarrow> btree" where
  "logged_insert L k v tx b =
     b\<lparr>bt_wal := (bt_wal b)\<lparr>wal_log := wal_log (bt_wal b) @ wal_frame L (WalPut tx BTREE_TABLE_ID k (le64 v))\<rparr>\<rparr>"

lemma logged_insert_simps [simp]:
  "bt_root (logged_insert L k v tx b) = bt_root b" "bt_pages (logged_insert L k v tx b) = bt_pages b"
  by (simp_all add: logged_insert_def)

lemma on_wal_log: "on_wal (log_btree_insert L k v tx) b = (Ok (), logged_insert L k v tx b)"
  by (simp add: on_wal_def log_btree_insert_def wal_append_def is_commit_def logged_insert_def Let_def)

lemma btree_insert_step:
  assumes h: "btree_holds (crc32 L) b t"
  shows "\<exists>l. read_node (crc32 L) (bt_pages b) (fst (leaf_for k t)) = Ok (NodeLeaf l) \<and>
     l_keys l = map fst (snd (leaf_for k t)) \<and> l_values l = map snd (snd (leaf_for k t)) \<and>
     btree_insert L k v tx b =
       (case insert_into_leaf (crc32 L) (fst (leaf_for k t)) k v (logged_insert L k v tx b) of
          (Err e, b) \<Rightarrow> Some (Err e, b)
        | (Panic p, b) \<Rightarrow> Some (Panic p, b)
        | (Ok None, b) \<Rightarrow> Some (Ok (), b)
        | (Ok (Some (left, sep, right)), b) \<Rightarrow> insert_into_parent (crc32 L) left sep right b)"
proof -
  have s: "search_tree t" and d: "on_disk (crc32 L) (bt_pages b) t" and c: "chained (crc32 L) (bt_pages b) (leaves t)"
    and r: "bt_root b = root_of t" and dp: "distinct (tree_pages t)"
    using h by (simp_all add: btree_holds_def)
  obtain pre post where "leaves t = pre @ (fst (leaf_for k t), snd (leaf_for k t)) # post"
    using leaf_for_split [OF s dp, of k v] by auto
  then have "chained (crc32 L) (bt_pages b) ((fst (leaf_for k t), snd (leaf_for k t)) # post)"
    using c chained_append by metis
  then obtain l where "read_node (crc32 L) (bt_pages b) (fst (leaf_for k t)) = Ok (NodeLeaf l)"
      "l_keys l = map fst (snd (leaf_for k t))" "l_values l = map snd (snd (leaf_for k t))"
    unfolding chained.simps by blast
  moreover have "find_leaf (crc32 L) (logged_insert L k v tx b) k = Some (Ok (fst (leaf_for k t)))"
    using find_leaf_leaf_for [OF s d] r by (simp add: find_leaf_def)
  ultimately show ?thesis by (simp add: btree_insert_def on_wal_log)
qed

text \<open>A file in which the extended leaf can be read, and everything else as before, holds the tree with the
  new entry.\<close>

lemma btree_holds_put_leaf:
  assumes h: "btree_holds crc b t"
    and l: "read_node crc (bt_pages b) (fst (leaf_for k t)) = Ok (NodeLeaf l)"
    and rd: "read_node crc f' (fst (leaf_for k t)) = Ok (NodeLeaf (with_entries l (insert_entry k v (snd (leaf_for k t)))))"
    and same: "\<And>j. j \<noteq> fst (leaf_for k t) \<Longrightarrow> j \<in> set (tree_pages t) \<Longrightarrow> read_node crc f' j = read_node crc (bt_pages b) j"
    and f': "store_inv f'" "page_count f' = page_count (bt_pages b)" and root: "bt_root b' = bt_root b"
  shows "btree_holds crc (b'\<lparr>bt_pages := f'\<rparr>) (put_leaf k v t)"
proof -
  let ?p = "fst (leaf_for k t)" and ?es = "snd (leaf_for k t)"
  have s: "search_tree t" and d: "on_disk crc (bt_pages b) t" and c: "chained crc (bt_pages b) (leaves t)"
    and dp: "distinct (tree_pages t)" using h by (simp_all add: btree_holds_def)
  have disk: "on_disk crc f' (put_leaf k v t)"
    by (rule on_disk_put_leaf [OF s d dp]) (use same rd in auto)
  obtain pre post where sp: "leaves t = pre @ (?p, ?es) # post"
      "leaves (put_leaf k v t) = pre @ (?p, insert_entry k v ?es) # post" "?p \<notin> fst ` set (pre @ post)"
    using leaf_for_split [OF s dp, of k v] by auto
  have "chained crc f' (pre @ (?p, insert_entry k v ?es) # post)"
  proof (rule chained_update [where l' = "with_entries l (insert_entry k v ?es)"])
    show "chained crc (bt_pages b) (pre @ (?p, ?es) # post)" using c sp(1) by simp
    show "read_node crc f' q = read_node crc (bt_pages b) q" if "q \<in> fst ` set (pre @ post)" for q
    proof (rule same)
      show "q \<noteq> ?p" using that sp(3) by blast
      show "q \<in> set (tree_pages t)" using that sp(1) leaf_pages [of t] by auto
    qed
  qed (use l rd in simp_all)
  then show ?thesis using h disk search_tree_put_leaf [OF s] f' root sp(2) by (simp add: btree_holds_def)
qed

lemma btree_insert_room:
  assumes h: "btree_holds (crc32 L) b t"
    and room: "length (snd (leaf_for k t)) < MAX_KEYS" "entries_fit (insert_entry k v (snd (leaf_for k t)))"
  shows "\<exists>b'. btree_insert L k v tx b = Some (Ok (), b') \<and> btree_holds (crc32 L) b' (put_leaf k v t) \<and>
     bt_wal b' = bt_wal (logged_insert L k v tx b) \<and> page_count (bt_pages b') = page_count (bt_pages b) \<and>
     (\<forall>j. j \<noteq> fst (leaf_for k t) \<longrightarrow> unat j < page_count (bt_pages b) \<longrightarrow>
        read_page (crc32 L) (bt_pages b') j = read_page (crc32 L) (bt_pages b) j)"
proof -
  let ?p = "fst (leaf_for k t)" and ?es = "snd (leaf_for k t)" and ?crc = "crc32 L"
  have s: "search_tree t" and inv: "store_inv (bt_pages b)"
    and pg: "\<forall>p \<in> set (tree_pages t). unat p < page_count (bt_pages b)"
    using h by (simp_all add: btree_holds_def)
  obtain l where l: "read_node ?crc (bt_pages b) ?p = Ok (NodeLeaf l)" "l_keys l = map fst ?es"
      "l_values l = map snd ?es" and ins: "btree_insert L k v tx b =
       (case insert_into_leaf ?crc ?p k v (logged_insert L k v tx b) of
          (Err e, b) \<Rightarrow> Some (Err e, b)
        | (Panic p, b) \<Rightarrow> Some (Panic p, b)
        | (Ok None, b) \<Rightarrow> Some (Ok (), b)
        | (Ok (Some (left, sep, right)), b) \<Rightarrow> insert_into_parent ?crc left sep right b)"
    using btree_insert_step [OF h, of k v tx] by blast
  let ?l' = "with_entries l (insert_entry k v ?es)"
  have st: "storable_node (NodeLeaf ?l')"
    using room read_node_consistent [OF l(1)] by (intro storable_with_entries) (simp_all add: MAX_KEYS_def)
  have p: "?p \<in> set (tree_pages t)" by (rule leaf_for_page [OF s])
  then have pb: "unat ?p < page_count (bt_pages b)" using pg by blast
  then have pm: "unat ?p < MAX_PAGES" using inv by (simp add: store_inv_def wf_page_file_def)
  obtain f' pg' where f': "write_node ?crc ?p (NodeLeaf ?l') (bt_pages b) = (Ok (), f')" "store_inv f'"
      "page_count f' = page_count (bt_pages b)" "read_page ?crc f' ?p = Ok pg'"
      "ph_type (pg_header pg') = BTreeLeaf" "pg_payload pg' = leaf_bytes ?l'"
      "\<forall>j. j \<noteq> ?p \<longrightarrow> unat j < page_count (bt_pages b) \<longrightarrow> read_page ?crc f' j = read_page ?crc (bt_pages b) j"
    using write_node_page [OF inv st, of ?p ?crc] pb pm by (auto simp: max_def split: if_splits)
  let ?b' = "(logged_insert L k v tx b)\<lparr>bt_pages := f'\<rparr>"
  have rd: "read_node ?crc f' ?p = Ok (NodeLeaf ?l')"
    using st f'(4-6) by (intro read_node_page) (auto simp: storable_node_def)
  have same: "read_node ?crc f' j = read_node ?crc (bt_pages b) j" if "j \<noteq> ?p" "j \<in> set (tree_pages t)" for j
    using f'(7) that pg by (simp add: read_node_def)
  have "insert_into_leaf ?crc ?p k v (logged_insert L k v tx b) = (Ok None, ?b')"
    using insert_into_leaf_step [of ?crc "logged_insert L k v tx b" ?p l ?es k v] l room(1) f'(1)
    by (simp add: sbind_def on_pages_def lift_result_def MAX_KEYS_def)
  then have res: "btree_insert L k v tx b = Some (Ok (), ?b')" by (simp add: ins)
  have "btree_holds ?crc ?b' (put_leaf k v t)"
    by (rule btree_holds_put_leaf [OF h l(1) rd same f'(2,3)]) simp_all
  with res f'(3,7) show ?thesis by auto
qed

text \<open>C9. While the leaf found for the key has room, insertion implements the abstract insertion: it
  returns success, the file holds the tree with the new entry, and lookups see it.  A key that was
  absent is bound to the new page; a key that was present keeps its first page, since the new entry
  is placed behind the old one.\<close>

theorem btree_insert_refines:
  assumes "btree_holds (crc32 L) b t"
    and "length (snd (leaf_for k t)) < MAX_KEYS" "entries_fit (insert_entry k v (snd (leaf_for k t)))"
  shows "\<exists>b'. btree_insert L k v tx b = Some (Ok (), b') \<and> btree_holds (crc32 L) b' (put_leaf k v t) \<and>
     (\<forall>k'. btree_get (crc32 L) b' k' =
        (if k' = k \<and> btree_get (crc32 L) b k = Some (Ok None) then Some (Ok (Some v))
         else btree_get (crc32 L) b k'))"
proof -
  obtain b' where b': "btree_insert L k v tx b = Some (Ok (), b')" "btree_holds (crc32 L) b' (put_leaf k v t)"
    using btree_insert_room [OF assms] by blast
  have "search_tree t" using assms(1) by (simp add: btree_holds_def)
  with b' show ?thesis by (auto simp: btree_get_holds [OF assms(1)] btree_get_holds [OF b'(2)] map_of_put_leaf)
qed

lemma sample_btree: "\<exists>b. btree_holds crc b sample_tree"
proof -
  obtain b :: btree where "store_inv (bt_pages b)" "page_count (bt_pages b) = 4" "bt_root b = root_of sample_tree"
      "on_disk crc (bt_pages b) sample_tree" "chained crc (bt_pages b) (leaves sample_tree)"
    using sample_tree_on_disk [of crc] sample_tree_root by auto
  then have "btree_holds crc b sample_tree"
    using sample_tree_search by (simp add: btree_holds_def) (simp add: sample_tree_def)
  then show ?thesis by blast
qed

theorem btree_insert_refines_witness:
  "\<exists>b b'. btree_holds (crc32 sample_lib) b sample_tree \<and>
     btree_insert sample_lib [4] 77 (TxId 1) b = Some (Ok (), b') \<and>
     btree_get (crc32 sample_lib) b' [4] = Some (Ok (Some 77)) \<and>
     btree_get (crc32 sample_lib) b' [3] = Some (Ok (Some 41))"
proof -
  obtain b where b: "btree_holds (crc32 sample_lib) b sample_tree" using sample_btree by blast
  have lf: "leaf_for [4] sample_tree = (2, [([1], 40), ([3], 41)])"
    by (simp add: sample_tree_def find_child_def)
  obtain b' where b': "btree_insert sample_lib [4] 77 (TxId 1) b = Some (Ok (), b')"
      "\<forall>k'. btree_get (crc32 sample_lib) b' k' =
        (if k' = [4] \<and> btree_get (crc32 sample_lib) b [4] = Some (Ok None) then Some (Ok (Some 77))
         else btree_get (crc32 sample_lib) b k')"
    using btree_insert_refines [OF b, of "[4]" 77 "TxId 1"] lf
    by (auto simp: MAX_KEYS_def entries_fit_def size_insert_entry length_put_entry MAX_PAYLOAD_def)
  have "btree_get (crc32 sample_lib) b [4] = Some (Ok None)" "btree_get (crc32 sample_lib) b [3] = Some (Ok (Some 41))"
    unfolding btree_get_holds [OF b] by (simp_all add: sample_tree_def)
  with b b' show ?thesis by auto
qed

section \<open>The empty tree\<close>

lemma btree_new_holds:
  assumes "store_inv f" and "page_count f < MAX_PAGES"
  shows "\<exists>b. btree_new crc f w = Ok b \<and> btree_holds crc b (BLeaf (of_nat (page_count f)) []) \<and>
     bt_wal b = w \<and> page_count (bt_pages b) = Suc (page_count f) \<and>
     (\<forall>j. unat j < page_count f \<longrightarrow> read_node crc (bt_pages b) j = read_node crc f j)"
proof -
  have st: "storable_node (NodeLeaf empty_leaf)"
    by (simp add: storable_node_def empty_leaf_def leaf_bytes_def)
  let ?p = "of_nat (page_count f) :: page_id"
  obtain f' where f': "sbind allocate_page (\<lambda>root. sbind (write_node crc root (NodeLeaf empty_leaf))
        (\<lambda>_ f. (Ok root, f))) f = (Ok ?p, f')" "store_inv f'" "page_count f' = Suc (page_count f)"
      "read_node crc f' ?p = Ok (NodeLeaf empty_leaf)"
      "\<forall>j. unat j < page_count f \<longrightarrow> read_node crc f' j = read_node crc f j"
    using node_pages.alloc_then_write [OF assms st, of crc] by auto
  let ?b = "\<lparr>bt_root = ?p, bt_pages = f', bt_wal = w\<rparr>"
  have "unat ?p = page_count f" by (rule node_pages.unat_count [OF assms])
  then have "btree_holds crc ?b (BLeaf ?p [])"
    using f' by (simp add: btree_holds_def empty_leaf_def)
  with f' show ?thesis by - (rule exI [of _ ?b], simp add: btree_new_def)
qed

text \<open>Creating a tree on a page file allocates one page, writes an empty leaf to it and returns a
  tree without entries; no other page of the file changes.\<close>

lemma btree_new_empty:
  assumes "store_inv f" and "page_count f < MAX_PAGES"
  shows "\<exists>b. btree_new crc f w = Ok b \<and> btree_holds crc b (BLeaf (of_nat (page_count f)) []) \<and>
     bt_wal b = w \<and> (\<forall>k. btree_get crc b k = Some (Ok None)) \<and>
     (\<forall>j. unat j < page_count f \<longrightarrow> read_node crc (bt_pages b) j = read_node crc f j)"
proof -
  obtain b where b: "btree_new crc f w = Ok b" "btree_holds crc b (BLeaf (of_nat (page_count f)) [])" "bt_wal b = w"
      "\<forall>j. unat j < page_count f \<longrightarrow> read_node crc (bt_pages b) j = read_node crc f j"
    using btree_new_holds [OF assms] by blast
  with btree_get_holds [OF b(2)] show ?thesis by simp
qed

section \<open>A leaf that is full in bytes\<close>

text \<open>C32. The split is triggered by the number of keys only.  A leaf with fewer than 128 keys whose
  encoding no longer fits a page is not split: the insertion fails with a corruption error, and the
  tree is unchanged, but the record of the insertion is in the log.\<close>

theorem btree_insert_bytes_overflow:
  assumes h: "btree_holds (crc32 L) b t" and "length (snd (leaf_for k t)) < MAX_KEYS"
    and big: "MAX_PAYLOAD < 4 + length (concat (map put_entry (insert_entry k v (snd (leaf_for k t)))))"
  shows "\<exists>b'. btree_insert L k v tx b = Some (Err (Corruption ''Page payload overflow''), b') \<and>
     bt_pages b' = bt_pages b \<and> bt_root b' = bt_root b \<and>
     wal_log (bt_wal b') = wal_log (bt_wal b) @ wal_frame L (WalPut tx BTREE_TABLE_ID k (le64 v))"
proof -
  let ?p = "fst (leaf_for k t)" and ?es = "snd (leaf_for k t)" and ?crc = "crc32 L"
  obtain l where l: "read_node ?crc (bt_pages b) ?p = Ok (NodeLeaf l)" "l_keys l = map fst ?es"
      "l_values l = map snd ?es" and ins: "btree_insert L k v tx b =
       (case insert_into_leaf ?crc ?p k v (logged_insert L k v tx b) of
          (Err e, b) \<Rightarrow> Some (Err e, b)
        | (Panic p, b) \<Rightarrow> Some (Panic p, b)
        | (Ok None, b) \<Rightarrow> Some (Ok (), b)
        | (Ok (Some (left, sep, right)), b) \<Rightarrow> insert_into_parent ?crc left sep right b)"
    using btree_insert_step [OF h, of k v tx] by blast
  let ?l' = "with_entries l (insert_entry k v ?es)"
  have "MAX_PAYLOAD < length (leaf_bytes ?l')"
    using big length_leaf_bytes [of ?l' "insert_entry k v ?es"] put_opt_bounds [of "nh_parent (l_header ?l')"]
      put_opt_bounds [of "l_next ?l'"] by (simp del: length_put_opt with_entries_simps(3,5))
  moreover have "unat ?p < MAX_PAGES"
    using h leaf_for_page [of t k] by (force simp: btree_holds_def store_inv_def wf_page_file_def)
  ultimately have "write_node ?crc ?p (NodeLeaf ?l') (bt_pages b) =
      (Err (Corruption ''Page payload overflow''), bt_pages b)"
    by (auto simp: write_node_def serialize_btree_def leaf_bytes_def Let_def page_new_def
        intro!: write_page_too_large)
  then have "insert_into_leaf ?crc ?p k v (logged_insert L k v tx b) =
      (Err (Corruption ''Page payload overflow''), logged_insert L k v tx b)"
    using insert_into_leaf_step [of ?crc "logged_insert L k v tx b" ?p l ?es k v] l assms(2)
    by (simp add: sbind_def on_pages_def MAX_KEYS_def logged_insert_def)
  then show ?thesis by (simp add: ins) (simp add: logged_insert_def)
qed

theorem btree_insert_bytes_overflow_witness:
  "\<exists>b b'. btree_holds (crc32 sample_lib) b sample_tree \<and>
     btree_insert sample_lib (replicate 4051 4) 77 (TxId 1) b =
       Some (Err (Corruption ''Page payload overflow''), b') \<and> bt_pages b' = bt_pages b"
proof -
  obtain b where b: "btree_holds (crc32 sample_lib) b sample_tree" using sample_btree by blast
  have "length (snd (leaf_for (replicate 4051 4) sample_tree)) \<le> 2"
    by (auto simp: sample_tree_def Let_def nth_Cons split: nat.splits)
  then show ?thesis
    using btree_insert_bytes_overflow [OF b, of "replicate 4051 4" 77 "TxId 1"] b
    by (auto simp: MAX_KEYS_def MAX_PAYLOAD_def size_insert_entry)
qed

end
