(* ===== verification/Btree_Split.thy ===== *)
theory Btree_Split
  imports Btree_Insert
begin

text \<open>
  The split of a leaf and the growth of the tree by a new root, \<^verbatim>\<open>split_leaf\<close> and \<^verbatim>\<open>new_root\<close> of
  \<^verbatim>\<open>sabi-storage/src/btree.rs\<close>.  The split itself distributes the entries as it should; making the
  two halves children of the new root goes through \<^verbatim>\<open>set_parent\<close>, which damages both of them.
\<close>

lemma write_parent_header: "write_parent p q = Ok p' \<Longrightarrow> pg_header p' = pg_header p"
  by (auto simp: write_parent_def Let_def split: if_splits)

lemma set_parent_effect:
  assumes "store_inv f" and "unat i < page_count f" and "read_page crc f i = Ok p"
    and "ph_page_id (pg_header p) = i" and "write_parent p q = Ok p'" and "length (pg_payload p') \<le> MAX_PAYLOAD"
  shows "\<exists>f'. set_parent crc i q f = (Ok (), f') \<and> store_inv f' \<and> page_count f' = page_count f \<and>
     read_page crc f' i = Ok (page_stored p') \<and>
     (\<forall>j. j \<noteq> i \<longrightarrow> unat j < page_count f \<longrightarrow> read_page crc f' j = read_page crc f j)"
proof -
  have "unat i < MAX_PAGES" using assms(1,2) by (simp add: store_inv_def wf_page_file_def)
  then show ?thesis
    using write_page_store [of f p' crc] write_parent_header [OF assms(5)] assms
    by (auto simp: set_parent_def max_def split: if_splits)
qed

section \<open>Splitting a leaf\<close>

lemma split_leaf_effect:
  assumes inv: "store_inv (bt_pages b)" and cnt: "page_count (bt_pages b) < MAX_PAGES"
    and p: "unat p < page_count (bt_pages b)" and l: "nh_is_leaf (l_header l)" "l_keys l = map fst es"
      "l_values l = map snd es" "l_next l = nx"
    and len: "0 < length es" "length es < 65536"
    and fit: "entries_fit (take (length es div 2) es)" "entries_fit (drop (length es div 2) es)"
    and r: "r = of_nat (page_count (bt_pages b))"
  shows "\<exists>f' pl pr. split_leaf crc p l b = (Ok (p, fst (es ! (length es div 2)), r), b\<lparr>bt_pages := f'\<rparr>) \<and>
     store_inv f' \<and> page_count f' = Suc (page_count (bt_pages b)) \<and>
     read_page crc f' p = Ok pl \<and> ph_page_id (pg_header pl) = p \<and> ph_type (pg_header pl) = BTreeLeaf \<and>
     pg_payload pl = leaf_bytes (with_entries (l\<lparr>l_next := Some r\<rparr>) (take (length es div 2) es)) \<and>
     read_page crc f' r = Ok pr \<and> ph_page_id (pg_header pr) = r \<and> ph_type (pg_header pr) = BTreeLeaf \<and>
     pg_payload pr = leaf_bytes (with_entries l (drop (length es div 2) es)) \<and>
     (\<forall>j. j \<noteq> p \<longrightarrow> unat j < page_count (bt_pages b) \<longrightarrow> read_page crc f' j = read_page crc (bt_pages b) j)"
proof -
  let ?mid = "length es div 2"
  let ?left = "with_entries (l\<lparr>l_next := Some r\<rparr>) (take ?mid es)" and ?right = "with_entries l (drop ?mid es)"
  have mid: "?mid < length es" using len(1) by simp
  have ur: "unat r = page_count (bt_pages b)" unfolding r by (rule node_pages.unat_count [OF inv cnt])
  have st: "storable_node (NodeLeaf ?left)" "storable_node (NodeLeaf ?right)"
    using l fit len by (auto intro!: storable_with_entries)
  obtain f1 pl where f1: "write_node crc p (NodeLeaf ?left) (bt_pages b) = (Ok (), f1)" "store_inv f1"
      "page_count f1 = page_count (bt_pages b)" "read_page crc f1 p = Ok pl" "ph_page_id (pg_header pl) = p"
      "ph_type (pg_header pl) = BTreeLeaf" "pg_payload pl = leaf_bytes ?left"
      "\<forall>j. j \<noteq> p \<longrightarrow> unat j < page_count (bt_pages b) \<longrightarrow> read_page crc f1 j = read_page crc (bt_pages b) j"
    using write_node_page [OF inv st(1), of p crc] p cnt by (auto simp: max_def split: if_splits)
  obtain f2 pr where f2: "write_node crc r (NodeLeaf ?right) f1 = (Ok (), f2)" "store_inv f2"
      "page_count f2 = Suc (page_count (bt_pages b))" "read_page crc f2 r = Ok pr" "ph_page_id (pg_header pr) = r"
      "ph_type (pg_header pr) = BTreeLeaf" "pg_payload pr = leaf_bytes ?right"
      "\<forall>j. j \<noteq> r \<longrightarrow> unat j < page_count f1 \<longrightarrow> read_page crc f2 j = read_page crc f1 j"
    using write_node_page [OF f1(2) st(2), of r crc] ur cnt f1(3) by auto
  have "p \<noteq> r" using p ur by auto
  then have "read_page crc f2 p = Ok pl" using f2(8) f1(3,4) p by simp
  moreover have "\<lparr>l_header = \<lparr>nh_is_leaf = True, nh_key_count = of_nat (length es - ?mid),
      nh_parent = nh_parent (l_header l)\<rparr>, l_next = nx, l_keys = drop ?mid (map fst es),
      l_values = drop ?mid (map snd es)\<rparr> = ?right"
    using l by (cases l; cases "l_header l") (simp add: with_entries_def drop_map)
  moreover have "l\<lparr>l_keys := take ?mid (map fst es), l_values := take ?mid (map snd es), l_next := Some r,
      l_header := (l_header l)\<lparr>nh_key_count := of_nat ?mid\<rparr>\<rparr> = ?left"
    using mid by (cases l; cases "l_header l") (simp add: with_entries_def take_map min_def)
  ultimately have "split_leaf crc p l b = (Ok (p, fst (es ! ?mid), r), b\<lparr>bt_pages := f2\<rparr>)"
    using l mid f1(1) f2(1) allocate_page_count [OF inv]
    by (simp add: split_leaf_def Let_def sbind_def on_pages_def lift_result_def r)
  moreover have "read_page crc f2 j = read_page crc (bt_pages b) j"
    if "j \<noteq> p" "unat j < page_count (bt_pages b)" for j
  proof -
    have "j \<noteq> r" using that(2) ur by auto
    with that f1(3,8) f2(8) show ?thesis by simp
  qed
  ultimately show ?thesis using f1 f2 \<open>read_page crc f2 p = Ok pl\<close> by blast
qed

section \<open>A new root\<close>

lemma new_root_effect:
  assumes inv: "store_inv (bt_pages b)" and cnt: "page_count (bt_pages b) < MAX_PAGES"
    and p: "unat p < page_count (bt_pages b)" "unat r < page_count (bt_pages b)" "p \<noteq> r"
    and root: "root = of_nat (page_count (bt_pages b))"
    and pl: "read_page crc (bt_pages b) p = Ok pl" "ph_page_id (pg_header pl) = p"
      "write_parent pl root = Ok pl'" "length (pg_payload pl') \<le> MAX_PAYLOAD"
    and pr: "read_page crc (bt_pages b) r = Ok pr" "ph_page_id (pg_header pr) = r"
      "write_parent pr root = Ok pr'" "length (pg_payload pr') \<le> MAX_PAYLOAD"
    and k: "length k \<le> 4000"
  shows "\<exists>f'. new_root crc p k r b = (Ok (), b\<lparr>bt_pages := f', bt_root := root\<rparr>) \<and>
     read_node crc f' root = Ok (NodeInternal \<lparr>i_header = \<lparr>nh_is_leaf = False, nh_key_count = 1,
       nh_parent = None\<rparr>, i_keys = [k], i_children = [p, r]\<rparr>) \<and>
     read_page crc f' p = Ok (page_stored pl') \<and> read_page crc f' r = Ok (page_stored pr')"
proof -
  let ?n = "NodeInternal \<lparr>i_header = \<lparr>nh_is_leaf = False, nh_key_count = 1, nh_parent = None\<rparr>,
    i_keys = [k], i_children = [p, r]\<rparr>"
  have ur: "unat root = page_count (bt_pages b)" unfolding root by (rule node_pages.unat_count [OF inv cnt])
  have st: "storable_node ?n"
    using k by (simp add: storable_node_def internal_bytes_def length_put_entry MAX_PAYLOAD_def)
  obtain f1 where f1: "set_parent crc p root (bt_pages b) = (Ok (), f1)" "store_inv f1"
      "page_count f1 = page_count (bt_pages b)" "read_page crc f1 p = Ok (page_stored pl')"
      "read_page crc f1 r = Ok pr"
    using set_parent_effect [OF inv p(1) pl] p(2,3) pr(1) by auto
  obtain f2 where f2: "set_parent crc r root f1 = (Ok (), f2)" "store_inv f2"
      "page_count f2 = page_count (bt_pages b)" "read_page crc f2 p = Ok (page_stored pl')"
      "read_page crc f2 r = Ok (page_stored pr')"
    using set_parent_effect [OF f1(2) _ f1(5) pr(2-4)] p f1(3,4) by auto
  obtain f3 q where f3: "write_node crc root ?n f2 = (Ok (), f3)" "read_page crc f3 root = Ok q"
      "ph_type (pg_header q) = node_type ?n" "pg_payload q = node_bytes ?n"
      "\<forall>j. j \<noteq> root \<longrightarrow> unat j < page_count f2 \<longrightarrow> read_page crc f3 j = read_page crc f2 j"
    using write_node_page [OF f2(2) st, of root crc] ur cnt f2(3) by auto
  have "read_node crc f3 root = Ok ?n"
    using read_node_page [OF f3(2) _ f3(3,4)] st by (simp add: storable_node_def)
  moreover have "p \<noteq> root" "r \<noteq> root" using p ur by auto
  then have "read_page crc f3 p = Ok (page_stored pl')" "read_page crc f3 r = Ok (page_stored pr')"
    using f3(5) f2(3-5) p by auto
  moreover have "new_root crc p k r b = (Ok (), b\<lparr>bt_pages := f3, bt_root := root\<rparr>)"
    using f1(1) f2(1) f3(1) allocate_page_count [OF inv]
    by (simp add: new_root_def Let_def sbind_def on_pages_def root)
  ultimately show ?thesis by blast
qed

lemma insert_into_parent_root:
  assumes "read_page crc (bt_pages b) p = Ok pl" and "read_parent pl = None"
    and "new_root crc p k r b = (Ok (), b')"
  shows "insert_into_parent crc p k r b = Some (Ok (), b')"
  using assms
  by (simp add: insert_into_parent.simps [of _ p] insert_parent_step_def parent_of_def sbind_def lift_result_def)

section \<open>The split of the root leaf\<close>

text \<open>A leaf re-parented by \<open>write_parent\<close> while its parent and successor are absent does not decode
  to its entries.\<close>

lemma reparented_leaf_damaged:
  assumes wf: "wf_node (NodeLeaf l)" and par: "nh_parent (l_header l) = None" and keys: "l_keys l \<noteq> []"
    and nx: "l_next l = None" and p: "ph_type (pg_header p) = BTreeLeaf" "pg_payload p = leaf_bytes l"
  shows "\<exists>p'. write_parent p q = Ok p' \<and> length (pg_payload p') \<le> length (pg_payload p) \<and>
     (\<forall>l'. deserialize_btree p' = Ok (NodeLeaf l') \<longrightarrow>
        \<not> (l_keys l' = l_keys l \<and> l_values l' = l_values l))"
proof -
  let ?n = "NodeLeaf l"
  have body: "8 \<le> length (node_body ?n)" using wf keys by (intro length_body) simp_all
  let ?p' = "p\<lparr>pg_payload := le16 (node_key_count ?n) @ (1 # le64 q) @ drop 8 (node_body ?n)\<rparr>"
  have w: "write_parent p q = Ok ?p'" using write_parent_absent [of ?n p q] par p body by simp
  have len: "length (pg_payload p) = 3 + length (node_body ?n)"
    using p(2) par by (simp add: leaf_bytes_def put_opt_def)
  have opt: "get_opt (pg_payload ?p') 2 = (Some q, 11)"
    using get_put_opt [of "pg_payload ?p'" 2 "Some q"] at_cursor_self [of "le16 (node_key_count ?n)" "1 # le64 q"]
    by (simp add: put_opt_def)
  have "False" if d: "deserialize_btree ?p' = Ok (NodeLeaf l')" and eq: "l_keys l' = l_keys l" "l_values l' = l_values l" for l'
  proof -
    have "nh_parent (l_header l') = Some q" using d opt by (cases rule: deserialize_btree_cases) auto
    moreover have "length (leaf_bytes l') \<le> length (pg_payload ?p')"
      using deserialize_btree_size [OF d] keys eq by simp
    ultimately show False using body eq nx by (simp add: leaf_bytes_def put_opt_def)
  qed
  moreover have "length (pg_payload ?p') \<le> length (pg_payload p)" unfolding len using body by simp
  ultimately show ?thesis using w by blast
qed

lemma deserialize_page_stored [simp]: "deserialize_btree (page_stored p) = deserialize_btree p"
  by (simp add: deserialize_btree_def)

text \<open>The parent pointer read in place is the one a decoded node has.\<close>

lemma parent_of_node:
  assumes "read_node crc f p = Ok n"
  shows "parent_of crc f p = Ok (node_parent n)"
proof -
  obtain pg where pg: "read_page crc f p = Ok pg" "deserialize_btree pg = Ok n"
    using assms by (auto simp: read_node_def rbind_Ok_iff)
  from pg(2) have "read_parent pg = node_parent n"
  proof (cases rule: deserialize_btree_cases)
    case (leaf kc par c nxt c' es c'')
    then show ?thesis by (auto simp: read_parent_def get_opt_def split: if_splits)
  next
    case (internal kc par c child es c'')
    then show ?thesis by (auto simp: read_parent_def get_opt_def split: if_splits)
  qed
  with pg(1) show ?thesis by (simp add: parent_of_def)
qed

lemma range_one_leaf:
  assumes "read_node crc (bt_pages b) (bt_root b) = Ok (NodeInternal i)" "i_keys i = [sep]" "i_children i = [p, r]"
    and "read_node crc (bt_pages b) p = Ok (NodeLeaf l)" "l_next l = None" "l_keys l = map fst es" "l_values l = map snd es"
    and "lo < sep"
  shows "btree_range crc b lo hi = Some (Ok (filter (in_range lo hi) es))"
proof -
  have "find_leaf_loop crc (bt_pages b) lo (bt_root b) = find_leaf_loop crc (bt_pages b) lo p"
    using assms(1-3,8) by (simp add: find_leaf_loop.simps [of _ _ _ "bt_root b"] find_child_def)
  then have "find_leaf crc b lo = Some (Ok p)"
    using assms(4) by (simp add: find_leaf_def find_leaf_loop.simps [of _ _ _ p])
  then show ?thesis
    using assms(4-7) by (simp add: btree_range_def range_loop.simps [of _ _ _ _ p] zip_map_fst_snd)
qed

text \<open>Growing the tree above two fresh halves: the left one loses its link, the right one its
  entries.\<close>

lemma insert_into_parent_halves:
  assumes inv: "store_inv (bt_pages b)" and cnt: "page_count (bt_pages b) < MAX_PAGES"
    and p: "unat p < page_count (bt_pages b)" "unat r < page_count (bt_pages b)" "p \<noteq> r"
    and ll: "storable_node (NodeLeaf ll)" "nh_parent (l_header ll) = None" "l_next ll = Some r"
    and lr: "storable_node (NodeLeaf lr)" "nh_parent (l_header lr) = None" "l_next lr = None" "l_keys lr \<noteq> []"
    and pl: "read_page crc (bt_pages b) p = Ok pl" "ph_page_id (pg_header pl) = p" "ph_type (pg_header pl) = BTreeLeaf"
      "pg_payload pl = leaf_bytes ll"
    and pr: "read_page crc (bt_pages b) r = Ok pr" "ph_page_id (pg_header pr) = r" "ph_type (pg_header pr) = BTreeLeaf"
      "pg_payload pr = leaf_bytes lr"
    and k: "length k \<le> 4000"
  shows "\<exists>b' i ll'. insert_into_parent crc p k r b = Some (Ok (), b') \<and>
     read_node crc (bt_pages b') (bt_root b') = Ok (NodeInternal i) \<and> i_keys i = [k] \<and> i_children i = [p, r] \<and>
     read_node crc (bt_pages b') p = Ok (NodeLeaf ll') \<and> l_next ll' = None \<and>
     l_keys ll' = l_keys ll \<and> l_values ll' = l_values ll \<and>
     (\<forall>lr'. read_node crc (bt_pages b') r = Ok (NodeLeaf lr') \<longrightarrow>
        \<not> (l_keys lr' = l_keys lr \<and> l_values lr' = l_values lr))"
proof -
  let ?root = "of_nat (page_count (bt_pages b)) :: page_id"
  have "unat r < 2 ^ 56" using p(2) cnt by (simp add: MAX_PAGES_def)
  then obtain pl' where pl': "write_parent pl ?root = Ok pl'" "pg_header pl' = pg_header pl"
      "pg_payload pl' = leaf_bytes (ll\<lparr>l_header := (l_header ll)\<lparr>nh_parent := Some ?root\<rparr>, l_next := None\<rparr>)"
      (is "_ = leaf_bytes ?ll'")
    using write_parent_loses_next [of ll r pl ?root] ll pl(3,4) by (auto simp: storable_node_def)
  obtain pr' where pr': "write_parent pr ?root = Ok pr'" "length (pg_payload pr') \<le> length (pg_payload pr)"
      "\<forall>l'. deserialize_btree pr' = Ok (NodeLeaf l') \<longrightarrow> \<not> (l_keys l' = l_keys lr \<and> l_values l' = l_values lr)"
    using reparented_leaf_damaged [of lr pr ?root] lr pr(3,4) by (auto simp: storable_node_def)
  have "length (leaf_bytes ?ll') = length (leaf_bytes ll)"
    using ll(2,3) by (simp add: leaf_bytes_def)
  then have len: "length (pg_payload pl') \<le> MAX_PAYLOAD" "length (pg_payload pr') \<le> MAX_PAYLOAD"
    using pl'(3) pr'(2) pr(4) ll(1) lr(1) by (simp_all add: storable_node_def)
  obtain f' where f': "new_root crc p k r b = (Ok (), b\<lparr>bt_pages := f', bt_root := ?root\<rparr>)"
      "read_node crc f' ?root = Ok (NodeInternal \<lparr>i_header = \<lparr>nh_is_leaf = False, nh_key_count = 1,
        nh_parent = None\<rparr>, i_keys = [k], i_children = [p, r]\<rparr>)"
      "read_page crc f' p = Ok (page_stored pl')" "read_page crc f' r = Ok (page_stored pr')"
    using new_root_effect [OF inv cnt p refl pl(1,2) pl'(1) len(1) pr(1,2) pr'(1) len(2) k] by blast
  have "read_parent pl = None" using read_parent_node [of pl "NodeLeaf ll"] pl(3,4) ll(2) by simp
  from insert_into_parent_root [OF pl(1) this f'(1)]
  have ins: "insert_into_parent crc p k r b = Some (Ok (), b\<lparr>bt_pages := f', bt_root := ?root\<rparr>)" .
  have left: "read_node crc f' p = Ok (NodeLeaf ?ll')"
    using ll(1) pl(3) pl'(2,3) by (intro read_node_page [OF f'(3)]) (simp_all add: storable_node_def)
  have "\<forall>lr'. read_node crc f' r = Ok (NodeLeaf lr') \<longrightarrow> \<not> (l_keys lr' = l_keys lr \<and> l_values lr' = l_values lr)"
    using pr'(3) f'(4) by (simp add: read_node_def)
  then show ?thesis
    using ins f'(2) left
    by - (rule exI [of _ "b\<lparr>bt_pages := f', bt_root := ?root\<rparr>"], rule exI [of _ "\<lparr>i_header =
        \<lparr>nh_is_leaf = False, nh_key_count = 1, nh_parent = None\<rparr>, i_keys = [k], i_children = [p, r]\<rparr>"],
      rule exI [of _ ?ll'], simp)
qed

text \<open>The state after the split of a full root leaf.\<close>

lemma root_split_state:
  fixes es k v
  defines "E \<equiv> insert_entry k v es"
  assumes h: "btree_holds (crc32 L) b (BLeaf p es)" and full: "length es = MAX_KEYS"
    and par: "parent_of (crc32 L) (bt_pages b) p = Ok None"
    and cnt: "Suc (page_count (bt_pages b)) < MAX_PAGES"
    and fit: "entries_fit (take 64 E)" "entries_fit (drop 64 E)" and sep: "length (fst (E ! 64)) \<le> 4000"
    and r: "r = of_nat (page_count (bt_pages b))"
  shows "\<exists>b' i ll. btree_insert L k v tx b = Some (Ok (), b') \<and>
     read_node (crc32 L) (bt_pages b') (bt_root b') = Ok (NodeInternal i) \<and> i_keys i = [fst (E ! 64)] \<and>
     i_children i = [p, r] \<and> read_node (crc32 L) (bt_pages b') p = Ok (NodeLeaf ll) \<and> l_next ll = None \<and>
     l_keys ll = map fst (take 64 E) \<and> l_values ll = map snd (take 64 E) \<and>
     (\<forall>lr. read_node (crc32 L) (bt_pages b') r = Ok (NodeLeaf lr) \<longrightarrow>
        \<not> (l_keys lr = map fst (drop 64 E) \<and> l_values lr = map snd (drop 64 E)))"
proof -
  let ?crc = "crc32 L" and ?b = "logged_insert L k v tx b"
  have inv: "store_inv (bt_pages b)" and p: "unat p < page_count (bt_pages b)"
    using h by (simp_all add: btree_holds_def)
  obtain l where l: "read_node ?crc (bt_pages b) p = Ok (NodeLeaf l)" "l_keys l = map fst es"
      "l_values l = map snd es" "l_next l = None"
    using h by (auto simp: btree_holds_def)
  have leaf: "nh_is_leaf (l_header l)" using read_node_consistent [OF l(1)] by simp
  have lp: "nh_parent (l_header l) = None" using parent_of_node [OF l(1)] par by simp
  let ?l = "with_entries l E"
  let ?left = "with_entries (?l\<lparr>l_next := Some r\<rparr>) (take 64 E)" and ?right = "with_entries ?l (drop 64 E)"
  have E: "length E = 129" "length E div 2 = 64" using full by (simp_all add: E_def MAX_KEYS_def)
  have ur: "unat r = page_count (bt_pages b)"
    unfolding r using cnt by (intro node_pages.unat_count [OF inv]) simp
  obtain f1 pl pr where f1: "split_leaf ?crc p ?l ?b = (Ok (p, fst (E ! 64), r), ?b\<lparr>bt_pages := f1\<rparr>)"
      "store_inv f1" "page_count f1 = Suc (page_count (bt_pages b))"
    and pl: "read_page ?crc f1 p = Ok pl" "ph_page_id (pg_header pl) = p" "ph_type (pg_header pl) = BTreeLeaf"
      "pg_payload pl = leaf_bytes ?left"
    and pr: "read_page ?crc f1 r = Ok pr" "ph_page_id (pg_header pr) = r" "ph_type (pg_header pr) = BTreeLeaf"
      "pg_payload pr = leaf_bytes ?right"
    using split_leaf_effect [of ?b p ?l E None r ?crc] inv cnt p leaf l E fit r by (auto simp: less_imp_le)
  have st: "storable_node (NodeLeaf ?left)" "storable_node (NodeLeaf ?right)"
    using fit leaf E by (auto intro!: storable_with_entries)
  have "p \<noteq> r" using p ur by auto
  then obtain b' i ll where b': "insert_into_parent ?crc p (fst (E ! 64)) r (?b\<lparr>bt_pages := f1\<rparr>) = Some (Ok (), b')"
      "read_node ?crc (bt_pages b') (bt_root b') = Ok (NodeInternal i)" "i_keys i = [fst (E ! 64)]"
      "i_children i = [p, r]" "read_node ?crc (bt_pages b') p = Ok (NodeLeaf ll)" "l_next ll = None"
      "l_keys ll = map fst (take 64 E)" "l_values ll = map snd (take 64 E)"
      "\<forall>lr. read_node ?crc (bt_pages b') r = Ok (NodeLeaf lr) \<longrightarrow>
        \<not> (l_keys lr = map fst (drop 64 E) \<and> l_values lr = map snd (drop 64 E))"
    using insert_into_parent_halves [of "?b\<lparr>bt_pages := f1\<rparr>" p r ?left ?right ?crc pl pr "fst (E ! 64)"]
      f1(2,3) cnt p ur st pl pr sep lp l(4) E(1) by auto
  have "insert_into_leaf ?crc p k v ?b = (Ok (Some (p, fst (E ! 64), r)), ?b\<lparr>bt_pages := f1\<rparr>)"
    using insert_into_leaf_step [of ?crc ?b p l es k v] l full f1(1)
    by (simp add: MAX_KEYS_def sbind_def lift_result_def E_def)
  then have "btree_insert L k v tx b = Some (Ok (), b')"
    using btree_insert_step [OF h, of k v tx] b'(1) by auto
  with b' show ?thesis by blast
qed

text \<open>C14. The insertion of the 129th entry reports success but damages the tree.  The root leaf is
  split in two halves of 64 and 65 entries below a new root; giving them their parent pointer cuts
  the leaf chain behind the left half, so that every range scan that starts there returns only
  entries of the left half, and overwrites the beginning of the right half, whose entries are never
  read back.\<close>

theorem root_split_damages:
  assumes "btree_holds (crc32 L) b (BLeaf p es)" and "length es = MAX_KEYS"
    and "parent_of (crc32 L) (bt_pages b) p = Ok None" and "Suc (page_count (bt_pages b)) < MAX_PAGES"
    and "entries_fit (take 64 (insert_entry k v es))" and "entries_fit (drop 64 (insert_entry k v es))"
    and "length (fst (insert_entry k v es ! 64)) \<le> 4000"
  shows "\<exists>b'. btree_insert L k v tx b = Some (Ok (), b') \<and>
     (\<forall>lo hi. lo < fst (insert_entry k v es ! 64) \<longrightarrow>
        btree_range (crc32 L) b' lo hi = Some (Ok (filter (in_range lo hi) (take 64 (insert_entry k v es))))) \<and>
     (\<forall>lr. read_node (crc32 L) (bt_pages b') (of_nat (page_count (bt_pages b))) = Ok (NodeLeaf lr) \<longrightarrow>
        \<not> (l_keys lr = map fst (drop 64 (insert_entry k v es)) \<and>
           l_values lr = map snd (drop 64 (insert_entry k v es))))"
proof -
  let ?E = "insert_entry k v es" and ?r = "of_nat (page_count (bt_pages b)) :: page_id" and ?crc = "crc32 L"
  obtain b' i ll where b': "btree_insert L k v tx b = Some (Ok (), b')"
      "read_node ?crc (bt_pages b') (bt_root b') = Ok (NodeInternal i)" "i_keys i = [fst (?E ! 64)]"
      "i_children i = [p, ?r]" "read_node ?crc (bt_pages b') p = Ok (NodeLeaf ll)" "l_next ll = None"
      "l_keys ll = map fst (take 64 ?E)" "l_values ll = map snd (take 64 ?E)"
      "\<forall>lr. read_node ?crc (bt_pages b') ?r = Ok (NodeLeaf lr) \<longrightarrow>
        \<not> (l_keys lr = map fst (drop 64 ?E) \<and> l_values lr = map snd (drop 64 ?E))"
    using root_split_state [OF assms refl] by blast
  with range_one_leaf [OF b'(2-8)] show ?thesis by blast
qed

lemma full_leaf_on_disk:
  fixes es :: "(key \<times> page_id) list"
  assumes "length es = 128" and "sorted (map fst es)" and "entries_fit es"
  shows "\<exists>b. btree_holds crc b (BLeaf 1 es) \<and> parent_of crc (bt_pages b) 1 = Ok None \<and> page_count (bt_pages b) = 2"
proof -
  let ?l = "with_entries empty_leaf es"
  have st: "storable_node (NodeLeaf ?l)"
    using assms by (intro storable_with_entries) (simp_all add: empty_leaf_def)
  obtain f p where f: "store_inv f" "page_count f = 2" "read_page crc f 1 = Ok p" "ph_type (pg_header p) = BTreeLeaf"
      "pg_payload p = leaf_bytes ?l"
    using write_node_page [OF sample_file_inv st, of 1 crc] sample_file_wf(2) by (auto simp: MAX_PAGES_def)
  have "read_node crc f 1 = Ok (NodeLeaf ?l)"
    using st f(4,5) by (intro read_node_page [OF f(3)]) (simp_all add: storable_node_def)
  then have "btree_holds crc \<lparr>bt_root = 1, bt_pages = f, bt_wal = \<lparr>wal_log = [], wal_synced = 0\<rparr>\<rparr> (BLeaf 1 es)"
    using f assms(2) by (simp add: btree_holds_def) (simp add: empty_leaf_def)
  moreover have "parent_of crc f 1 = Ok None"
    using f read_parent_node [of p "NodeLeaf ?l"] by (simp add: parent_of_def) (simp add: empty_leaf_def)
  ultimately show ?thesis using f(2) by (metis btree.select_convs(2))
qed

theorem root_split_damages_witness:
  "\<exists>b b'. btree_holds (crc32 sample_lib) b (BLeaf 1 (replicate 128 ([7], 40))) \<and>
     btree_insert sample_lib [9] 50 (TxId 1) b = Some (Ok (), b') \<and>
     btree_range (crc32 sample_lib) b' [1] [9] = Some (Ok (replicate 64 ([7], 40)))"
proof -
  let ?es = "replicate 128 ([7], 40) :: (key \<times> page_id) list"
  have fit: "entries_fit ?es"
    by (simp add: entries_fit_def length_concat sum_list_replicate length_put_entry MAX_PAYLOAD_def)
  obtain b where b: "btree_holds (crc32 sample_lib) b (BLeaf 1 ?es)" "parent_of (crc32 sample_lib) (bt_pages b) 1 = Ok None"
      "page_count (bt_pages b) = 2"
    using full_leaf_on_disk [of ?es "crc32 sample_lib"] fit by auto
  have "position (\<lambda>k'. [9] < k') (map fst ?es) = None" by (simp add: position_None_iff)
  then have E: "insert_entry [9] 50 ?es = ?es @ [([9], 50)]" by (simp add: insert_entry_def find_child_def)
  have h: "entries_fit (take 64 (?es @ [([9], 50)]))" "entries_fit (drop 64 (?es @ [([9], 50)]))"
    by (simp_all add: entries_fit_def length_concat sum_list_replicate length_put_entry MAX_PAYLOAD_def)
  obtain b' where b': "btree_insert sample_lib [9] 50 (TxId 1) b = Some (Ok (), b')"
      "\<forall>lo hi. lo < fst ((?es @ [([9], 50)]) ! 64) \<longrightarrow> btree_range (crc32 sample_lib) b' lo hi =
        Some (Ok (filter (in_range lo hi) (take 64 (?es @ [([9], 50)]))))"
    using root_split_damages [OF b(1) _ b(2), of "[9]" 50 "TxId 1", unfolded E] h b(3)
    by (auto simp: MAX_KEYS_def MAX_PAGES_def nth_append)
  have "filter (in_range [1] [9]) (replicate 64 ([7], 40)) = replicate 64 ([7], 40 :: page_id)"
    by (simp add: in_range_def filter_replicate)
  with b'(2) [rule_format, of "[1]" "[9]"]
  have "btree_range (crc32 sample_lib) b' [1] [9] = Some (Ok (replicate 64 ([7], 40)))"
    by (simp add: nth_append)
  with b(1) b'(1) show ?thesis by blast
qed

end
