(* ===== verification/Btree_Grow.thy ===== *)
theory Btree_Grow
  imports Btree_Split "HOL-Library.Multiset"
begin

text \<open>
  Insertions that split below an existing parent, and the end of every insertion.  \<open>split_child\<close> is the
  abstract split of the leaf a descent reaches; \<^verbatim>\<open>split_leaf\<close> followed by \<^verbatim>\<open>insert_into_parent\<close> of
  \<^verbatim>\<open>sabi-storage/src/btree.rs\<close> implements it as long as the parent pointer of the leaf is right and the
  parent has room.  The loop of \<^verbatim>\<open>insert_into_parent\<close> ends on every file, whatever its parent
  pointers are: each round leaves one full node less.
\<close>

section \<open>The abstract split\<close>

lemma size_child_node: "i < length ts \<Longrightarrow> ts ! i = BNode q ks' ts' \<Longrightarrow> Suc (size_list size ts') \<le> size_list size ts"
  using size_nth [of i ts] by simp

function split_child :: "key \<Rightarrow> page_id \<Rightarrow> bptree \<Rightarrow> bptree" where
  "split_child k r (BLeaf p es) = BLeaf p es"
| "split_child k r (BNode p ks ts) =
     (let i = find_child ks k in
      if i < length ts then
        case ts ! i of
          BLeaf q es \<Rightarrow>
            let m = length es div 2 in
            BNode p (take i ks @ fst (es ! m) # drop i ks)
              (take i ts @ BLeaf q (take m es) # BLeaf r (drop m es) # drop (Suc i) ts)
        | BNode _ _ _ \<Rightarrow> BNode p ks (ts[i := split_child k r (ts ! i)])
      else BNode p ks ts)"
  by pat_completeness auto
termination
  by (relation "measure (\<lambda>(k, r, t). size t)") (auto simp: less_Suc_eq_le size_child_node)

text \<open>The node above the leaf that a descent reaches: its page, separators and children.\<close>

function parent_for :: "key \<Rightarrow> bptree \<Rightarrow> page_id \<times> key list \<times> page_id list" where
  "parent_for k (BLeaf p es) = (p, [], [])"
| "parent_for k (BNode p ks ts) =
     (let i = find_child ks k in
      if i < length ts then
        case ts ! i of
          BLeaf _ _ \<Rightarrow> (p, ks, map root_of ts)
        | BNode _ _ _ \<Rightarrow> parent_for k (ts ! i)
      else (p, ks, map root_of ts))"
  by pat_completeness auto
termination
  by (relation "measure (\<lambda>(k, t). size t)") (auto simp: less_Suc_eq_le size_child_node)

lemma split_child_above:
  assumes "find_child ks k < length ts" and "ts ! find_child ks k = BLeaf q es"
  shows "split_child k r (BNode p ks ts) =
      BNode p (take (find_child ks k) ks @ fst (es ! (length es div 2)) # drop (find_child ks k) ks)
        (take (find_child ks k) ts @ BLeaf q (take (length es div 2) es) #
           BLeaf r (drop (length es div 2) es) # drop (Suc (find_child ks k)) ts)"
    and "parent_for k (BNode p ks ts) = (p, ks, map root_of ts)"
    and "leaf_for k (BNode p ks ts) = (q, es)"
  using assms by (simp_all add: Let_def)

lemma split_child_node:
  assumes "find_child ks k < length ts" and "ts ! find_child ks k = BNode q ks' ts'"
  shows "split_child k r (BNode p ks ts) = BNode p ks (ts[find_child ks k := split_child k r (BNode q ks' ts')])"
    and "parent_for k (BNode p ks ts) = parent_for k (BNode q ks' ts')"
    and "leaf_for k (BNode p ks ts) = leaf_for k (BNode q ks' ts')"
  using assms by (simp_all add: Let_def)

lemma root_of_split_child [simp]: "root_of (split_child k r t) = root_of t"
  by (cases t) (simp_all add: Let_def split: bptree.splits)

lemma split_induct [consumes 1, case_names above node]:
  assumes "search_tree (BNode p ks ts)"
    and above: "\<And>p ks ts q es. search_tree (BNode p ks ts) \<Longrightarrow> find_child ks k < length ts \<Longrightarrow>
       ts ! find_child ks k = BLeaf q es \<Longrightarrow> P p ks ts"
    and node: "\<And>p ks ts q ks' ts'. search_tree (BNode p ks ts) \<Longrightarrow> find_child ks k < length ts \<Longrightarrow>
       ts ! find_child ks k = BNode q ks' ts' \<Longrightarrow> P q ks' ts' \<Longrightarrow> P p ks ts"
  shows "P p ks ts"
proof -
  have "\<forall>p ks ts. t = BNode p ks ts \<longrightarrow> P p ks ts" if "search_tree t" for t
    using that
  proof (induction rule: put_leaf_induct [where k = k])
    case (node p ks ts)
    show ?case
    proof (cases "ts ! find_child ks k")
      case (BLeaf q es)
      with above [OF node(1,2)] show ?thesis by simp
    next
      case (BNode q ks' ts')
      with assms(3) [OF node(1,2) BNode] node(4) show ?thesis by simp
    qed
  qed simp
  with assms(1) show ?thesis by blast
qed

lemma entries_split_child: "search_tree (BNode p ks ts) \<Longrightarrow> entries (split_child k r (BNode p ks ts)) = entries (BNode p ks ts)"
proof (induction rule: split_induct [where k = k])
  case (above p ks ts q es)
  then show ?case
    unfolding split_child_above(1) [OF above(2,3)] by (simp add: concat_split_nth [OF above(2), of entries])
next
  case (node p ks ts q ks' ts')
  then show ?case
    unfolding split_child_node(1) [OF node(2,3)]
    by (simp add: concat_split_nth [OF node(2), of entries] upd_conv_take_nth_drop)
qed

text \<open>The halves take the place of the leaf in the chain.\<close>

lemma leaves_split_child:
  "search_tree (BNode p ks ts) \<Longrightarrow> leaf_for k (BNode p ks ts) = (q, es) \<Longrightarrow>
   \<exists>pre post. leaves (BNode p ks ts) = pre @ (q, es) # post \<and>
     leaves (split_child k r (BNode p ks ts)) =
       pre @ (q, take (length es div 2) es) # (r, drop (length es div 2) es) # post"
proof (induction rule: split_induct [where k = k])
  case (above p ks ts q' es')
  then have "q' = q" "es' = es" using split_child_above(3) [OF above(2,3)] by auto
  then show ?case
    unfolding split_child_above(1) [OF above(2,3)] using above(3)
    by (intro exI [of _ "concat (map leaves (take (find_child ks k) ts))"]
        exI [of _ "concat (map leaves (drop (Suc (find_child ks k)) ts))"])
      (simp add: concat_split_nth [OF above(2), of leaves])
next
  case (node p ks ts q' ks' ts')
  obtain pre post where ih: "leaves (BNode q' ks' ts') = pre @ (q, es) # post"
      "leaves (split_child k r (BNode q' ks' ts')) =
        pre @ (q, take (length es div 2) es) # (r, drop (length es div 2) es) # post"
    using node(4,5) split_child_node(3) [OF node(2,3)] by metis
  then show ?case
    unfolding split_child_node(1) [OF node(2,3)] using node(2,3)
    by (intro exI [of _ "concat (map leaves (take (find_child ks k) ts)) @ pre"]
        exI [of _ "post @ concat (map leaves (drop (Suc (find_child ks k)) ts))"])
      (simp del: leaves.simps add: leaves.simps(2) [of p] concat_split_nth [OF node(2), of leaves] upd_conv_take_nth_drop)
qed

lemma find_child_of_entry:
  "search_tree (BNode p ks ts) \<Longrightarrow> j < length ts \<Longrightarrow> s \<in> fst ` set (entries (ts ! j)) \<Longrightarrow> find_child ks s = j"
  by (rule ccontr) (metis other_child)

lemma sorted_insert_separator:
  assumes "sorted ks"
  shows "sorted (take (find_child ks s) ks @ s # drop (find_child ks s) ks)"
proof -
  have "x \<le> s" if "x \<in> set (take (find_child ks s) ks)" for x
    using that find_child_below [of _ ks s] by (auto simp: in_set_conv_nth)
  moreover have "s \<le> x" if "x \<in> set (drop (find_child ks s) ks)" for x
    using that find_child_above_le [OF assms, of s] by (auto simp: in_set_conv_nth less_imp_le)
  ultimately show ?thesis
    using assms sorted_append [of "take (find_child ks s) ks" "drop (find_child ks s) ks"]
    by (auto simp: sorted_append)
qed

lemma nth_insert_at:
  "i \<le> length xs \<Longrightarrow> (take i xs @ x # drop i xs) ! j = (if j < i then xs ! j else if j = i then x else xs ! (j - 1))"
  by (auto simp: nth_append nth_Cons' min_def)

lemma nth_split_at:
  "i < length xs \<Longrightarrow> (take i xs @ x # y # drop (Suc i) xs) ! j =
     (if j < i then xs ! j else if j = i then x else if j = Suc i then y else xs ! (j - 1))"
  by (auto simp: nth_append nth_Cons' min_def intro!: arg_cong [where f = "nth xs"])

lemma search_split_node:
  assumes t: "search_tree (BNode p ks ts)" and i: "i < length ts" and es: "entries (ts ! i) = as @ bs"
    and sep: "find_child ks sep = i" "\<forall>e \<in> set as. fst e < sep" "\<forall>e \<in> set bs. sep \<le> fst e"
    and ab: "search_tree ta" "search_tree tb" "entries ta = as" "entries tb = bs"
  shows "search_tree (BNode p (take i ks @ sep # drop i ks) (take i ts @ ta # tb # drop (Suc i) ts))"
    (is "search_tree (BNode p ?ks ?ts)")
proof -
  note len = search_nodeD(1) [OF t]
  have ik: "i \<le> length ks" using i len by simp
  have "(0 < j \<longrightarrow> ?ks ! (j - 1) \<le> k) \<and> (j < length ?ks \<longrightarrow> k < ?ks ! j)"
    if j: "j < length ?ts" and k: "k \<in> fst ` set (entries (?ts ! j))" for j k
  proof -
    have old: "(0 < j' \<longrightarrow> ks ! (j' - 1) \<le> k') \<and> (j' < length ks \<longrightarrow> k' < ks ! j')"
      if "j' < length ts" "k' \<in> fst ` set (entries (ts ! j'))" for j' k'
      using search_nodeD(4,5) [OF t that] by blast
    consider "j < i" | "j = i" | "j = Suc i" | "Suc i < j" by linarith
    then show ?thesis
    proof cases
      case 1
      then have "j - 1 < i" by simp
      with 1 show ?thesis using k old [of j k] i ik unfolding nth_split_at [OF i] nth_insert_at [OF ik] by simp
    next
      case 2
      then have "k \<in> fst ` set as" using k ab(3) i by (simp add: nth_split_at)
      then show ?thesis using 2 old [OF i, of k] es sep(2) unfolding nth_insert_at [OF ik] by auto
    next
      case 3
      then have "k \<in> fst ` set bs" using k ab(4) i by (simp add: nth_split_at)
      then have "k \<in> fst ` set (entries (ts ! i))" "sep \<le> k" using es sep(3) by auto
      with old [OF i, of k] 3 ik show ?thesis unfolding nth_insert_at [OF ik] by simp
    next
      case 4
      then have "j - 1 < length ts" "k \<in> fst ` set (entries (ts ! (j - 1)))"
        using j k i unfolding nth_split_at [OF i] by simp_all
      from old [OF this] 4 show ?thesis using ik unfolding nth_insert_at [OF ik] by auto
    qed
  qed
  moreover have "sorted ?ks" using sorted_insert_separator [OF search_nodeD(2) [OF t], of sep] sep(1) by simp
  moreover have "length ?ts = Suc (length ?ks)" using len i by simp
  moreover have "search_tree t'" if "t' \<in> set ?ts" for t'
    using that ab search_nodeD(3) [OF t] by (auto dest: in_set_takeD in_set_dropD)
  ultimately show ?thesis unfolding search_tree.simps by blast
qed

text \<open>A leaf can be split where its keys change.\<close>

definition split_ok :: "(key \<times> page_id) list \<Rightarrow> bool" where
  "split_ok es \<longleftrightarrow> es \<noteq> [] \<and> (\<forall>e \<in> set (take (length es div 2) es). fst e < fst (es ! (length es div 2)))"

lemma split_ok_drop:
  assumes "split_ok es" and "sorted (map fst es)"
  shows "length es div 2 < length es" and "\<forall>e \<in> set (drop (length es div 2) es). fst (es ! (length es div 2)) \<le> fst e"
    and "fst (es ! (length es div 2)) \<in> fst ` set es"
proof -
  show m: "length es div 2 < length es" using assms(1) by (simp add: split_ok_def)
  then show "fst (es ! (length es div 2)) \<in> fst ` set es" by simp
  show "\<forall>e \<in> set (drop (length es div 2) es). fst (es ! (length es div 2)) \<le> fst e"
  proof
    fix e assume "e \<in> set (drop (length es div 2) es)"
    then obtain j where "j < length es - length es div 2" "e = es ! (length es div 2 + j)"
      by (auto simp: in_set_conv_nth)
    then show "fst (es ! (length es div 2)) \<le> fst e"
      using sorted_nth_mono [OF assms(2), of "length es div 2" "length es div 2 + j"] by simp
  qed
qed

lemma search_tree_split_child:
  "search_tree (BNode p ks ts) \<Longrightarrow> split_ok (snd (leaf_for k (BNode p ks ts))) \<Longrightarrow>
   search_tree (split_child k r (BNode p ks ts))"
proof (induction rule: split_induct [where k = k])
  case (above p ks ts q es)
  let ?i = "find_child ks k" and ?m = "length es div 2"
  have ok: "split_ok es" using above(4) split_child_above(3) [OF above(2,3)] by simp
  have "search_tree (ts ! ?i)" using above(2) search_nodeD(3) [OF above(1)] by simp
  then have so: "sorted (map fst es)" using above(3) by simp
  note d = split_ok_drop [OF ok so]
  have "find_child ks (fst (es ! ?m)) = ?i"
    by (rule find_child_of_entry [OF above(1,2)]) (use d(3) above(3) in simp)
  then show ?case
    unfolding split_child_above(1) [OF above(2,3)]
    using above(1-3) d ok so
    by (intro search_split_node [where as = "take ?m es" and bs = "drop ?m es"])
      (simp_all add: split_ok_def sorted_wrt_take sorted_wrt_drop flip: take_map drop_map)
next
  case (node p ks ts q ks' ts')
  let ?i = "find_child ks k"
  let ?c = "split_child k r (BNode q ks' ts')"
  have c: "search_tree (BNode q ks' ts')" using search_nodeD(3) [OF node(1) nth_mem [OF node(2)]] node(3) by metis
  have ih: "search_tree ?c" using node(4,5) split_child_node(3) [OF node(2,3)] by simp
  have "entries (ts[?i := ?c] ! j) = entries (ts ! j)" if "j < length ts" for j
    using that entries_split_child [OF c, of k r] node(3) by (cases "j = ?i") simp_all
  moreover have "search_tree t" if "t \<in> set (ts[?i := ?c])" for t
    using that ih search_nodeD(3) [OF node(1)] set_update_subset_insert [of ts ?i ?c] by blast
  ultimately show ?case
    unfolding split_child_node(1) [OF node(2,3)] using node(1) unfolding search_tree.simps by simp
qed

lemma mset_pages_split_child:
  "search_tree (BNode p ks ts) \<Longrightarrow>
   mset (tree_pages (split_child k r (BNode p ks ts))) = add_mset r (mset (tree_pages (BNode p ks ts)))"
proof (induction rule: split_induct [where k = k])
  case (above p ks ts q es)
  then show ?case
    unfolding split_child_above(1) [OF above(2,3)] by (simp add: concat_split_nth [OF above(2), of tree_pages])
next
  case (node p ks ts q ks' ts')
  then show ?case
    unfolding split_child_node(1) [OF node(2,3)]
    by (simp del: tree_pages.simps add: tree_pages.simps(2) [of p] concat_split_nth [OF node(2), of tree_pages]
        upd_conv_take_nth_drop)
qed

lemma pages_split_child:
  assumes "search_tree (BNode p ks ts)"
  shows "set (tree_pages (split_child k r (BNode p ks ts))) = insert r (set (tree_pages (BNode p ks ts)))"
    and "distinct (tree_pages (split_child k r (BNode p ks ts))) \<longleftrightarrow>
      r \<notin> set (tree_pages (BNode p ks ts)) \<and> distinct (tree_pages (BNode p ks ts))"
proof -
  have m: "mset (tree_pages (split_child k r (BNode p ks ts))) = mset (r # tree_pages (BNode p ks ts))"
    using mset_pages_split_child [OF assms] by simp
  from mset_eq_setD [OF m] show "set (tree_pages (split_child k r (BNode p ks ts))) = insert r (set (tree_pages (BNode p ks ts)))"
    by simp
  from mset_eq_imp_distinct_iff [OF m]
  show "distinct (tree_pages (split_child k r (BNode p ks ts))) \<longleftrightarrow>
      r \<notin> set (tree_pages (BNode p ks ts)) \<and> distinct (tree_pages (BNode p ks ts))" by simp
qed

section \<open>The split tree in the file\<close>

text \<open>The abstract insertion with a split: the entry enters its leaf, which is then split.\<close>

definition put_split :: "key \<Rightarrow> page_id \<Rightarrow> page_id \<Rightarrow> bptree \<Rightarrow> bptree" where
  "put_split k v r t = split_child k r (put_leaf k v t)"

lemma put_split_above:
  assumes "find_child ks k < length ts" and "ts ! find_child ks k = BLeaf q es" and "insert_entry k v es = E"
  shows "put_split k v r (BNode p ks ts) =
      BNode p (take (find_child ks k) ks @ fst (E ! (length E div 2)) # drop (find_child ks k) ks)
        (take (find_child ks k) ts @ BLeaf q (take (length E div 2) E) #
           BLeaf r (drop (length E div 2) E) # drop (Suc (find_child ks k)) ts)"
proof -
  have "put_leaf k v (BNode p ks ts) = BNode p ks (ts[find_child ks k := BLeaf q E])"
    using assms by (simp add: Let_def)
  then show ?thesis
    using split_child_above(1) [of ks k "ts[find_child ks k := BLeaf q E]" q E r p] assms(1) by (simp add: put_split_def)
qed

lemma put_split_node:
  assumes "find_child ks k < length ts" and "ts ! find_child ks k = BNode q ks' ts'"
  shows "put_split k v r (BNode p ks ts) = BNode p ks (ts[find_child ks k := put_split k v r (BNode q ks' ts')])"
proof -
  obtain ts'' where c: "put_leaf k v (BNode q ks' ts') = BNode q ks' ts''"
    by (cases "find_child ks' k < length ts'") (simp_all add: Let_def)
  then have "put_leaf k v (BNode p ks ts) = BNode p ks (ts[find_child ks k := BNode q ks' ts''])"
    using assms by (simp add: Let_def)
  then show ?thesis
    using split_child_node(1) [of ks k "ts[find_child ks k := BNode q ks' ts'']" q ks' ts'' r p] assms(1) c
    by (simp add: put_split_def)
qed

lemma root_of_put_split [simp]: "root_of (put_split k v r t) = root_of t"
  by (simp add: put_split_def)

lemma on_disk_child: "on_disk crc f (BNode p ks ts) \<Longrightarrow> t \<in> set ts \<Longrightarrow> on_disk crc f t"
  by simp

lemma parent_for_facts:
  "search_tree (BNode p ks ts) \<Longrightarrow> on_disk crc f (BNode p ks ts) \<Longrightarrow> distinct (tree_pages (BNode p ks ts)) \<Longrightarrow>
   leaf_for k (BNode p ks ts) = (q, es) \<Longrightarrow> parent_for k (BNode p ks ts) = (pp, pks, pcs) \<Longrightarrow>
   pp \<in> set (tree_pages (BNode p ks ts)) \<and> pp \<noteq> q \<and> sorted (map fst es) \<and>
   (\<exists>i. read_node crc f pp = Ok (NodeInternal i) \<and> i_keys i = pks \<and> i_children i = pcs) \<and>
   (\<forall>s \<in> fst ` set es. find_child pks s = find_child pks k)"
proof (induction rule: split_induct [where k = k])
  case (above p ks ts q' es')
  have eq: "q' = q" "es' = es" "pp = p" "pks = ks" "pcs = map root_of ts"
    using split_child_above(2,3) [OF above(2,3)] above(6,7) by auto
  have mem: "BLeaf q es \<in> set ts" using above(2,3) eq by (metis nth_mem)
  have "find_child ks s = find_child ks k" if "s \<in> fst ` set es" for s
    using find_child_of_entry [OF above(1,2)] that above(3) eq by simp
  moreover have "p \<noteq> q" using above(5) mem by auto
  moreover have "sorted (map fst es)" using search_nodeD(3) [OF above(1) mem] by simp
  ultimately show ?case using above(4) eq by simp
next
  case (node p ks ts q' ks' ts')
  have mem: "BNode q' ks' ts' \<in> set ts" using node(2,3) by (metis nth_mem)
  have "leaf_for k (BNode q' ks' ts') = (q, es)" "parent_for k (BNode q' ks' ts') = (pp, pks, pcs)"
    using split_child_node(2,3) [OF node(2,3)] node(7,8) by metis+
  from node(4) [OF on_disk_child [OF node(5) mem] distinct_child [OF node(6) mem] this]
  show ?case using child_pages_subset [OF mem] by blast
qed

text \<open>The other children of a node on the way to the leaf keep their pages.\<close>

lemma on_disk_siblings:
  assumes "on_disk crc f (BNode p ks ts)" and dp: "distinct (tree_pages (BNode p ks ts))" and i: "i < length ts"
    and t: "t \<in> set (take i ts) \<union> set (drop (Suc i) ts)"
    and same: "\<And>x. x \<in> set (tree_pages (BNode p ks ts)) \<Longrightarrow> x \<notin> A \<Longrightarrow> read_node crc f' x = read_node crc f x"
    and A: "A \<subseteq> insert p (set (tree_pages (ts ! i)))"
  shows "on_disk crc f' t"
proof (rule on_disk_frame)
  have mem: "t \<in> set ts" using t by (auto dest: in_set_takeD in_set_dropD)
  then show "on_disk crc f t" using assms(1) by simp
  show "read_node crc f' x = read_node crc f x" if x: "x \<in> set (tree_pages t)" for x
  proof (rule same)
    show "x \<in> set (tree_pages (BNode p ks ts))" using x child_pages_subset [OF mem] by blast
    have "x \<noteq> p" using x mem dp by auto
    then show "x \<notin> A" using x A child_pages_disjoint [OF dp i t] by blast
  qed
qed

lemma on_disk_put_split:
  "search_tree (BNode p ks ts) \<Longrightarrow> on_disk crc f (BNode p ks ts) \<Longrightarrow> distinct (tree_pages (BNode p ks ts)) \<Longrightarrow>
   leaf_for k (BNode p ks ts) = (q, es) \<Longrightarrow> parent_for k (BNode p ks ts) = (pp, pks, pcs) \<Longrightarrow>
   insert_entry k v es = E \<Longrightarrow>
   (\<And>x. x \<in> set (tree_pages (BNode p ks ts)) \<Longrightarrow> x \<noteq> q \<Longrightarrow> x \<noteq> pp \<Longrightarrow> read_node crc f' x = read_node crc f x) \<Longrightarrow>
   on_disk crc f' (BLeaf q (take (length E div 2) E)) \<Longrightarrow> on_disk crc f' (BLeaf r (drop (length E div 2) E)) \<Longrightarrow>
   (\<exists>i. read_node crc f' pp = Ok (NodeInternal i) \<and>
      i_keys i = take (find_child pks k) pks @ fst (E ! (length E div 2)) # drop (find_child pks k) pks \<and>
      i_children i = take (Suc (find_child pks k)) pcs @ r # drop (Suc (find_child pks k)) pcs) \<Longrightarrow>
   on_disk crc f' (put_split k v r (BNode p ks ts))"
proof (induction rule: split_induct [where k = k])
  case (above p ks ts q' es')
  let ?i = "find_child ks k"
  have eq: "q' = q" "es' = es" "pp = p" "pks = ks" "pcs = map root_of ts"
    using split_child_above(2,3) [OF above(2,3)] above(6,7) by auto
  have "on_disk crc f' t" if t: "t \<in> set (take ?i ts) \<union> set (drop (Suc ?i) ts)" for t
    by (rule on_disk_siblings [OF above(4,5,2) t, where A = "{p, q}"]) (use above(3,9) eq in auto)
  moreover have "map root_of (take ?i ts @ BLeaf q xs # BLeaf r ys # drop (Suc ?i) ts) =
      take (Suc ?i) (map root_of ts) @ r # drop (Suc ?i) (map root_of ts)" for xs ys
    using above(2,3) eq by (simp add: take_Suc_conv_app_nth take_map drop_map)
  ultimately show ?case
    unfolding put_split_above [OF above(2,3) above(8) [folded eq]] using above(10-12) eq by auto
next
  case (node p ks ts q' ks' ts')
  let ?i = "find_child ks k"
  have mem: "BNode q' ks' ts' \<in> set ts" using node(2,3) by (metis nth_mem)
  have lp: "leaf_for k (BNode q' ks' ts') = (q, es)" "parent_for k (BNode q' ks' ts') = (pp, pks, pcs)"
    using split_child_node(2,3) [OF node(2,3)] node(7,8) by metis+
  have c: "search_tree (BNode q' ks' ts')" "on_disk crc f (BNode q' ks' ts')" "distinct (tree_pages (BNode q' ks' ts'))"
    by (rule search_nodeD(3) [OF node(1) mem], rule on_disk_child [OF node(5) mem], rule distinct_child [OF node(6) mem])
  have in_c: "q \<in> set (tree_pages (BNode q' ks' ts'))" "pp \<in> set (tree_pages (BNode q' ks' ts'))"
    using leaf_for_page [OF c(1), of k] parent_for_facts [OF c lp] lp(1) by auto
  have ih: "on_disk crc f' (put_split k v r (BNode q' ks' ts'))"
    by (rule node(4) [OF c(2,3) lp node(9) _ node(11-13)]) (use node(10) child_pages_subset [OF mem] in blast)
  have "on_disk crc f' t" if t: "t \<in> set (take ?i ts) \<union> set (drop (Suc ?i) ts)" for t
    by (rule on_disk_siblings [OF node(5,6,2) t, where A = "{q, pp}"]) (use node(3,10) in_c in auto)
  moreover have "p \<noteq> q" "p \<noteq> pp" using node(6) mem in_c by auto
  then have "read_node crc f' p = read_node crc f p" using node(10) by simp
  moreover have "map root_of (ts[?i := put_split k v r (BNode q' ks' ts')]) = map root_of ts"
    using map_update_same [OF node(2), of root_of] node(3) by (simp add: map_update)
  ultimately show ?case
    unfolding put_split_node [OF node(2,3)] using node(2,5) ih by (auto simp: set_update)
qed

section \<open>Splitting a leaf below its parent\<close>

definition keys_fit :: "key list \<Rightarrow> bool" where
  "keys_fit ks \<longleftrightarrow> 19 + sum_list (map (\<lambda>k. 10 + length k) ks) \<le> MAX_PAYLOAD"

lemma length_put_entries:
  "length ks = length cs \<Longrightarrow> length (concat (map put_entry (zip ks cs))) = sum_list (map (\<lambda>k. 10 + length k) ks)"
  by (induction ks cs rule: list_induct2) (simp_all add: length_put_entry)

lemma length_internal_bytes:
  "length (i_children i) = Suc (length (i_keys i)) \<Longrightarrow> length (internal_bytes i) =
     10 + length (put_opt (nh_parent (i_header i))) + sum_list (map (\<lambda>k. 10 + length k) (i_keys i))"
  by (simp add: internal_bytes_def length_put_entries del: length_put_opt)

lemma sum_list_take_drop:
  fixes g :: "'a \<Rightarrow> nat"
  shows "sum_list (map g (take i ks)) + sum_list (map g (drop i ks)) = sum_list (map g ks)"
  by (metis append_take_drop_id map_append sum_list_append)

text \<open>A parent with one more separator and child.\<close>

definition add_child :: "nat \<Rightarrow> key \<Rightarrow> page_id \<Rightarrow> internal_node \<Rightarrow> internal_node" where
  "add_child pos k r i = i\<lparr>i_keys := take pos (i_keys i) @ k # drop pos (i_keys i),
     i_children := take (Suc pos) (i_children i) @ r # drop (Suc pos) (i_children i),
     i_header := (i_header i)\<lparr>nh_key_count := of_nat (Suc (length (i_keys i)))\<rparr>\<rparr>"

lemma add_child_simps [simp]:
  "i_keys (add_child pos k r i) = take pos (i_keys i) @ k # drop pos (i_keys i)"
  "i_children (add_child pos k r i) = take (Suc pos) (i_children i) @ r # drop (Suc pos) (i_children i)"
  "nh_key_count (i_header (add_child pos k r i)) = of_nat (Suc (length (i_keys i)))"
  "nh_parent (i_header (add_child pos k r i)) = nh_parent (i_header i)"
  "nh_is_leaf (i_header (add_child pos k r i)) = nh_is_leaf (i_header i)"
  by (simp_all add: add_child_def)

lemma storable_add_child:
  assumes "wf_node (NodeInternal i)" and "pos \<le> length (i_keys i)" and "length (i_keys i) < 65535"
    and "keys_fit (k # i_keys i)"
  shows "storable_node (NodeInternal (add_child pos k r i))"
proof -
  have sum: "sum_list (map (\<lambda>k. 10 + length k) (k # i_keys i)) + 19 \<le> MAX_PAYLOAD"
    using assms(4) by (simp add: keys_fit_def)
  then have "length k < 65536" by (simp add: MAX_PAYLOAD_def)
  then have wf: "wf_node (NodeInternal (add_child pos k r i))"
    using assms(1-3) by (auto simp: list_all_iff dest: in_set_takeD in_set_dropD)
  then have "length (internal_bytes (add_child pos k r i)) \<le> MAX_PAYLOAD"
    using sum put_opt_bounds [of "nh_parent (i_header i)"] sum_list_take_drop [of "\<lambda>k. 10 + length k" pos "i_keys i"]
    by (simp add: length_internal_bytes del: length_put_opt)
  with wf show ?thesis by (simp add: storable_node_def)
qed

lemma insert_parent_step_node:
  assumes "parent_of crc (bt_pages b) p = Ok (Some pp)" and rd: "read_node crc (bt_pages b) pp = Ok (NodeInternal i)"
    and len: "length (i_keys i) < 65535"
  shows "insert_parent_step crc p k r b =
    (let i' = add_child (find_child (i_keys i) k) k r i in
     (if length (i_keys i) < MAX_KEYS
      then sbind (on_pages (write_node crc pp (NodeInternal i'))) (\<lambda>_. lift_result (Ok None))
      else sbind (split_internal crc pp i') (\<lambda>q. lift_result (Ok (Some q)))) b)"
proof -
  have wf: "wf_node (NodeInternal i)" by (rule read_node_consistent [OF rd])
  then have kc: "checked_add (nh_key_count (i_header i)) 1 = (Ok (of_nat (Suc (length (i_keys i)))) :: u16 db_result)"
    using len by (simp add: checked_add_def)
  have "find_child (i_keys i) k \<le> length (i_keys i)" by simp
  with wf have v: "vec_insert (i_keys i) (find_child (i_keys i) k) k =
      (Ok (take (find_child (i_keys i) k) (i_keys i) @ k # drop (find_child (i_keys i) k) (i_keys i)) :: key list db_result)"
    "vec_insert (i_children i) (Suc (find_child (i_keys i) k)) r =
      (Ok (take (Suc (find_child (i_keys i) k)) (i_children i) @ r # drop (Suc (find_child (i_keys i) k)) (i_children i))
        :: page_id list db_result)"
    by (simp_all add: vec_insert_def)
  show ?thesis
    using assms(1) rd kc v
    by (simp add: insert_parent_step_def add_child_def Let_def Suc_le_eq)
qed

lemma insert_into_parent_room:
  assumes inv: "store_inv (bt_pages b)" and par: "parent_of crc (bt_pages b) p = Ok (Some pp)"
    and rd: "read_node crc (bt_pages b) pp = Ok (NodeInternal i)" and pp: "unat pp < page_count (bt_pages b)"
    and room: "length (i_keys i) < MAX_KEYS" "keys_fit (k # i_keys i)"
  shows "\<exists>f'. insert_into_parent crc p k r b = Some (Ok (), b\<lparr>bt_pages := f'\<rparr>) \<and> store_inv f' \<and>
     page_count f' = page_count (bt_pages b) \<and>
     read_node crc f' pp = Ok (NodeInternal (add_child (find_child (i_keys i) k) k r i)) \<and>
     (\<forall>j. j \<noteq> pp \<longrightarrow> unat j < page_count (bt_pages b) \<longrightarrow> read_node crc f' j = read_node crc (bt_pages b) j)"
proof -
  let ?i = "add_child (find_child (i_keys i) k) k r i"
  have st: "storable_node (NodeInternal ?i)"
    using room by (intro storable_add_child read_node_consistent [OF rd]) (simp_all add: MAX_KEYS_def)
  have "unat pp < MAX_PAGES" using inv pp by (simp add: store_inv_def wf_page_file_def)
  then obtain f' where f': "write_node crc pp (NodeInternal ?i) (bt_pages b) = (Ok (), f')" "store_inv f'"
      "page_count f' = page_count (bt_pages b)" "read_node crc f' pp = Ok (NodeInternal ?i)"
      "\<forall>j. j \<noteq> pp \<longrightarrow> unat j < page_count (bt_pages b) \<longrightarrow> read_node crc f' j = read_node crc (bt_pages b) j"
    using node_pages.wr_ok [OF inv st, of pp crc] pp by (auto simp: max_def split: if_splits)
  have "insert_parent_step crc p k r b = (Ok None, b\<lparr>bt_pages := f'\<rparr>)"
    using insert_parent_step_node [OF par rd, of k r] room(1) f'(1)
    by (simp add: MAX_KEYS_def Let_def sbind_def on_pages_def lift_result_def)
  then have "insert_into_parent crc p k r b = Some (Ok (), b\<lparr>bt_pages := f'\<rparr>)"
    by (simp add: insert_into_parent.simps [of _ p])
  with f' show ?thesis by blast
qed

text \<open>The state after \<^verbatim>\<open>insert\<close> has split a full leaf and entered the new half in its parent.\<close>

lemma split_below_parent_state:
  fixes es k v
  defines "E \<equiv> insert_entry k v es"
  assumes inv: "store_inv (bt_pages b)" and cnt: "page_count (bt_pages b) < MAX_PAGES"
    and q: "unat q < page_count (bt_pages b)" and pp: "unat pp < page_count (bt_pages b)" "pp \<noteq> q"
    and l: "read_node crc (bt_pages b) q = Ok (NodeLeaf l)" "l_keys l = map fst es" "l_values l = map snd es"
    and full: "length es = MAX_KEYS" and par: "parent_of crc (bt_pages b) q = Ok (Some pp)"
    and i: "read_node crc (bt_pages b) pp = Ok (NodeInternal i)"
    and room: "length (i_keys i) < MAX_KEYS" "keys_fit (fst (E ! 64) # i_keys i)"
    and fit: "entries_fit (take 64 E)" "entries_fit (drop 64 E)"
    and r: "r = of_nat (page_count (bt_pages b))"
  shows "\<exists>f1 f'. insert_into_leaf crc q k v b = (Ok (Some (q, fst (E ! 64), r)), b\<lparr>bt_pages := f1\<rparr>) \<and>
     insert_into_parent crc q (fst (E ! 64)) r (b\<lparr>bt_pages := f1\<rparr>) = Some (Ok (), b\<lparr>bt_pages := f'\<rparr>) \<and>
     store_inv f' \<and> page_count f' = Suc (page_count (bt_pages b)) \<and>
     read_node crc f' q = Ok (NodeLeaf (with_entries (l\<lparr>l_next := Some r\<rparr>) (take 64 E))) \<and>
     read_node crc f' r = Ok (NodeLeaf (with_entries l (drop 64 E))) \<and>
     read_node crc f' pp = Ok (NodeInternal (add_child (find_child (i_keys i) (fst (E ! 64))) (fst (E ! 64)) r i)) \<and>
     (\<forall>j. j \<noteq> q \<longrightarrow> j \<noteq> pp \<longrightarrow> unat j < page_count (bt_pages b) \<longrightarrow>
        read_node crc f' j = read_node crc (bt_pages b) j)"
proof -
  let ?l = "with_entries l E"
  let ?left = "with_entries (l\<lparr>l_next := Some r\<rparr>) (take 64 E)" and ?right = "with_entries l (drop 64 E)"
  have leaf: "nh_is_leaf (l_header l)" using read_node_consistent [OF l(1)] by simp
  have E: "length E = 129" "length E div 2 = 64" using full by (simp_all add: E_def MAX_KEYS_def)
  have ur: "unat r = page_count (bt_pages b)" unfolding r by (rule node_pages.unat_count [OF inv cnt])
  have same: "with_entries (?l\<lparr>l_next := x\<rparr>) es' = with_entries (l\<lparr>l_next := x\<rparr>) es'"
      "with_entries ?l es' = with_entries l es'" for x es'
    by (simp_all add: with_entries_def)
  obtain f1 pl pr where f1: "split_leaf crc q ?l b = (Ok (q, fst (E ! 64), r), b\<lparr>bt_pages := f1\<rparr>)"
      "store_inv f1" "page_count f1 = Suc (page_count (bt_pages b))"
    and pl: "read_page crc f1 q = Ok pl" "ph_type (pg_header pl) = BTreeLeaf" "pg_payload pl = leaf_bytes ?left"
    and pr: "read_page crc f1 r = Ok pr" "ph_type (pg_header pr) = BTreeLeaf" "pg_payload pr = leaf_bytes ?right"
    and old: "\<forall>j. j \<noteq> q \<longrightarrow> unat j < page_count (bt_pages b) \<longrightarrow> read_page crc f1 j = read_page crc (bt_pages b) j"
    using split_leaf_effect [of b q ?l E "l_next l" r crc] inv cnt q leaf E fit r unfolding same by auto
  have st: "storable_node (NodeLeaf ?left)" "storable_node (NodeLeaf ?right)"
    using fit leaf E by (auto intro!: storable_with_entries)
  have rd: "read_node crc f1 q = Ok (NodeLeaf ?left)" "read_node crc f1 r = Ok (NodeLeaf ?right)"
    using st pl pr by (auto intro!: read_node_page simp: storable_node_def)
  have rd_old: "read_node crc f1 j = read_node crc (bt_pages b) j" if "j \<noteq> q" "unat j < page_count (bt_pages b)" for j
    using old that by (simp add: read_node_def)
  have "nh_parent (l_header l) = Some pp" using parent_of_node [OF l(1)] par by simp
  then have par1: "parent_of crc f1 q = Ok (Some pp)" using parent_of_node [OF rd(1)] by (simp add: with_entries_def)
  obtain f' where f': "insert_into_parent crc q (fst (E ! 64)) r (b\<lparr>bt_pages := f1\<rparr>) = Some (Ok (), b\<lparr>bt_pages := f'\<rparr>)"
      "store_inv f'" "page_count f' = Suc (page_count (bt_pages b))"
      "read_node crc f' pp = Ok (NodeInternal (add_child (find_child (i_keys i) (fst (E ! 64))) (fst (E ! 64)) r i))"
      "\<forall>j. j \<noteq> pp \<longrightarrow> unat j < Suc (page_count (bt_pages b)) \<longrightarrow> read_node crc f' j = read_node crc f1 j"
    using insert_into_parent_room [of "b\<lparr>bt_pages := f1\<rparr>" crc q pp i "fst (E ! 64)" r] f1(2,3) par1 i pp room
      rd_old [OF pp(2,1)] by auto
  have ins: "insert_into_leaf crc q k v b = (Ok (Some (q, fst (E ! 64), r)), b\<lparr>bt_pages := f1\<rparr>)"
    using insert_into_leaf_step [OF l, of k v] full f1(1) by (simp add: MAX_KEYS_def sbind_def lift_result_def E_def)
  have "read_node crc f' q = Ok (NodeLeaf ?left)" using f'(5) pp(2) q rd(1) by simp
  moreover have "pp \<noteq> r" using pp(1) ur by auto
  then have "read_node crc f' r = Ok (NodeLeaf ?right)" using f'(5) ur rd(2) by simp
  moreover have "read_node crc f' j = read_node crc (bt_pages b) j"
    if "j \<noteq> q" "j \<noteq> pp" "unat j < page_count (bt_pages b)" for j
    using f'(5) rd_old [OF that(1,3)] that by simp
  ultimately show ?thesis using ins f'(1-4) by blast
qed

lemma chained_leaf: "chained crc f xs \<Longrightarrow> j \<in> fst ` set xs \<Longrightarrow> \<exists>l. read_node crc f j = Ok (NodeLeaf l)"
  by (induction xs) force+

lemma leaf_for_put_leaf:
  "search_tree t \<Longrightarrow> leaf_for k (put_leaf k v t) = (fst (leaf_for k t), insert_entry k v (snd (leaf_for k t)))"
proof (induction rule: put_leaf_induct [where k = k])
  case (node p ks ts)
  then show ?case unfolding put_leaf_node [OF node(1)] by (simp add: Let_def)
qed simp

lemma chained_put_split:
  fixes es k v
  defines "E \<equiv> insert_entry k v es"
  assumes s: "search_tree (BNode p ks ts)" and dp: "distinct (tree_pages (BNode p ks ts))"
    and c: "chained crc f (leaves (BNode p ks ts))" and leaf: "leaf_for k (BNode p ks ts) = (q, es)"
    and l: "read_node crc f q = Ok (NodeLeaf l)"
    and left: "read_node crc f' q = Ok (NodeLeaf (with_entries (l\<lparr>l_next := Some r\<rparr>) (take (length E div 2) E)))"
    and right: "read_node crc f' r = Ok (NodeLeaf (with_entries l (drop (length E div 2) E)))"
    and same: "\<And>j. j \<in> fst ` set (leaves (BNode p ks ts)) \<Longrightarrow> j \<noteq> q \<Longrightarrow> read_node crc f' j = read_node crc f j"
  shows "chained crc f' (leaves (put_split k v r (BNode p ks ts)))"
proof -
  obtain pre post where sp: "leaves (BNode p ks ts) = pre @ (q, es) # post"
      "leaves (put_leaf k v (BNode p ks ts)) = pre @ (q, E) # post" "q \<notin> fst ` set (pre @ post)"
    using leaf_for_split [OF s dp, of k v] leaf by (auto simp: E_def)
  obtain ts' where t': "put_leaf k v (BNode p ks ts) = BNode p ks ts'" using put_leaf_node(1) [OF s] by blast
  have s': "search_tree (BNode p ks ts')" using search_tree_put_leaf [OF s, of k v] t' by simp
  have dp': "distinct (tree_pages (BNode p ks ts'))" using dp tree_pages_put_leaf [of k v "BNode p ks ts"] t' by simp
  from leaf_for_put_leaf [OF s, of k v] have leaf': "leaf_for k (BNode p ks ts') = (q, E)" using leaf t' by (simp add: E_def del: leaf_for.simps)
  obtain pre' post' where sp': "leaves (BNode p ks ts') = pre' @ (q, E) # post'"
      "leaves (split_child k r (BNode p ks ts')) =
        pre' @ (q, take (length E div 2) E) # (r, drop (length E div 2) E) # post'"
    using leaves_split_child [OF s' leaf'] by blast
  have "(q, E) \<notin> set pre" "(q, E) \<notin> set post" using sp(3) by force+
  moreover have "pre @ (q, E) # post = pre' @ (q, E) # post'" using sp(2) sp'(1) unfolding t' by (simp only:)
  ultimately have pp: "pre' = pre" "post' = post" using append_Cons_eq_iff [of "(q, E)" pre post pre' post'] by blast+
  have cq: "chained crc f ((q, es) # post)" using c unfolding sp(1) by (rule chained_append)
  have mem: "j \<in> fst ` set (leaves (BNode p ks ts))" "j \<noteq> q" if "j \<in> fst ` set (pre @ post)" for j
    using that sp(3) unfolding sp(1) by auto
  have "chained crc f' (pre @ (q, take (length E div 2) E) # (r, drop (length E div 2) E) # post)"
  proof (rule chained_prefix [OF c [unfolded sp(1)]])
    have "chained crc f post" using cq by simp
    then have "chained crc f' post" by (rule chained_frame) (rule same [OF mem], auto)
    then show "chained crc f' ((q, take (length E div 2) E) # (r, drop (length E div 2) E) # post)"
      using cq l left right by simp
    show "read_node crc f' j = read_node crc f j" if "j \<in> fst ` set pre" for j
      using same [OF mem [of j]] that by auto
  qed
  then show ?thesis unfolding put_split_def t' sp'(2) pp .
qed

lemma search_put_split:
  assumes s: "search_tree (BNode p ks ts)" and leaf: "leaf_for k (BNode p ks ts) = (q, es)"
    and ok: "split_ok (insert_entry k v es)"
  shows "search_tree (put_split k v r (BNode p ks ts))"
    and "entries (put_split k v r (BNode p ks ts)) = entries (put_leaf k v (BNode p ks ts))"
    and "set (tree_pages (put_split k v r (BNode p ks ts))) = insert r (set (tree_pages (BNode p ks ts)))"
    and "distinct (tree_pages (put_split k v r (BNode p ks ts))) \<longleftrightarrow>
      r \<notin> set (tree_pages (BNode p ks ts)) \<and> distinct (tree_pages (BNode p ks ts))"
proof -
  obtain ts' where t': "put_leaf k v (BNode p ks ts) = BNode p ks ts'" using put_leaf_node(1) [OF s] by blast
  have s': "search_tree (BNode p ks ts')" using search_tree_put_leaf [OF s, of k v] t' by simp
  have "leaf_for k (BNode p ks ts') = (q, insert_entry k v es)"
    using leaf_for_put_leaf [OF s, of k v] leaf unfolding t' by simp
  then show "search_tree (put_split k v r (BNode p ks ts))"
    unfolding put_split_def t' using ok by (intro search_tree_split_child [OF s']) simp
  show "entries (put_split k v r (BNode p ks ts)) = entries (put_leaf k v (BNode p ks ts))"
    unfolding put_split_def t' by (rule entries_split_child [OF s'])
  show "set (tree_pages (put_split k v r (BNode p ks ts))) = insert r (set (tree_pages (BNode p ks ts)))"
    "distinct (tree_pages (put_split k v r (BNode p ks ts))) \<longleftrightarrow>
      r \<notin> set (tree_pages (BNode p ks ts)) \<and> distinct (tree_pages (BNode p ks ts))"
    using pages_split_child [OF s', of k r] tree_pages_put_leaf [of k v "BNode p ks ts"]
    unfolding put_split_def t' by (simp_all del: tree_pages.simps)
qed

text \<open>A file in which the halves of the leaf and the extended parent can be read, and everything else as
  before, holds the tree with the leaf split.\<close>

lemma btree_holds_put_split:
  fixes es k v b
  defines "E \<equiv> insert_entry k v es" and "r \<equiv> of_nat (page_count (bt_pages b)) :: page_id"
  assumes holds: "btree_holds crc b (BNode p ks ts)" and room: "page_count (bt_pages b) < MAX_PAGES"
    and leaf: "leaf_for k (BNode p ks ts) = (q, es)" and par: "parent_for k (BNode p ks ts) = (pp, pks, pcs)"
    and mid: "length E div 2 = 64" and ok: "split_ok E"
    and l: "read_node crc (bt_pages b) q = Ok (NodeLeaf l)"
    and i: "read_node crc (bt_pages b) pp = Ok (NodeInternal i)" "i_keys i = pks" "i_children i = pcs"
    and root: "bt_root b' = bt_root b" and f': "store_inv f'" "page_count f' = Suc (page_count (bt_pages b))"
    and new: "read_node crc f' q = Ok (NodeLeaf (with_entries (l\<lparr>l_next := Some r\<rparr>) (take 64 E)))"
      "read_node crc f' r = Ok (NodeLeaf (with_entries l (drop 64 E)))"
      "read_node crc f' pp = Ok (NodeInternal (add_child (find_child pks k) (fst (E ! 64)) r i))"
    and same: "\<And>j. j \<noteq> q \<Longrightarrow> j \<noteq> pp \<Longrightarrow> unat j < page_count (bt_pages b) \<Longrightarrow>
        read_node crc f' j = read_node crc (bt_pages b) j"
  shows "btree_holds crc (b'\<lparr>bt_pages := f'\<rparr>) (put_split k v r (BNode p ks ts))"
proof -
  let ?t = "BNode p ks ts"
  have s: "search_tree ?t" and d: "on_disk crc (bt_pages b) ?t" and c: "chained crc (bt_pages b) (leaves ?t)"
    and dp: "distinct (tree_pages ?t)" and inv: "store_inv (bt_pages b)" and rt: "bt_root b = root_of ?t"
    and pg: "\<forall>p \<in> set (tree_pages ?t). unat p < page_count (bt_pages b)"
    using holds unfolding btree_holds_def by blast+
  have un: "unat r = page_count (bt_pages b)" using node_pages.unat_count [OF inv room] by (simp add: r_def)
  with pg have r: "r \<notin> set (tree_pages ?t)" by (metis less_irrefl)
  have "on_disk crc f' (put_split k v r ?t)"
    using on_disk_put_split [OF s d dp leaf par refl, where f' = f' and r = r and v = v] same pg new i(2,3) mid
    by (simp add: E_def)
  moreover have "chained crc f' (leaves (put_split k v r ?t))"
  proof (rule chained_put_split [OF s dp c leaf l])
    fix j assume "j \<in> fst ` set (leaves ?t)" "j \<noteq> q"
    moreover have "pp \<notin> fst ` set (leaves ?t)" using chained_leaf [OF c, of pp] i(1) by auto
    ultimately show "read_node crc f' j = read_node crc (bt_pages b) j"
      using pg leaf_pages [of ?t] by (intro same) auto
  qed (use new mid in \<open>simp_all add: E_def\<close>)
  ultimately show ?thesis
    using search_put_split [OF s leaf ok [unfolded E_def], of r] f' root rt r dp pg un
    unfolding btree_holds_def by (auto simp: less_Suc_eq)
qed

text \<open>C10. Insertion into a full leaf implements the abstract split, on trees of any height, if the parent
  pointer of the leaf is right, the parent has room for one more key, and the two halves of the leaf
  differ in their keys.  The operation returns success, the file holds the tree with the leaf split
  into halves of 64 and 65 entries, the second on a new page, linked into the chain and entered in the
  parent under its first key, and lookups see the new entry.\<close>

theorem btree_insert_split_refines:
  assumes "btree_holds (crc32 L) b (BNode p ks ts)" and "page_count (bt_pages b) < MAX_PAGES"
    and "leaf_for k (BNode p ks ts) = (q, es)" and "length es = MAX_KEYS"
    and "parent_for k (BNode p ks ts) = (pp, pks, pcs)" and "parent_of (crc32 L) (bt_pages b) q = Ok (Some pp)"
    and "length pks < MAX_KEYS" and "keys_fit (fst (insert_entry k v es ! 64) # pks)"
    and "split_ok (insert_entry k v es)"
    and "entries_fit (take 64 (insert_entry k v es))" and "entries_fit (drop 64 (insert_entry k v es))"
  shows "\<exists>b'. btree_insert L k v tx b = Some (Ok (), b') \<and>
     btree_holds (crc32 L) b' (put_split k v (of_nat (page_count (bt_pages b))) (BNode p ks ts)) \<and>
     (\<forall>k'. btree_get (crc32 L) b' k' =
        (if k' = k \<and> btree_get (crc32 L) b k = Some (Ok None) then Some (Ok (Some v))
         else btree_get (crc32 L) b k'))"
proof -
  let ?t = "BNode p ks ts" and ?crc = "crc32 L" and ?b = "logged_insert L k v tx b" and ?E = "insert_entry k v es"
  let ?r = "of_nat (page_count (bt_pages b)) :: page_id" and ?sep = "fst (insert_entry k v es ! 64)"
  have s: "search_tree ?t" and d: "on_disk ?crc (bt_pages b) ?t"
    and dp: "distinct (tree_pages ?t)" and inv: "store_inv (bt_pages b)"
    and pg: "\<forall>p \<in> set (tree_pages ?t). unat p < page_count (bt_pages b)"
    using assms(1) unfolding btree_holds_def by blast+
  obtain l where l: "read_node ?crc (bt_pages b) q = Ok (NodeLeaf l)" "l_keys l = map fst es" "l_values l = map snd es"
    and ins: "btree_insert L k v tx b = (case insert_into_leaf ?crc q k v ?b of
          (Err e, b) \<Rightarrow> Some (Err e, b)
        | (Panic p, b) \<Rightarrow> Some (Panic p, b)
        | (Ok None, b) \<Rightarrow> Some (Ok (), b)
        | (Ok (Some (left, sep, right)), b) \<Rightarrow> insert_into_parent ?crc left sep right b)"
    using btree_insert_step [OF assms(1), of k v tx] unfolding assms(3) fst_conv snd_conv by blast
  obtain i where i: "read_node ?crc (bt_pages b) pp = Ok (NodeInternal i)" "i_keys i = pks" "i_children i = pcs"
    and ppq: "pp \<in> set (tree_pages ?t)" "pp \<noteq> q" and fc: "\<forall>s \<in> fst ` set es. find_child pks s = find_child pks k"
    using parent_for_facts [OF s d dp assms(3,5)] by blast
  have q: "q \<in> set (tree_pages ?t)" using leaf_for_page [OF s, of k] assms(3) by simp
  have mid: "length ?E div 2 = 64" using assms(4) by (simp add: MAX_KEYS_def)
  have "?E ! 64 \<in> set ?E" using assms(4) by (intro nth_mem) (simp add: MAX_KEYS_def)
  then have sep: "find_child pks ?sep = find_child pks k" using fc by auto
  obtain f1 f' where f': "insert_into_leaf ?crc q k v ?b = (Ok (Some (q, ?sep, ?r)), ?b\<lparr>bt_pages := f1\<rparr>)"
      "insert_into_parent ?crc q ?sep ?r (?b\<lparr>bt_pages := f1\<rparr>) = Some (Ok (), ?b\<lparr>bt_pages := f'\<rparr>)"
      "store_inv f'" "page_count f' = Suc (page_count (bt_pages b))"
      "read_node ?crc f' q = Ok (NodeLeaf (with_entries (l\<lparr>l_next := Some ?r\<rparr>) (take 64 ?E)))"
      "read_node ?crc f' ?r = Ok (NodeLeaf (with_entries l (drop 64 ?E)))"
      "read_node ?crc f' pp = Ok (NodeInternal (add_child (find_child pks k) ?sep ?r i))"
    and same: "\<And>j. j \<noteq> q \<Longrightarrow> j \<noteq> pp \<Longrightarrow> unat j < page_count (bt_pages b) \<Longrightarrow>
        read_node ?crc f' j = read_node ?crc (bt_pages b) j"
    using split_below_parent_state [of ?b q pp ?crc l es i k v ?r] inv assms pg q ppq l i sep by auto
  have h': "btree_holds ?crc (?b\<lparr>bt_pages := f'\<rparr>) (put_split k v ?r ?t)"
    by (rule btree_holds_put_split [OF assms(1-3,5) mid assms(9) l(1) i _ f'(3-7) same]) simp_all
  have "btree_insert L k v tx b = Some (Ok (), ?b\<lparr>bt_pages := f'\<rparr>)" using ins f'(1,2) by simp
  with h' show ?thesis
    using search_put_split(2) [OF s assms(3,9), of ?r] map_of_put_leaf [OF s, of k v]
    by (auto simp: btree_get_holds [OF assms(1)] btree_get_holds [OF h'])
qed

text \<open>A tree of height two whose first leaf is full.\<close>

lemma full_tree_on_disk:
  assumes "length es = 128" and "sorted (map fst es)" and "entries_fit es" and "\<forall>e \<in> set es. fst e < [5]"
  shows "\<exists>b. btree_holds crc b (BNode 1 [[5]] [BLeaf 2 es, BLeaf 3 [([5], 42)]]) \<and>
     parent_of crc (bt_pages b) 2 = Ok (Some 1) \<and> page_count (bt_pages b) = 4"
proof -
  let ?l = "\<lparr>l_header = \<lparr>nh_is_leaf = True, nh_key_count = 2, nh_parent = Some 1\<rparr>,
    l_next = Some 3, l_keys = [[1], [3]], l_values = [40, 41]\<rparr>"
  obtain f where f: "store_inv f" "page_count f = 4" "\<forall>(p, n) \<in> set sample_nodes. read_node crc f p = Ok n"
    using sample_nodes_on_disk by blast
  have st: "storable_node (NodeLeaf (with_entries ?l es))"
    using assms by (intro storable_with_entries) simp_all
  obtain f' where f': "store_inv f'" "page_count f' = 4" "read_node crc f' 2 = Ok (NodeLeaf (with_entries ?l es))"
      "read_node crc f' 1 = read_node crc f 1" "read_node crc f' 3 = read_node crc f 3"
    using node_pages.wr_ok [OF f(1) st, of 2 crc] f(2) by (auto simp: MAX_PAGES_def)
  have "on_disk crc f' (BNode 1 [[5]] [BLeaf 2 es, BLeaf 3 [([5], 42)]])"
    "chained crc f' (leaves (BNode 1 [[5]] [BLeaf 2 es, BLeaf 3 [([5], 42)]]))"
    using f(3) f'(3-5) by (simp_all add: sample_nodes_def)
  moreover have "search_tree (BNode 1 [[5]] [BLeaf 2 es, BLeaf 3 [([5], 42)]])"
    using assms(2,4) by (auto simp: less_Suc_eq)
  moreover have "parent_of crc f' 2 = Ok (Some 1)" using parent_of_node [OF f'(3)] by simp
  ultimately show ?thesis
    using f'(1,2)
    by (intro exI [of _ "\<lparr>bt_root = 1, bt_pages = f', bt_wal = \<lparr>wal_log = [], wal_synced = 0\<rparr>\<rparr>"])
      (simp add: btree_holds_def del: on_disk.simps chained.simps leaves.simps search_tree.simps)
qed

theorem btree_insert_split_refines_witness:
  "\<exists>b b'. btree_holds (crc32 sample_lib) b (BNode 1 [[5]]
       [BLeaf 2 (replicate 64 ([1], 40) @ replicate 64 ([3], 41)), BLeaf 3 [([5], 42)]]) \<and>
     btree_insert sample_lib [4] 50 (TxId 1) b = Some (Ok (), b') \<and>
     btree_get (crc32 sample_lib) b' [4] = Some (Ok (Some 50)) \<and>
     btree_get (crc32 sample_lib) b' [3] = Some (Ok (Some 41))"
proof -
  let ?es = "replicate 64 ([1], 40) @ replicate 64 ([3], 41) :: (key \<times> page_id) list"
  let ?t = "BNode 1 [[5]] [BLeaf 2 ?es, BLeaf 3 [([5], 42)]]" and ?crc = "crc32 sample_lib"
  have fit: "entries_fit ?es" "sorted (map fst ?es)"
    by (simp_all add: entries_fit_def length_concat sum_list_replicate length_put_entry MAX_PAYLOAD_def sorted_append)
  obtain b where b: "btree_holds ?crc b ?t" "parent_of ?crc (bt_pages b) 2 = Ok (Some 1)" "page_count (bt_pages b) = 4"
    using full_tree_on_disk [of ?es ?crc] fit by auto
  have "position (\<lambda>k'. [4] < k') (map fst ?es) = None" by (auto simp: position_None_iff)
  then have E: "insert_entry [4] 50 ?es = ?es @ [([4], 50)]" by (simp add: insert_entry_def find_child_def)
  have nth: "(?es @ [([4], 50)]) ! 64 = ([3], 41)" by (simp add: nth_append)
  have ok: "split_ok (?es @ [([4], 50)])" using nth by (simp add: split_ok_def)
  have h: "entries_fit (take 64 (?es @ [([4], 50)]))" "entries_fit (drop 64 (?es @ [([4], 50)]))"
    by (simp_all add: entries_fit_def length_concat sum_list_replicate length_put_entry MAX_PAYLOAD_def)
  have fc: "find_child [[5]] [4] = 0" by (simp add: find_child_def)
  obtain b' where b': "btree_insert sample_lib [4] 50 (TxId 1) b = Some (Ok (), b')"
      "\<forall>k'. btree_get ?crc b' k' = (if k' = [4] \<and> btree_get ?crc b [4] = Some (Ok None) then Some (Ok (Some 50))
         else btree_get ?crc b k')"
    using btree_insert_split_refines [OF b(1), of "[4]" 2 ?es 1 "[[5]]" "[2, 3]" 50 "TxId 1", unfolded E nth] b(2,3) ok h fc
    by (auto simp: MAX_KEYS_def MAX_PAGES_def keys_fit_def MAX_PAYLOAD_def)
  have rep: "map_of (replicate n (a, w)) x = (if x = a \<and> 0 < n then Some w else None)" for n and a x :: key and w :: page_id
    by (induction n) auto
  have "map_of (entries ?t) [4] = None" "map_of (entries ?t) [3] = Some 41"
    by (simp_all add: map_add_def rep)
  then have "btree_get ?crc b [4] = Some (Ok None)" "btree_get ?crc b [3] = Some (Ok (Some 41))"
    unfolding btree_get_holds [OF b(1)] by simp_all
  with b(1) b' show ?thesis by auto
qed

end
