(* ===== verification/Btree_End.thy ===== *)
theory Btree_End
  imports Btree_Grow
begin

text \<open>
  The loop of \<^verbatim>\<open>insert_into_parent\<close> in \<^verbatim>\<open>sabi-storage/src/btree.rs\<close> follows the parent pointers stored in
  the file, which nothing guarantees to lead upwards.  It ends all the same: a round goes on only after
  it has split a node with at least 128 keys, and the keys beyond 127, summed over all pages
  (\<open>load\<close>), become fewer with each split.
\<close>

section \<open>Writes that succeed\<close>

lemma read_page_in_range:
  assumes "wf_page_file f" and "read_page crc f i = Ok p"
  shows "unat i < page_count f"
proof -
  have "unat i * 4096 < 2 ^ 64" and "unat (i * 4096) + 4096 \<le> length (pf_file f)"
    using assms(2)
    by (auto simp: read_page_def rbind_Ok_iff page_offset_def checked_mul_def file_seek_def file_read_exact_def
        split: if_splits)
  then have "unat i * 4096 + 4096 \<le> page_count f * 4096"
    using wf_length [OF assms(1)] by (simp add: unat_mult_lem [THEN iffD1])
  then show ?thesis by simp
qed

lemma read_node_in_range: "store_inv f \<Longrightarrow> read_node crc f i = Ok n \<Longrightarrow> unat i < page_count f"
  by (auto simp: read_node_def rbind_Ok_iff store_inv_def intro: read_page_in_range)

text \<open>A node whose counters agree with its lists; its keys may be too long for a page.\<close>

fun shape_ok :: "node \<Rightarrow> bool" where
  "shape_ok (NodeLeaf l) \<longleftrightarrow> nh_is_leaf (l_header l) \<and> length (l_keys l) < 65536 \<and>
     nh_key_count (l_header l) = of_nat (length (l_keys l)) \<and> length (l_values l) = length (l_keys l)"
| "shape_ok (NodeInternal i) \<longleftrightarrow> \<not> nh_is_leaf (i_header i) \<and> length (i_keys i) < 65536 \<and>
     nh_key_count (i_header i) = of_nat (length (i_keys i)) \<and> length (i_children i) = Suc (length (i_keys i))"

lemma wf_node_shape: "wf_node n \<longleftrightarrow> shape_ok n \<and> list_all (\<lambda>k. length k < 65536) (node_keys n)"
  by (cases n) auto

lemma key_le_sum: "k \<in> set ks \<Longrightarrow> length k \<le> sum_list (map (\<lambda>k. 10 + length k) ks)"
  by (induction ks) auto

lemma shape_ok_bytes:
  assumes "shape_ok n" and "k \<in> set (node_keys n)"
  shows "length k \<le> length (node_bytes n)"
proof (cases n)
  case (NodeLeaf l)
  with assms have "length (concat (map put_entry (zip (l_keys l) (l_values l)))) =
      sum_list (map (\<lambda>k. 10 + length k) (l_keys l))"
    by (intro length_put_entries) simp
  with NodeLeaf assms(2) key_le_sum [of k "l_keys l"] show ?thesis by (simp add: leaf_bytes_def)
next
  case (NodeInternal i)
  with assms length_internal_bytes [of i] key_le_sum [of k "i_keys i"] show ?thesis by simp
qed

lemma sum_keys_bound: "10 * length ks \<le> sum_list (map (\<lambda>k. 10 + length k) ks)"
  by (induction ks) auto

lemma node_bytes_keys:
  assumes "shape_ok n"
  shows "10 * length (node_keys n) \<le> length (node_bytes n)"
proof (cases n)
  case (NodeLeaf l)
  with assms have "length (concat (map put_entry (zip (l_keys l) (l_values l)))) =
      sum_list (map (\<lambda>k. 10 + length k) (l_keys l))"
    by (intro length_put_entries) simp
  with NodeLeaf sum_keys_bound [of "l_keys l"] show ?thesis by (simp add: leaf_bytes_def)
next
  case (NodeInternal i)
  with assms length_internal_bytes [of i] sum_keys_bound [of "i_keys i"] show ?thesis by simp
qed

text \<open>A page holds at most 406 keys.\<close>

lemma read_node_keys_bound:
  assumes inv: "store_inv f" and "read_node crc f i = Ok n"
  shows "length (node_keys n) \<le> 406"
proof (cases "node_keys n")
  case (Cons k ks)
  obtain p where p: "read_page crc f i = Ok p" "deserialize_btree p = Ok n"
    using assms(2) by (auto simp: read_node_def rbind_Ok_iff)
  have wf: "wf_page_file f" using inv by (simp add: store_inv_def)
  have i: "unat i < page_count f" by (rule read_page_in_range [OF wf p(1)])
  then have "length (pg_payload p) \<le> 4064"
    using page_deserialize_OkD(1) [of crc "block_at f (unat i)" p] p(1) wf by (simp add: read_page_block)
  moreover have "length (node_bytes n) \<le> length (pg_payload p)"
    by (rule deserialize_btree_size [OF p(2)]) (use Cons in auto)
  moreover have "10 * length (node_keys n) \<le> length (node_bytes n)"
    using read_node_consistent [OF assms(2)] by (intro node_bytes_keys) (simp add: wf_node_shape)
  ultimately show ?thesis by linarith
qed simp

lemma serialize_btree_shape:
  assumes "shape_ok n"
  shows "serialize_btree p n = Ok (p\<lparr>pg_payload := node_bytes n,
     pg_header := (pg_header p)\<lparr>ph_type := node_type n, ph_payload_len := of_nat (length (node_bytes n))\<rparr>\<rparr>)"
proof (cases n)
  case (NodeInternal i)
  with assms have "i_children i \<noteq> []" by auto
  with NodeInternal show ?thesis
    by (simp add: serialize_btree_def internal_bytes_def Let_def hd_conv_nth)
qed (simp add: serialize_btree_def leaf_bytes_def Let_def)

lemma write_node_OkD:
  assumes inv: "store_inv f" and wf: "shape_ok n" and i: "unat i \<le> page_count f" "unat i < MAX_PAGES"
    and w: "write_node crc i n f = (Ok (), f')"
  shows "store_inv f'" and "page_count f' = max (page_count f) (Suc (unat i))" and "read_node crc f' i = Ok n"
    and "\<And>j. j \<noteq> i \<Longrightarrow> unat j < page_count f \<Longrightarrow> read_node crc f' j = read_node crc f j"
proof -
  have len: "length (node_bytes n) \<le> MAX_PAYLOAD"
  proof (rule ccontr)
    assume "\<not> length (node_bytes n) \<le> MAX_PAYLOAD"
    then have "write_node crc i n f = (Err (Corruption ''Page payload overflow''), f)"
      using i(2) unfolding write_node_def serialize_btree_shape [OF wf] sbind_lift
      by (intro write_page_too_large) (simp_all add: page_new_def)
    with w show False by simp
  qed
  then have "list_all (\<lambda>k. length k < 65536) (node_keys n)"
    using shape_ok_bytes [OF wf] by (fastforce simp: list_all_iff)
  with wf len have "storable_node n" by (simp add: storable_node_def wf_node_shape)
  from node_pages.wr_ok [OF inv this i, of crc] w
  show "store_inv f'" "page_count f' = max (page_count f) (Suc (unat i))" "read_node crc f' i = Ok n"
    "\<And>j. j \<noteq> i \<Longrightarrow> unat j < page_count f \<Longrightarrow> read_node crc f' j = read_node crc f j"
    by auto
qed

lemma on_pages_Ok_iff:
  "on_pages m b = (Ok x, b') \<longleftrightarrow> (\<exists>f'. m (bt_pages b) = (Ok x, f') \<and> b' = b\<lparr>bt_pages := f'\<rparr>)"
  by (auto simp: on_pages_def split: prod.splits)

text \<open>Two nodes, one on an existing page and one on the next new page.\<close>

lemma write_halves_OkD:
  assumes inv: "store_inv f" and cnt: "page_count f < MAX_PAGES" and p: "unat p < page_count f"
    and wf: "shape_ok m" "shape_ok n"
    and w: "write_node crc p m f = (Ok (), f1)" "write_node crc (of_nat (page_count f)) n f1 = (Ok (), f2)"
  shows "store_inv f2" and "page_count f2 = Suc (page_count f)" and "read_node crc f2 p = Ok m"
    and "read_node crc f2 (of_nat (page_count f)) = Ok n"
    and "\<And>j. j \<noteq> p \<Longrightarrow> unat j < page_count f \<Longrightarrow> read_node crc f2 j = read_node crc f j"
proof -
  let ?r = "of_nat (page_count f) :: page_id"
  have r: "unat ?r = page_count f" by (rule node_pages.unat_count [OF inv cnt])
  have pm: "unat p \<le> page_count f" "unat p < MAX_PAGES" using p cnt by simp_all
  note one = write_node_OkD [OF inv wf(1) pm w(1)]
  have cnt1: "page_count f1 = page_count f" using one(2) p by simp
  have rm: "unat ?r \<le> page_count f1" "unat ?r < MAX_PAGES" using r cnt cnt1 by simp_all
  note two = write_node_OkD [OF one(1) wf(2) rm w(2)]
  show "store_inv f2" "page_count f2 = Suc (page_count f)" "read_node crc f2 ?r = Ok n"
    using two(1-3) r cnt1 by simp_all
  have fresh: "j \<noteq> ?r" if "unat j < page_count f" for j using that r by auto
  show "read_node crc f2 p = Ok m" using two(4) [of p] one(3) p cnt1 fresh [OF p] by simp
  show "read_node crc f2 j = read_node crc f j" if "j \<noteq> p" "unat j < page_count f" for j
    using two(4) [of j] one(4) [OF that] that(2) cnt1 fresh [OF that(2)] by simp
qed

section \<open>The splits that a round makes\<close>

lemma split_internal_OkD:
  assumes inv: "store_inv (bt_pages b)" and cnt: "page_count (bt_pages b) < MAX_PAGES"
    and p: "unat p < page_count (bt_pages b)" and wf: "shape_ok (NodeInternal n)"
    and sp: "split_internal crc p n b = (Ok x, b')"
  shows "\<exists>m m'. store_inv (bt_pages b') \<and> page_count (bt_pages b') = Suc (page_count (bt_pages b)) \<and>
     read_node crc (bt_pages b') p = Ok (NodeInternal m) \<and>
     read_node crc (bt_pages b') (of_nat (page_count (bt_pages b))) = Ok (NodeInternal m') \<and>
     length (i_keys m) = length (i_keys n) div 2 \<and> length (i_keys m') = length (i_keys n) - length (i_keys n) div 2 - 1 \<and>
     (\<forall>j. j \<noteq> p \<longrightarrow> unat j < page_count (bt_pages b) \<longrightarrow>
        read_node crc (bt_pages b') j = read_node crc (bt_pages b) j)"
proof -
  let ?mid = "length (i_keys n) div 2"
  let ?left = "n\<lparr>i_keys := take ?mid (i_keys n), i_children := take (?mid + 1) (i_children n),
    i_header := (i_header n)\<lparr>nh_key_count := of_nat ?mid\<rparr>\<rparr>"
  let ?right = "\<lparr>i_header = \<lparr>nh_is_leaf = False, nh_key_count = of_nat (length (i_keys n) - ?mid - 1),
      nh_parent = nh_parent (i_header n)\<rparr>,
    i_keys = drop (?mid + 1) (i_keys n), i_children = drop (?mid + 1) (i_children n)\<rparr>"
  have mid: "?mid < length (i_keys n)"
    using sp by (auto simp: split_internal_def Let_def sbind_Ok_iff lift_result_iff index_def split: if_splits)
  have len: "length (i_children n) = Suc (length (i_keys n))" using wf by simp
  have sl: "sub_slice (i_keys n) (Suc ?mid) (length (i_keys n)) = (Ok (drop (?mid + 1) (i_keys n)) :: key list db_result)"
    "sub_slice (i_children n) (Suc ?mid) (length (i_children n)) = (Ok (drop (?mid + 1) (i_children n)) :: page_id list db_result)"
    using mid len by simp_all
  obtain f1 f2 where w: "write_node crc p (NodeInternal ?left) (bt_pages b) = (Ok (), f1)"
      "write_node crc (of_nat (page_count (bt_pages b))) (NodeInternal ?right) f1 = (Ok (), f2)" "b' = b\<lparr>bt_pages := f2\<rparr>"
    using sp mid allocate_page_count [OF inv]
    by (auto simp: split_internal_def Let_def sl sbind_Ok_iff lift_result_iff on_pages_Ok_iff)
  have "shape_ok (NodeInternal ?left)" "shape_ok (NodeInternal ?right)" using wf mid by auto
  note h = write_halves_OkD [OF inv cnt p this w(1,2)]
  show ?thesis
    using h w(3) mid by (intro exI [of _ ?left] exI [of _ ?right]) simp
qed

section \<open>The measure\<close>

definition excess :: "node db_result \<Rightarrow> nat" where
  "excess r = (case r of Ok (NodeInternal n) \<Rightarrow> length (i_keys n) - (MAX_KEYS - 1) | _ \<Rightarrow> 0)"

definition load :: "(bytes \<Rightarrow> u32) \<Rightarrow> page_file \<Rightarrow> nat" where
  "load crc f = (\<Sum>i < page_count f. excess (read_node crc f (of_nat i)))"

lemma load_bound:
  assumes "store_inv f"
  shows "load crc f \<le> 279 * page_count f"
proof -
  have "excess (read_node crc f (of_nat i)) \<le> 279" for i
  proof (cases "read_node crc f (of_nat i)")
    case (Ok n)
    then show ?thesis
      using read_node_keys_bound [OF assms, of crc "of_nat i"]
      by (cases n) (auto simp: excess_def MAX_KEYS_def diff_le_mono [of _ 406 127, simplified])
  qed (simp_all add: excess_def)
  then have "load crc f \<le> (\<Sum>i < page_count f. 279)" unfolding load_def by (intro sum_mono)
  then show ?thesis by simp
qed

lemma load_split:
  assumes "page_count f < MAX_PAGES" and "page_count f' = Suc (page_count f)" and "unat p < page_count f"
    and "\<And>j. j \<noteq> p \<Longrightarrow> unat j < page_count f \<Longrightarrow> read_node crc f' j = read_node crc f j"
  shows "load crc f' + excess (read_node crc f p) =
    load crc f + excess (read_node crc f' p) + excess (read_node crc f' (of_nat (page_count f)))"
proof -
  let ?n = "page_count f" and ?e = "\<lambda>f i. excess (read_node crc f (of_nat i))"
  have u: "unat (of_nat i :: page_id) = i" if "i < ?n" for i
    using that assms(1) by (simp add: unat_of_nat take_bit_nat_eq_self MAX_PAGES_def)
  have rest: "(\<Sum>i \<in> {..<?n} - {unat p}. ?e f' i) = (\<Sum>i \<in> {..<?n} - {unat p}. ?e f i)"
  proof (rule sum.cong [OF refl])
    fix i assume "i \<in> {..<?n} - {unat p}"
    then have "i < ?n" "i \<noteq> unat p" by auto
    with u [of i] have "of_nat i \<noteq> p" "unat (of_nat i :: page_id) < ?n" by auto
    then show "?e f' i = ?e f i" using assms(4) by simp
  qed
  have split: "(\<Sum>i < ?n. ?e g i) = excess (read_node crc g p) + (\<Sum>i \<in> {..<?n} - {unat p}. ?e g i)" for g
    using sum.remove [of "{..<?n}" "unat p" "?e g"] assms(3) by simp
  show ?thesis unfolding load_def assms(2) using rest split [of f] split [of f'] by simp
qed

text \<open>A round that goes on has split a full node.\<close>

lemma insert_parent_step_load:
  assumes inv: "store_inv (bt_pages b)" and cnt: "page_count (bt_pages b) < MAX_PAGES"
    and st: "insert_parent_step crc p k r b = (Ok (Some x), b')"
  shows "store_inv (bt_pages b')" and "page_count (bt_pages b') = Suc (page_count (bt_pages b))"
    and "load crc (bt_pages b') < load crc (bt_pages b)"
proof -
  obtain pp where pp: "parent_of crc (bt_pages b) p = Ok (Some pp)"
    using st by (auto simp: insert_parent_step_def sbind_Ok_iff lift_result_iff split: option.splits)
  obtain n where n: "read_node crc (bt_pages b) pp = Ok n"
    using st by (auto simp: insert_parent_step_def pp sbind_Ok_iff lift_result_iff)
  with st obtain i where "n = NodeInternal i"
    by (cases n) (auto simp: insert_parent_step_def pp lift_result_iff)
  with n have i: "read_node crc (bt_pages b) pp = Ok (NodeInternal i)" by simp
  have len: "length (i_keys i) \<le> 406" using read_node_keys_bound [OF inv i] by simp
  let ?i = "add_child (find_child (i_keys i) k) k r i"
  have "length (i_keys i) \<ge> MAX_KEYS" and sp: "split_internal crc pp ?i b = (Ok x, b')"
    using st insert_parent_step_node [OF pp i, of k r] len
    by (auto simp: Let_def sbind_Ok_iff lift_result_iff split: if_splits)
  then have full: "128 \<le> length (i_keys i)" by (simp add: MAX_KEYS_def)
  have ppr: "unat pp < page_count (bt_pages b)" by (rule read_node_in_range [OF inv i])
  have wf: "shape_ok (NodeInternal ?i)" using read_node_consistent [OF i] len by simp
  obtain m m' where m: "store_inv (bt_pages b')" "page_count (bt_pages b') = Suc (page_count (bt_pages b))"
      "read_node crc (bt_pages b') pp = Ok (NodeInternal m)"
      "read_node crc (bt_pages b') (of_nat (page_count (bt_pages b))) = Ok (NodeInternal m')"
      "length (i_keys m) = length (i_keys ?i) div 2" "length (i_keys m') = length (i_keys ?i) - length (i_keys ?i) div 2 - 1"
    and same: "\<And>j. j \<noteq> pp \<Longrightarrow> unat j < page_count (bt_pages b) \<Longrightarrow>
        read_node crc (bt_pages b') j = read_node crc (bt_pages b) j"
    using split_internal_OkD [OF inv cnt ppr wf sp] by blast
  show "store_inv (bt_pages b')" "page_count (bt_pages b') = Suc (page_count (bt_pages b))" by (fact m(1,2))+
  have li: "length (i_keys ?i) = Suc (length (i_keys i))" by simp
  from load_split [OF cnt m(2) ppr same] show "load crc (bt_pages b') < load crc (bt_pages b)"
    using m(5,6) full unfolding i m(3,4) li by (auto simp: excess_def MAX_KEYS_def)
qed

lemma insert_into_parent_ends:
  "store_inv (bt_pages b) \<Longrightarrow> page_count (bt_pages b) + load crc (bt_pages b) < MAX_PAGES \<Longrightarrow>
   \<exists>res b'. insert_into_parent crc p k r b = Some (res, b')"
proof (induction "load crc (bt_pages b)" arbitrary: p k r b rule: less_induct)
  case less
  obtain res b1 where st: "insert_parent_step crc p k r b = (res, b1)" by fastforce
  show ?case
  proof (cases "\<exists>x. res = Ok (Some x)")
    case True
    then obtain p' k' r' where res: "res = Ok (Some (p', k', r'))" by auto
    have cnt: "page_count (bt_pages b) < MAX_PAGES" using less.prems(2) by simp
    note step = insert_parent_step_load [OF less.prems(1) cnt st [unfolded res]]
    have "\<exists>res b'. insert_into_parent crc p' k' r' b1 = Some (res, b')"
      using step less.prems(2) by (intro less.hyps) simp_all
    then show ?thesis unfolding insert_into_parent.simps [of crc p] st res by simp
  next
    case False
    then show ?thesis
      unfolding insert_into_parent.simps [of crc p] st by (auto split: result.splits option.splits)
  qed
qed

section \<open>Every insertion ends\<close>

lemma split_leaf_OkD:
  assumes inv: "store_inv (bt_pages b)" and cnt: "page_count (bt_pages b) < MAX_PAGES"
    and p: "unat p < page_count (bt_pages b)" and wf: "shape_ok (NodeLeaf l)"
    and sp: "split_leaf crc p l b = (Ok x, b')"
  shows "store_inv (bt_pages b') \<and> page_count (bt_pages b') = Suc (page_count (bt_pages b))"
proof -
  let ?mid = "length (l_keys l) div 2"
  let ?left = "l\<lparr>l_keys := take ?mid (l_keys l), l_values := take ?mid (l_values l),
    l_next := Some (of_nat (page_count (bt_pages b))), l_header := (l_header l)\<lparr>nh_key_count := of_nat ?mid\<rparr>\<rparr>"
  let ?right = "\<lparr>l_header = \<lparr>nh_is_leaf = True, nh_key_count = of_nat (length (l_keys l) - ?mid),
      nh_parent = nh_parent (l_header l)\<rparr>,
    l_next = l_next l, l_keys = drop ?mid (l_keys l), l_values = drop ?mid (l_values l)\<rparr>"
  have sl: "sub_slice (l_values l) ?mid (length (l_values l)) = (Ok (drop ?mid (l_values l)) :: page_id list db_result)"
    using wf by simp
  obtain f1 f2 where w: "write_node crc p (NodeLeaf ?left) (bt_pages b) = (Ok (), f1)"
      "write_node crc (of_nat (page_count (bt_pages b))) (NodeLeaf ?right) f1 = (Ok (), f2)" "b' = b\<lparr>bt_pages := f2\<rparr>"
    using sp allocate_page_count [OF inv]
    by (auto simp: split_leaf_def Let_def sl sbind_Ok_iff lift_result_iff on_pages_Ok_iff)
  have "shape_ok (NodeLeaf ?left)" "shape_ok (NodeLeaf ?right)" using wf by auto
  from write_halves_OkD(1,2) [OF inv cnt p this w(1,2)] w(3) show ?thesis by simp
qed

lemma insert_into_leaf_OkD:
  assumes inv: "store_inv (bt_pages b)" and cnt: "page_count (bt_pages b) < MAX_PAGES"
    and ins: "insert_into_leaf crc p k v b = (Ok (Some x), b')"
  shows "store_inv (bt_pages b') \<and> page_count (bt_pages b') = Suc (page_count (bt_pages b))"
proof -
  obtain n where n: "read_node crc (bt_pages b) p = Ok n"
    using ins by (auto simp: insert_into_leaf_def sbind_Ok_iff lift_result_iff)
  with ins obtain l where "n = NodeLeaf l"
    by (cases n) (auto simp: insert_into_leaf_def lift_result_iff)
  with n have l: "read_node crc (bt_pages b) p = Ok (NodeLeaf l)" by simp
  let ?es = "zip (l_keys l) (l_values l)"
  have wf: "nh_is_leaf (l_header l)" "length (l_values l) = length (l_keys l)" using read_node_consistent [OF l] by simp_all
  have len: "length ?es \<le> 406" using read_node_keys_bound [OF inv l] wf by simp
  then have lt: "length ?es < 65535" by simp
  have es: "l_keys l = map fst ?es" "l_values l = map snd ?es" using wf by simp_all
  have "split_leaf crc p (with_entries l (insert_entry k v ?es)) b = (Ok x, b')"
    using ins unfolding insert_into_leaf_step [OF l es lt]
    by (auto simp: Let_def sbind_Ok_iff lift_result_iff split: if_splits)
  moreover have "shape_ok (NodeLeaf (with_entries l (insert_entry k v ?es)))"
    using wf(1) len by simp
  ultimately show ?thesis using split_leaf_OkD [OF inv cnt read_node_in_range [OF inv l]] by blast
qed

text \<open>C11. Insertion ends whenever its descent to a leaf does, in every file, whatever parent pointers it
  holds: no chain of splits goes on for ever.  The bound on the number of pages keeps the page ids
  that the splits allocate in range.\<close>

theorem btree_insert_ends:
  assumes "store_inv (bt_pages b)" and "280 * (page_count (bt_pages b) + 1) < MAX_PAGES"
    and "find_leaf (crc32 L) b k \<noteq> None"
  shows "\<exists>res b'. btree_insert L k v tx b = Some (res, b')"
proof -
  let ?b = "logged_insert L k v tx b"
  have fl: "find_leaf (crc32 L) ?b k = find_leaf (crc32 L) b k" by (simp add: find_leaf_def)
  obtain lr where lr: "find_leaf (crc32 L) b k = Some lr" using assms(3) by blast
  show ?thesis
  proof (cases lr)
    case (Ok p)
    obtain res b1 where ins: "insert_into_leaf (crc32 L) p k v ?b = (res, b1)" by fastforce
    have "\<exists>res b'. insert_into_parent (crc32 L) p' k' r b1 = Some (res, b')" if "res = Ok (Some (p', k', r))" for p' k' r
    proof -
      have "store_inv (bt_pages b1)" "page_count (bt_pages b1) = Suc (page_count (bt_pages b))"
        using insert_into_leaf_OkD [OF _ _ ins [unfolded that]] assms(1,2) by simp_all
      then show ?thesis
        using load_bound [of "bt_pages b1" "crc32 L"] assms(2) by (intro insert_into_parent_ends) simp_all
    qed
    then show ?thesis
      using lr Ok ins by (auto simp: btree_insert_def on_wal_log fl split: result.splits option.splits)
  qed (simp_all add: btree_insert_def on_wal_log fl lr)
qed

theorem btree_insert_ends_witness:
  "\<exists>b res b'. find_leaf (crc32 sample_lib) b [4] = Some (Ok 2) \<and>
     btree_insert sample_lib [4] 77 (TxId 1) b = Some (res, b')"
proof -
  obtain b :: btree where b: "store_inv (bt_pages b)" "page_count (bt_pages b) = 4" "bt_root b = root_of sample_tree"
      "on_disk (crc32 sample_lib) (bt_pages b) sample_tree"
    using sample_tree_on_disk [of "crc32 sample_lib"] sample_tree_root by auto
  have lf: "leaf_for [4] sample_tree = (2, [([1], 40), ([3], 41)])"
    by (simp add: sample_tree_def find_child_def)
  have fl: "find_leaf (crc32 sample_lib) b [4] = Some (Ok 2)"
    using find_leaf_leaf_for [OF sample_tree_search b(4), of "[4]"] b(3) lf by (simp add: find_leaf_def)
  have "\<exists>res b'. btree_insert sample_lib [4] 77 (TxId 1) b = Some (res, b')"
    by (rule btree_insert_ends [OF b(1)]) (simp_all add: b(2) fl MAX_PAGES_def)
  with fl show ?thesis by blast
qed

end
