(* ===== verification/Btree_Internal.thy ===== *)
theory Btree_Internal
  imports Btree_End
begin

text \<open>
  The split of an internal node (\<^verbatim>\<open>split_internal\<close> of \<^verbatim>\<open>btree.rs\<close>).  The two halves and the promoted key
  make up the node, and both are on disk afterwards; but the children that move to the new node keep the old
  one as the parent they record.
\<close>

definition left_half :: "internal_node \<Rightarrow> internal_node" where
  "left_half n = (let mid = length (i_keys n) div 2 in
     n\<lparr>i_keys := take mid (i_keys n), i_children := take (mid + 1) (i_children n),
       i_header := (i_header n)\<lparr>nh_key_count := of_nat mid\<rparr>\<rparr>)"

definition right_half :: "internal_node \<Rightarrow> internal_node" where
  "right_half n = (let mid = length (i_keys n) div 2 in
     \<lparr>i_header = \<lparr>nh_is_leaf = False, nh_key_count = of_nat (length (i_keys n) - mid - 1), nh_parent = nh_parent (i_header n)\<rparr>,
      i_keys = drop (mid + 1) (i_keys n), i_children = drop (mid + 1) (i_children n)\<rparr>)"

lemma half_less: "xs \<noteq> [] \<Longrightarrow> length xs div 2 < length xs"
  by (cases xs) auto

lemma halves:
  assumes "i_keys n \<noteq> []"
  shows "i_keys (left_half n) @ i_keys n ! (length (i_keys n) div 2) # i_keys (right_half n) = i_keys n"
    and "i_children (left_half n) @ i_children (right_half n) = i_children n"
  using assms by (simp_all add: left_half_def right_half_def Let_def id_take_nth_drop [symmetric])

lemma split_internal_effect:
  assumes inv: "store_inv (bt_pages b)" and cnt: "page_count (bt_pages b) < MAX_PAGES"
    and p: "unat p < page_count (bt_pages b)"
    and ne: "i_keys n \<noteq> []" and len: "length (i_children n) = Suc (length (i_keys n))"
    and st: "storable_node (NodeInternal (left_half n))" "storable_node (NodeInternal (right_half n))"
    and new: "new = of_nat (page_count (bt_pages b))"
  shows "\<exists>b'. split_internal crc p n b = (Ok (p, i_keys n ! (length (i_keys n) div 2), new), b') \<and>
     store_inv (bt_pages b') \<and> page_count (bt_pages b') = Suc (page_count (bt_pages b)) \<and>
     read_node crc (bt_pages b') p = Ok (NodeInternal (left_half n)) \<and>
     read_node crc (bt_pages b') new = Ok (NodeInternal (right_half n)) \<and>
     (\<forall>j. j \<noteq> p \<longrightarrow> unat j < page_count (bt_pages b) \<longrightarrow> read_page crc (bt_pages b') j = read_page crc (bt_pages b) j)"
proof -
  let ?f = "bt_pages b" and ?mid = "length (i_keys n) div 2"
  have mid: "?mid < length (i_keys n)" by (rule half_less [OF ne])
  have r: "unat new = page_count ?f" unfolding new by (rule node_pages.unat_count [OF inv cnt])
  obtain f1 q1 where f1: "write_node crc p (NodeInternal (left_half n)) ?f = (Ok (), f1)" "store_inv f1"
      "page_count f1 = page_count ?f" "read_page crc f1 p = Ok q1" "ph_type (pg_header q1) = node_type (NodeInternal (left_half n))"
      "pg_payload q1 = node_bytes (NodeInternal (left_half n))"
      "\<And>j. j \<noteq> p \<Longrightarrow> unat j < page_count ?f \<Longrightarrow> read_page crc f1 j = read_page crc ?f j"
    using write_node_page [OF inv st(1), of p crc] p cnt by (auto simp: max_def split: if_splits)
  obtain f2 q2 where f2: "write_node crc new (NodeInternal (right_half n)) f1 = (Ok (), f2)" "store_inv f2"
      "page_count f2 = Suc (page_count ?f)" "read_page crc f2 new = Ok q2"
      "ph_type (pg_header q2) = node_type (NodeInternal (right_half n))" "pg_payload q2 = node_bytes (NodeInternal (right_half n))"
      "\<And>j. j \<noteq> new \<Longrightarrow> unat j < page_count ?f \<Longrightarrow> read_page crc f2 j = read_page crc f1 j"
    using write_node_page [OF f1(2) st(2), of new crc] r cnt f1(3) by auto
  have old: "j \<noteq> new" if "unat j < page_count ?f" for j using that r by auto
  have "read_node crc f2 p = Ok (NodeInternal (left_half n))"
    by (rule read_node_page [OF _ _ f1(5,6)]) (use f1(4) f2(7) [of p] old [OF p] p st(1) in \<open>simp_all add: storable_node_def\<close>)
  moreover have "read_node crc f2 new = Ok (NodeInternal (right_half n))"
    by (rule read_node_page [OF f2(4) _ f2(5,6)]) (use st(2) in \<open>simp add: storable_node_def\<close>)
  moreover have "split_internal crc p n b = (Ok (p, i_keys n ! ?mid, new), b\<lparr>bt_pages := f2\<rparr>)"
    using f1(1) f2(1) mid len allocate_page_count [OF inv]
    by (simp add: split_internal_def Let_def sbind_def lift_result_def on_pages_def new left_half_def right_half_def)
  ultimately show ?thesis using f1(7) f2(2,3,7) old by (intro exI [of _ "b\<lparr>bt_pages := f2\<rparr>"]) simp
qed

text \<open>C15. Splitting an internal node distributes its keys and children over the old node and a new one, around
  the promoted key; but every child that moves to the new node still records the old node as its parent, so the
  next split below it enters its separator into the wrong node.\<close>

theorem split_internal_strays:
  assumes "store_inv (bt_pages b)" and "page_count (bt_pages b) < MAX_PAGES" and "unat p < page_count (bt_pages b)"
    and "i_keys n \<noteq> []" and "length (i_children n) = Suc (length (i_keys n))"
    and "storable_node (NodeInternal (left_half n))" and "storable_node (NodeInternal (right_half n))"
    and "\<forall>c \<in> set (i_children n). c \<noteq> p \<and> unat c < page_count (bt_pages b) \<and> parent_of crc (bt_pages b) c = Ok (Some p)"
  shows "\<exists>b' k new l r. split_internal crc p n b = (Ok (p, k, new), b') \<and> new \<noteq> p \<and>
     read_node crc (bt_pages b') p = Ok (NodeInternal l) \<and> read_node crc (bt_pages b') new = Ok (NodeInternal r) \<and>
     i_keys l @ k # i_keys r = i_keys n \<and> i_children l @ i_children r = i_children n \<and> i_children r \<noteq> [] \<and>
     (\<forall>c \<in> set (i_children r). parent_of crc (bt_pages b') c = Ok (Some p))"
proof -
  let ?new = "of_nat (page_count (bt_pages b)) :: page_id"
  obtain b' where b': "split_internal crc p n b = (Ok (p, i_keys n ! (length (i_keys n) div 2), ?new), b')"
      "read_node crc (bt_pages b') p = Ok (NodeInternal (left_half n))"
      "read_node crc (bt_pages b') ?new = Ok (NodeInternal (right_half n))"
      "\<forall>j. j \<noteq> p \<longrightarrow> unat j < page_count (bt_pages b) \<longrightarrow> read_page crc (bt_pages b') j = read_page crc (bt_pages b) j"
    using split_internal_effect [OF assms(1-7) refl, of crc] by blast
  have kids: "set (i_children (right_half n)) \<subseteq> set (i_children n)"
    by (simp add: right_half_def Let_def set_drop_subset)
  have "parent_of crc (bt_pages b') c = Ok (Some p)" if "c \<in> set (i_children (right_half n))" for c
    using that kids assms(8) b'(4) by (auto simp: parent_of_def)
  moreover have "i_children (right_half n) \<noteq> []" using assms(5) half_less [OF assms(4)] by (simp add: right_half_def Let_def)
  moreover have "?new \<noteq> p" using node_pages.unat_count [OF assms(1,2)] assms(3) by auto
  ultimately show ?thesis using b'(1-3) halves [OF assms(4)] by blast
qed

theorem split_internal_strays_witness:
  "\<exists>b b' k new l r. split_internal (\<lambda>_. 0) 1 (\<lparr>i_header = \<lparr>nh_is_leaf = False, nh_key_count = 1, nh_parent = None\<rparr>,
       i_keys = [[5]], i_children = [2, 3]\<rparr>) b = (Ok (1, k, new), b') \<and> new \<noteq> 1 \<and>
     read_node (\<lambda>_. 0) (bt_pages b') 1 = Ok (NodeInternal l) \<and> read_node (\<lambda>_. 0) (bt_pages b') new = Ok (NodeInternal r) \<and>
     i_keys l @ k # i_keys r = [[5]] \<and> i_children l @ i_children r = [2, 3] \<and> i_children r \<noteq> [] \<and>
     (\<forall>c \<in> set (i_children r). parent_of (\<lambda>_. 0) (bt_pages b') c = Ok (Some 1))"
proof -
  let ?n = "\<lparr>i_header = \<lparr>nh_is_leaf = False, nh_key_count = 1, nh_parent = None\<rparr>,
    i_keys = [[5]], i_children = [2, 3]\<rparr>" and ?w = "\<lparr>wal_log = [], wal_synced = 0\<rparr>"
  obtain f where f: "store_inv f" "page_count f = 4" "\<forall>(p, n) \<in> set sample_nodes. read_node (\<lambda>_. 0) f p = Ok n"
    using sample_nodes_on_disk by blast
  have kids: "parent_of (\<lambda>_. 0) f 2 = Ok (Some 1)" "parent_of (\<lambda>_. 0) f 3 = Ok (Some 1)"
    using f(3) parent_of_node [of "\<lambda>_. 0" f 2] parent_of_node [of "\<lambda>_. 0" f 3] by (auto simp: sample_nodes_def)
  have "storable_node (NodeInternal (left_half ?n))" "storable_node (NodeInternal (right_half ?n))"
    by (simp_all add: left_half_def right_half_def storable_node_def internal_bytes_def)
  then show ?thesis
    using split_internal_strays [of "\<lparr>bt_root = 1, bt_pages = f, bt_wal = ?w\<rparr>" 1 ?n "\<lambda>_. 0"] f(1,2) kids
    by - (rule exI [of _ "\<lparr>bt_root = 1, bt_pages = f, bt_wal = ?w\<rparr>"], simp add: MAX_PAGES_def)
qed

end
