(* ===== verification/Sql_Types.thy ===== *)
theory Sql_Types
  imports Core_Types
begin

text \<open>
  \<^verbatim>\<open>sabi-sql/src/types.rs\<close> and \<^verbatim>\<open>sabi-sql/src/error.rs\<close>: SQL data types, values with their order and
  byte encoding, and table schemas.  An \<^verbatim>\<open>i64\<close> is a 64-bit word read as a signed number.  The UTF-8
  check of \<^verbatim>\<open>String::from_utf8\<close> is written out, with the error it reports.
\<close>

datatype sql_error =
    ParseError string
  | PlannerError string
  | ExecutionError string
  | TypeError string string
  | ColumnNotFound string
  | TableNotFound string
  | ConstraintViolation string
  | SqlInternal string
  | Storage db_error

fun show_sql_error :: "sql_error \<Rightarrow> string" where
  "show_sql_error (ParseError msg) = ''Parse error: '' @ msg"
| "show_sql_error (PlannerError msg) = ''Planner error: '' @ msg"
| "show_sql_error (ExecutionError msg) = ''Execution error: '' @ msg"
| "show_sql_error (TypeError expected actual) = ''Type error: expected '' @ expected @ '', got '' @ actual"
| "show_sql_error (ColumnNotFound c) = ''Column not found: '' @ c"
| "show_sql_error (TableNotFound t) = ''Table not found: '' @ t"
| "show_sql_error (ConstraintViolation msg) = ''Constraint violation: '' @ msg"
| "show_sql_error (SqlInternal msg) = ''Internal error: '' @ msg"
| "show_sql_error (Storage e) = ''Storage error: '' @ show_db_error e"

type_synonym 'a sql_result = "('a, sql_error) result"

datatype data_type = IntegerType | TextType | BooleanType

fun show_data_type :: "data_type \<Rightarrow> string" where
  "show_data_type IntegerType = ''INTEGER''"
| "show_data_type TextType = ''TEXT''"
| "show_data_type BooleanType = ''BOOLEAN''"

datatype sql_value = VNull | VInteger i64 | VText string | VBoolean bool

fun value_compare :: "sql_value \<Rightarrow> sql_value \<Rightarrow> ordering option" where
  "value_compare VNull VNull = Some Equal"
| "value_compare (VInteger a) (VInteger b) = Some (cmp (sint a) (sint b))"
| "value_compare (VText a) (VText b) = Some (cmp (string_bytes a) (string_bytes b))"
| "value_compare (VBoolean a) (VBoolean b) = Some (cmp a b)"
| "value_compare _ _ = None"

definition value_lt :: "sql_value \<Rightarrow> sql_value \<Rightarrow> bool" where
  "value_lt a b = (case value_compare a b of Some ord \<Rightarrow> ord = Less | None \<Rightarrow> False)"

definition value_le :: "sql_value \<Rightarrow> sql_value \<Rightarrow> bool" where
  "value_le a b = (case value_compare a b of Some ord \<Rightarrow> ord \<noteq> Greater | None \<Rightarrow> False)"

definition value_gt :: "sql_value \<Rightarrow> sql_value \<Rightarrow> bool" where
  "value_gt a b = (case value_compare a b of Some ord \<Rightarrow> ord = Greater | None \<Rightarrow> False)"

definition value_ge :: "sql_value \<Rightarrow> sql_value \<Rightarrow> bool" where
  "value_ge a b = (case value_compare a b of Some ord \<Rightarrow> ord \<noteq> Less | None \<Rightarrow> False)"

fun value_data_type :: "sql_value \<Rightarrow> data_type option" where
  "value_data_type VNull = None"
| "value_data_type (VInteger _) = Some IntegerType"
| "value_data_type (VText _) = Some TextType"
| "value_data_type (VBoolean _) = Some BooleanType"

fun to_bytes :: "sql_value \<Rightarrow> bytes" where
  "to_bytes VNull = [0]"
| "to_bytes (VInteger i) = 1 # le64 i"
| "to_bytes (VText s) = 2 # le32 (of_nat (length s)) @ string_bytes s"
| "to_bytes (VBoolean b) = [3, if b then 1 else 0]"

section \<open>UTF-8\<close>

definition is_cont :: "u8 \<Rightarrow> bool" where
  "is_cont b \<longleftrightarrow> 0x80 \<le> b \<and> b \<le> 0xBF"

text \<open>The second byte that may follow a leading byte of a three- or four-byte sequence.\<close>

definition second_ok :: "u8 \<Rightarrow> u8 \<Rightarrow> bool" where
  "second_ok a b \<longleftrightarrow>
     (if a = 0xE0 then 0xA0 \<le> b \<and> b \<le> 0xBF
      else if a = 0xED then 0x80 \<le> b \<and> b \<le> 0x9F
      else if a = 0xF0 then 0x90 \<le> b \<and> b \<le> 0xBF
      else if a = 0xF4 then 0x80 \<le> b \<and> b \<le> 0x8F
      else is_cont b)"

text \<open>The first error of a byte string: the length of its valid prefix and, unless the string ends
  inside a character, the number of bytes of the invalid sequence.\<close>

fun utf8_error :: "nat \<Rightarrow> bytes \<Rightarrow> (nat \<times> nat option) option" where
  "utf8_error i [] = None"
| "utf8_error i (a # bs) =
     (if a < 0x80 then utf8_error (i + 1) bs
      else if 0xC2 \<le> a \<and> a \<le> 0xDF then
        (case bs of
           [] \<Rightarrow> Some (i, None)
         | b # cs \<Rightarrow> if is_cont b then utf8_error (i + 2) cs else Some (i, Some 1))
      else if 0xE0 \<le> a \<and> a \<le> 0xEF then
        (case bs of
           [] \<Rightarrow> Some (i, None)
         | b # cs \<Rightarrow>
             if second_ok a b then
               (case cs of
                  [] \<Rightarrow> Some (i, None)
                | c # ds \<Rightarrow> if is_cont c then utf8_error (i + 3) ds else Some (i, Some 2))
             else Some (i, Some 1))
      else if 0xF0 \<le> a \<and> a \<le> 0xF4 then
        (case bs of
           [] \<Rightarrow> Some (i, None)
         | b # cs \<Rightarrow>
             if second_ok a b then
               (case cs of
                  [] \<Rightarrow> Some (i, None)
                | c # ds \<Rightarrow>
                    if is_cont c then
                      (case ds of
                         [] \<Rightarrow> Some (i, None)
                       | d # es \<Rightarrow> if is_cont d then utf8_error (i + 4) es else Some (i, Some 3))
                    else Some (i, Some 2))
             else Some (i, Some 1))
      else Some (i, Some 1))"

definition show_utf8_error :: "nat \<times> nat option \<Rightarrow> string" where
  "show_utf8_error e = (case e of
     (i, Some n) \<Rightarrow> ''invalid utf-8 sequence of '' @ show_nat n @ '' bytes from index '' @ show_nat i
   | (i, None) \<Rightarrow> ''incomplete utf-8 byte sequence from index '' @ show_nat i)"

definition from_utf8 :: "bytes \<Rightarrow> string sql_result" where
  "from_utf8 bs = (case utf8_error 0 bs of
     None \<Rightarrow> Ok (bytes_string bs)
   | Some e \<Rightarrow> Err (SqlInternal (''Invalid UTF-8: '' @ show_utf8_error e)))"

section \<open>Decoding values\<close>

definition from_bytes :: "bytes \<Rightarrow> sql_value sql_result" where
  "from_bytes bs =
     (case bs of
        [] \<Rightarrow> Ok VNull
      | tag # rest \<Rightarrow>
          if tag = 0 then Ok VNull
          else if tag = 1 then
            (if length bs < 9 then Err (SqlInternal ''Invalid integer encoding'')
             else Ok (VInteger (from_le (take 8 rest))))
          else if tag = 2 then
            (if length bs < 5 then Err (SqlInternal ''Invalid text encoding'')
             else
               let len = unat (from_le (take 4 rest) :: u32)
               in if length bs < 5 + len then Err (SqlInternal ''Text truncated'')
                  else rbind (from_utf8 (take len (drop 4 rest))) (\<lambda>text. Ok (VText text)))
          else if tag = 3 then
            (if length bs < 2 then Err (SqlInternal ''Invalid boolean encoding'')
             else Ok (VBoolean (rest ! 0 \<noteq> 0)))
          else Err (SqlInternal ''Unknown value type tag''))"

definition show_int :: "int \<Rightarrow> string" where
  "show_int i = (if i < 0 then ''-'' @ show_nat (nat (- i)) else show_nat (nat i))"

definition replace_char :: "char \<Rightarrow> string \<Rightarrow> string \<Rightarrow> string" where
  "replace_char c t s = concat (map (\<lambda>x. if x = c then t else [x]) s)"

definition quote_char :: char where "quote_char = char_of (39 :: nat)"

fun show_value :: "sql_value \<Rightarrow> string" where
  "show_value VNull = ''NULL''"
| "show_value (VInteger i) = show_int (sint i)"
| "show_value (VText s) = [quote_char] @ replace_char quote_char [quote_char, quote_char] s @ [quote_char]"
| "show_value (VBoolean b) = (if b then ''true'' else ''false'')"

record column_def =
  cd_name :: string
  cd_data_type :: data_type
  cd_nullable :: bool
  cd_primary_key :: bool

record table_schema =
  ts_name :: string
  ts_columns :: "column_def list"
  ts_primary_key :: "string list option"

section \<open>Values survive their encoding\<close>

text \<open>A value of the program: its text is valid UTF-8 and its length fits its field.\<close>

fun value_ok :: "sql_value \<Rightarrow> bool" where
  "value_ok (VText s) \<longleftrightarrow> utf8_error 0 (string_bytes s) = None \<and> length s < 2 ^ 32"
| "value_ok _ \<longleftrightarrow> True"

lemma from_utf8_string: "utf8_error 0 (string_bytes s) = None \<Longrightarrow> from_utf8 (string_bytes s) = Ok s"
  by (simp add: from_utf8_def)

text \<open>A value of any type is read back from its encoding, whatever bytes follow it.\<close>

lemma value_roundtrip:
  assumes "value_ok v"
  shows "from_bytes (to_bytes v @ rest) = Ok v"
proof (cases v)
  case (VText s)
  have "unat (of_nat (length s) :: u32) = length s"
    using assms VText by (simp add: unat_of_nat take_bit_nat_eq_self)
  with assms VText show ?thesis by (simp add: from_bytes_def from_utf8_string Let_def)
qed (simp_all add: from_bytes_def)

end
