(* ===== verification/Sql_Expr.thy ===== *)
theory Sql_Expr
  imports Sql_Types
begin

text \<open>
  Expressions of \<^verbatim>\<open>sabi-sql/src/parser/ast.rs\<close> and their evaluation in \<^verbatim>\<open>sabi-sql/src/executor/mod.rs\<close>.
  The \<^verbatim>\<open>regex\<close> crate is a parameter: \<open>rx\<close> compiles a pattern to a matcher or reports an error text.
  Arithmetic on \<^verbatim>\<open>i64\<close> panics on overflow and on division by zero.
\<close>

datatype binary_operator =
  Eq | Neq | Lt | LtEq | Gt | GtEq | And | Or | Add | Sub | Mul | Div | Like

datatype unary_operator = Not | Neg

datatype expr =
    Literal sql_value
  | ColumnRef string
  | BinaryExpr expr binary_operator expr
  | UnaryExpr unary_operator expr
  | FunctionCall string "expr list"
  | IsNull expr
  | IsNotNull expr
  | Between expr expr expr
  | InList expr "expr list"

type_synonym regex = "string \<Rightarrow> string + (string \<Rightarrow> bool)"
type_synonym row_context = "string \<rightharpoonup> sql_value"

section \<open>Operations on values\<close>

fun value_to_bool :: "sql_value \<Rightarrow> bool sql_result" where
  "value_to_bool (VBoolean b) = Ok b"
| "value_to_bool VNull = Ok False"
| "value_to_bool (VInteger i) = Ok (i \<noteq> 0)"
| "value_to_bool (VText s) = Ok (s \<noteq> [])"

text \<open>\<^verbatim>\<open>{:?}\<close> of an \<^verbatim>\<open>Option<DataType>\<close>.\<close>

fun debug_data_type :: "data_type option \<Rightarrow> string" where
  "debug_data_type None = ''None''"
| "debug_data_type (Some IntegerType) = ''Some(Integer)''"
| "debug_data_type (Some TextType) = ''Some(Text)''"
| "debug_data_type (Some BooleanType) = ''Some(Boolean)''"

definition debug_types :: "sql_value \<Rightarrow> sql_value \<Rightarrow> string" where
  "debug_types a b = debug_data_type (value_data_type a) @ '' and '' @ debug_data_type (value_data_type b)"

definition compare_values :: "sql_value \<Rightarrow> sql_value \<Rightarrow> (sql_value \<Rightarrow> sql_value \<Rightarrow> bool) \<Rightarrow> sql_value sql_result" where
  "compare_values left right comparator =
     (case (left, right) of
        (VNull, _) \<Rightarrow> Ok VNull
      | (_, VNull) \<Rightarrow> Ok VNull
      | (VInteger _, VInteger _) \<Rightarrow> Ok (VBoolean (comparator left right))
      | (VText _, VText _) \<Rightarrow> Ok (VBoolean (comparator left right))
      | (VBoolean _, VBoolean _) \<Rightarrow> Ok (VBoolean (comparator left right))
      | _ \<Rightarrow> Err (TypeError ''Values of comparable types'' (debug_types left right)))"

text \<open>The derived order of \<^verbatim>\<open>Value\<close>: by variant, then by content.\<close>

fun variant_index :: "sql_value \<Rightarrow> nat" where
  "variant_index VNull = 0"
| "variant_index (VInteger _) = 1"
| "variant_index (VText _) = 2"
| "variant_index (VBoolean _) = 3"

definition derived_cmp :: "sql_value \<Rightarrow> sql_value \<Rightarrow> ordering" where
  "derived_cmp a b =
     (case value_compare a b of
        Some ord \<Rightarrow> ord
      | None \<Rightarrow> cmp (variant_index a) (variant_index b))"

definition i64_range :: "string \<Rightarrow> int \<Rightarrow> i64 sql_result" where
  "i64_range msg x = (if - (2 ^ 63) \<le> x \<and> x < 2 ^ 63 then Ok (word_of_int x) else Panic msg)"

definition i64_add :: "i64 \<Rightarrow> i64 \<Rightarrow> i64 sql_result" where
  "i64_add a b = i64_range ''attempt to add with overflow'' (sint a + sint b)"

definition i64_sub :: "i64 \<Rightarrow> i64 \<Rightarrow> i64 sql_result" where
  "i64_sub a b = i64_range ''attempt to subtract with overflow'' (sint a - sint b)"

definition i64_mul :: "i64 \<Rightarrow> i64 \<Rightarrow> i64 sql_result" where
  "i64_mul a b = i64_range ''attempt to multiply with overflow'' (sint a * sint b)"

text \<open>Division rounds towards zero.\<close>

definition i64_div :: "i64 \<Rightarrow> i64 \<Rightarrow> i64 sql_result" where
  "i64_div a b =
     (if b = 0 then Panic ''attempt to divide by zero''
      else i64_range ''attempt to divide with overflow'' (sgn (sint a) * sgn (sint b) * (\<bar>sint a\<bar> div \<bar>sint b\<bar>)))"

definition i64_neg :: "i64 \<Rightarrow> i64 sql_result" where
  "i64_neg a = i64_range ''attempt to negate with overflow'' (- sint a)"

definition arithmetic_op :: "sql_value \<Rightarrow> sql_value \<Rightarrow> (i64 \<Rightarrow> i64 \<Rightarrow> i64 sql_result) \<Rightarrow> sql_value sql_result" where
  "arithmetic_op left right f =
     (case (left, right) of
        (VInteger a, VInteger b) \<Rightarrow> rbind (f a b) (\<lambda>x. Ok (VInteger x))
      | _ \<Rightarrow> Err (TypeError ''INTEGER'' (debug_types left right)))"

definition like_op :: "regex \<Rightarrow> sql_value \<Rightarrow> sql_value \<Rightarrow> sql_value sql_result" where
  "like_op rx left right =
     (case (left, right) of
        (VText text, VText pattern) \<Rightarrow>
          let regex_pattern = replace_char (CHR ''_'') ''.'' (replace_char (CHR ''%'') ''.*'' pattern)
          in (case rx (''^'' @ regex_pattern @ ''$'') of
                Inl e \<Rightarrow> Err (ExecutionError (''Invalid LIKE pattern: '' @ e))
              | Inr is_match \<Rightarrow> Ok (VBoolean (is_match text)))
      | _ \<Rightarrow> Err (TypeError ''TEXT'' (debug_types left right)))"

definition binary_op :: "regex \<Rightarrow> binary_operator \<Rightarrow> sql_value \<Rightarrow> sql_value \<Rightarrow> sql_value sql_result" where
  "binary_op rx op a b =
     (case op of
        Eq \<Rightarrow> Ok (VBoolean (a = b))
      | Neq \<Rightarrow> Ok (VBoolean (a \<noteq> b))
      | Lt \<Rightarrow> compare_values a b (\<lambda>a b. derived_cmp a b = Less)
      | LtEq \<Rightarrow> compare_values a b (\<lambda>a b. derived_cmp a b \<noteq> Greater)
      | Gt \<Rightarrow> compare_values a b (\<lambda>a b. derived_cmp a b = Greater)
      | GtEq \<Rightarrow> compare_values a b (\<lambda>a b. derived_cmp a b \<noteq> Less)
      | And \<Rightarrow> rbind (value_to_bool a) (\<lambda>x. rbind (value_to_bool b) (\<lambda>y. Ok (VBoolean (x \<and> y))))
      | Or \<Rightarrow> rbind (value_to_bool a) (\<lambda>x. rbind (value_to_bool b) (\<lambda>y. Ok (VBoolean (x \<or> y))))
      | Add \<Rightarrow> arithmetic_op a b i64_add
      | Sub \<Rightarrow> arithmetic_op a b i64_sub
      | Mul \<Rightarrow> arithmetic_op a b i64_mul
      | Div \<Rightarrow> arithmetic_op a b i64_div
      | Like \<Rightarrow> like_op rx a b)"

definition unary_op :: "unary_operator \<Rightarrow> sql_value \<Rightarrow> sql_value sql_result" where
  "unary_op op v =
     (case op of
        Not \<Rightarrow> rbind (value_to_bool v) (\<lambda>b. Ok (VBoolean (\<not> b)))
      | Neg \<Rightarrow>
          (case v of
             VInteger i \<Rightarrow> rbind (i64_neg i) (\<lambda>x. Ok (VInteger x))
           | _ \<Rightarrow> Err (TypeError ''INTEGER''
                     (case value_data_type v of Some t \<Rightarrow> show_data_type t | None \<Rightarrow> ''NULL''))))"

section \<open>Evaluation\<close>

fun evaluate_expression :: "regex \<Rightarrow> row_context \<Rightarrow> expr \<Rightarrow> sql_value sql_result" where
  "evaluate_expression rx ctx (Literal v) = Ok v"
| "evaluate_expression rx ctx (ColumnRef c) = ok_or (ColumnNotFound c) (ctx c)"
| "evaluate_expression rx ctx (BinaryExpr l op r) =
     rbind (evaluate_expression rx ctx l) (\<lambda>a.
     rbind (evaluate_expression rx ctx r) (\<lambda>b. binary_op rx op a b))"
| "evaluate_expression rx ctx (UnaryExpr op e) = rbind (evaluate_expression rx ctx e) (unary_op op)"
| "evaluate_expression rx ctx (IsNull e) =
     rbind (evaluate_expression rx ctx e) (\<lambda>v. Ok (VBoolean (v = VNull)))"
| "evaluate_expression rx ctx (IsNotNull e) =
     rbind (evaluate_expression rx ctx e) (\<lambda>v. Ok (VBoolean (v \<noteq> VNull)))"
| "evaluate_expression rx ctx (Between e lo hi) =
     rbind (evaluate_expression rx ctx e) (\<lambda>v.
     rbind (evaluate_expression rx ctx lo) (\<lambda>l.
     rbind (evaluate_expression rx ctx hi) (\<lambda>h.
     rbind (compare_values v l (\<lambda>a b. derived_cmp a b \<noteq> Less)) (\<lambda>ge.
     rbind (compare_values v h (\<lambda>a b. derived_cmp a b \<noteq> Greater)) (\<lambda>le.
     rbind (value_to_bool ge) (\<lambda>x.
     if x then rbind (value_to_bool le) (\<lambda>y. Ok (VBoolean y)) else Ok (VBoolean False)))))))"
| "evaluate_expression rx ctx (FunctionCall f args) = Err (ExecutionError ''Expression not supported'')"
| "evaluate_expression rx ctx (InList e es) = Err (ExecutionError ''Expression not supported'')"

definition evaluate_boolean :: "regex \<Rightarrow> row_context \<Rightarrow> expr \<Rightarrow> bool sql_result" where
  "evaluate_boolean rx ctx e = rbind (evaluate_expression rx ctx e) value_to_bool"

text \<open>Later columns of the same name replace earlier ones.\<close>

definition evaluate_filter :: "regex \<Rightarrow> sql_value list \<Rightarrow> string list \<Rightarrow> expr \<Rightarrow> bool sql_result" where
  "evaluate_filter rx row columns predicate =
     (let context = foldl (\<lambda>m (col, v). m(col \<mapsto> v)) Map.empty (zip columns row)
      in evaluate_boolean rx context predicate)"

section \<open>Typed expressions\<close>

text \<open>The type of an expression over columns of known types; \<open>None\<close> when it has none.  Comparisons
  need two operands of one type, arithmetic needs integers, \<open>LIKE\<close> needs texts; everything counts as
  a truth value.\<close>

fun binary_type :: "binary_operator \<Rightarrow> data_type \<Rightarrow> data_type \<Rightarrow> data_type option" where
  "binary_type op s t =
     (if op \<in> {Eq, Neq, And, Or} then Some BooleanType
      else if op \<in> {Lt, LtEq, Gt, GtEq} then (if s = t then Some BooleanType else None)
      else if op = Like then (if s = TextType \<and> t = TextType then Some BooleanType else None)
      else (if s = IntegerType \<and> t = IntegerType then Some IntegerType else None))"

fun expr_type :: "(string \<rightharpoonup> data_type) \<Rightarrow> expr \<Rightarrow> data_type option" where
  "expr_type G (Literal v) = value_data_type v"
| "expr_type G (ColumnRef c) = G c"
| "expr_type G (BinaryExpr l op r) =
     (case (expr_type G l, expr_type G r) of (Some s, Some t) \<Rightarrow> binary_type op s t | _ \<Rightarrow> None)"
| "expr_type G (UnaryExpr op e) =
     (case expr_type G e of
        None \<Rightarrow> None
      | Some t \<Rightarrow> if op = Not then Some BooleanType else if t = IntegerType then Some IntegerType else None)"
| "expr_type G (IsNull e) = (if expr_type G e = None then None else Some BooleanType)"
| "expr_type G (IsNotNull e) = (if expr_type G e = None then None else Some BooleanType)"
| "expr_type G (Between e lo hi) =
     (if expr_type G e \<noteq> None \<and> expr_type G lo = expr_type G e \<and> expr_type G hi = expr_type G e
      then Some BooleanType else None)"
| "expr_type G (FunctionCall f args) = None"
| "expr_type G (InList e es) = None"

text \<open>The outcomes of a well-typed evaluation: a value of the type, an arithmetic panic, or the error of
  a pattern that the regular expression library rejects.\<close>

definition arithmetic_panics :: "string set" where
  "arithmetic_panics =
     {''attempt to add with overflow'', ''attempt to subtract with overflow'', ''attempt to multiply with overflow'',
      ''attempt to divide by zero'', ''attempt to divide with overflow'', ''attempt to negate with overflow''}"

fun outcome_ok :: "data_type \<Rightarrow> sql_value sql_result \<Rightarrow> bool" where
  "outcome_ok t (Ok v) \<longleftrightarrow> value_data_type v = Some t"
| "outcome_ok t (Err e) \<longleftrightarrow> (\<exists>m. e = ExecutionError (''Invalid LIKE pattern: '' @ m))"
| "outcome_ok t (Panic p) \<longleftrightarrow> p \<in> arithmetic_panics"

lemma outcome_ok_rbind:
  "outcome_ok s r \<Longrightarrow> (\<And>v. value_data_type v = Some s \<Longrightarrow> outcome_ok t (f v)) \<Longrightarrow> outcome_ok t (rbind r f)"
  by (cases r) auto

lemma data_type_cases:
  "value_data_type v = Some IntegerType \<longleftrightarrow> (\<exists>i. v = VInteger i)"
  "value_data_type v = Some TextType \<longleftrightarrow> (\<exists>s. v = VText s)"
  "value_data_type v = Some BooleanType \<longleftrightarrow> (\<exists>b. v = VBoolean b)"
  by (cases v; simp)+

lemma compare_values_type:
  assumes "value_data_type a = Some t" and "value_data_type b = Some t"
  shows "\<exists>x. compare_values a b f = Ok (VBoolean x)"
  using assms by (cases t) (auto simp: data_type_cases compare_values_def)

lemma value_to_bool_Ok: "\<exists>x. value_to_bool v = Ok x"
  by (cases v) auto

lemma i64_range_ok:
  "msg \<in> arithmetic_panics \<Longrightarrow> outcome_ok IntegerType (rbind (i64_range msg x) (\<lambda>y. Ok (VInteger y)))"
  by (simp add: i64_range_def)

lemmas i64_defs = i64_add_def i64_sub_def i64_mul_def i64_div_def i64_neg_def

lemma arithmetic_op_ok:
  assumes "op \<in> {Add, Sub, Mul, Div}"
  shows "outcome_ok IntegerType (binary_op rx op (VInteger a) (VInteger b))"
  using assms
  by (auto simp: binary_op_def arithmetic_op_def i64_defs i64_range_ok arithmetic_panics_def
      simp del: outcome_ok.simps(1,2))

lemma like_op_ok: "outcome_ok BooleanType (like_op rx (VText s) (VText p))"
  by (simp add: like_op_def Let_def split: sum.split)

lemma binary_op_ok:
  assumes "binary_type op s t = Some u" and "value_data_type a = Some s" and "value_data_type b = Some t"
  shows "outcome_ok u (binary_op rx op a b)"
proof -
  obtain x y where tb: "value_to_bool a = Ok x" "value_to_bool b = Ok y"
    using value_to_bool_Ok by metis
  have cmp: "s = t \<Longrightarrow> \<exists>x. compare_values a b f = Ok (VBoolean x)" for f
    using compare_values_type assms(2,3) by blast
  consider "op \<in> {Eq, Neq, And, Or}" | "op \<in> {Lt, LtEq, Gt, GtEq}" | "op = Like" | "op \<in> {Add, Sub, Mul, Div}"
    by (cases op) auto
  then show ?thesis
  proof cases
    case 1
    with assms(1) tb show ?thesis by (auto simp: binary_op_def split: if_splits)
  next
    case 2
    with assms(1) have "s = t" "u = BooleanType" by (auto split: if_splits)
    with 2 cmp show ?thesis by (auto simp: binary_op_def) (metis outcome_ok.simps(1) value_data_type.simps(4))+
  next
    case 3
    with assms show ?thesis by (auto simp: data_type_cases binary_op_def like_op_ok split: if_splits)
  next
    case 4
    with assms(1) have "s = IntegerType" "t = IntegerType" "u = IntegerType" by (auto split: if_splits)
    with assms(2,3) arithmetic_op_ok [OF 4] show ?thesis by (auto simp: data_type_cases)
  qed
qed

lemma unary_op_ok:
  assumes "value_data_type v = Some s" and "op = Not \<or> s = IntegerType"
  shows "outcome_ok (if op = Not then BooleanType else IntegerType) (unary_op op v)"
proof (cases op)
  case Not
  with value_to_bool_Ok [of v] show ?thesis by (auto simp: unary_op_def)
next
  case Neg
  with assms show ?thesis
    by (auto simp: unary_op_def data_type_cases i64_neg_def i64_range_ok arithmetic_panics_def
        simp del: outcome_ok.simps(1,2))
qed

lemma between_ok:
  assumes "value_data_type v = Some s" "value_data_type l = Some s" "value_data_type h = Some s"
  shows "outcome_ok BooleanType
    (rbind (compare_values v l f) (\<lambda>ge. rbind (compare_values v h g) (\<lambda>le.
       rbind (value_to_bool ge) (\<lambda>x.
       if x then rbind (value_to_bool le) (\<lambda>y. Ok (VBoolean y)) else Ok (VBoolean False)))))"
proof -
  from assms obtain x y where "compare_values v l f = Ok (VBoolean x)" "compare_values v h g = Ok (VBoolean y)"
    using compare_values_type by meson
  then show ?thesis by simp
qed

lemma evaluate_outcome:
  assumes ctx: "\<And>c s. G c = Some s \<Longrightarrow> \<exists>v. ctx c = Some v \<and> value_data_type v = Some s"
  shows "expr_type G e = Some t \<Longrightarrow> outcome_ok t (evaluate_expression rx ctx e)"
proof (induction e arbitrary: t)
  case (ColumnRef c)
  with ctx [of c t] show ?case by auto
next
  case (BinaryExpr l op r)
  then obtain s u where "expr_type G l = Some s" "expr_type G r = Some u" "binary_type op s u = Some t"
    by (auto split: option.splits)
  with BinaryExpr.IH show ?case by (auto intro!: outcome_ok_rbind binary_op_ok simp del: binary_type.simps)
next
  case (UnaryExpr op e)
  then obtain s where s: "expr_type G e = Some s" "op = Not \<or> s = IntegerType"
    "t = (if op = Not then BooleanType else IntegerType)"
    by (auto split: option.splits if_splits)
  from UnaryExpr.IH [OF s(1)] unary_op_ok [OF _ s(2)] s(3) show ?case
    by (auto intro: outcome_ok_rbind)
next
  case (Between e lo hi)
  then obtain s where s: "expr_type G e = Some s" "expr_type G lo = Some s" "expr_type G hi = Some s"
    and t: "t = BooleanType"
    by (auto split: if_splits)
  show ?case unfolding evaluate_expression.simps t
    by (rule outcome_ok_rbind [OF Between.IH(1) [OF s(1)]], rule outcome_ok_rbind [OF Between.IH(2) [OF s(2)]],
        rule outcome_ok_rbind [OF Between.IH(3) [OF s(3)]], rule between_ok)
qed (auto intro!: outcome_ok_rbind split: if_splits)

text \<open>Whatever the types, only arithmetic panics.\<close>

lemma i64_range_panic: "i64_range msg x = Panic p \<Longrightarrow> p = msg"
  by (simp add: i64_range_def split: if_splits)

lemma value_to_bool_not_panic [simp]: "value_to_bool v \<noteq> Panic p"
  by (cases v) simp_all

lemma compare_values_not_panic [simp]: "compare_values a b f \<noteq> Panic p"
  by (cases a; cases b) (simp_all add: compare_values_def)

lemma binary_op_panic: "binary_op rx op a b = Panic p \<Longrightarrow> p \<in> arithmetic_panics"
  by (cases op; cases a; cases b)
    (auto simp: binary_op_def arithmetic_op_def like_op_def rbind_Panic_iff i64_defs arithmetic_panics_def Let_def
      dest!: i64_range_panic split: sum.splits if_splits)

lemma unary_op_panic: "unary_op op v = Panic p \<Longrightarrow> p \<in> arithmetic_panics"
  by (cases op; cases v)
    (auto simp: unary_op_def rbind_Panic_iff i64_neg_def arithmetic_panics_def dest!: i64_range_panic)

lemma evaluate_panic: "evaluate_expression rx ctx e = Panic p \<Longrightarrow> p \<in> arithmetic_panics"
  by (induction e)
    (auto simp: rbind_Panic_iff ok_or_def dest: binary_op_panic unary_op_panic split: option.splits if_splits)

text \<open>C23. Well-typed expressions do not go wrong: over a row whose columns hold values of the declared
  types, the evaluation of an expression of type \<open>t\<close> gives a value of type \<open>t\<close>, or panics in an
  arithmetic operation, or reports a \<open>LIKE\<close> pattern that does not compile; it never reports a type error
  or a missing column.\<close>

theorem evaluate_typed:
  assumes "\<And>c s. G c = Some s \<Longrightarrow> \<exists>v. ctx c = Some v \<and> value_data_type v = Some s"
    and "expr_type G e = Some t"
  shows "outcome_ok t (evaluate_expression rx ctx e)"
  using assms by (rule evaluate_outcome)

theorem evaluate_typed_witness:
  "outcome_ok BooleanType
     (evaluate_expression (\<lambda>p. Inr (\<lambda>s. s = p)) [''age'' \<mapsto> VInteger 41, ''name'' \<mapsto> VText ''bo'']
       (BinaryExpr
         (BinaryExpr (BinaryExpr (ColumnRef ''age'') Add (Literal (VInteger 1))) Gt (Literal (VInteger 18)))
         And (BinaryExpr (ColumnRef ''name'') Like (Literal (VText ''b%'')))))"
  by (rule evaluate_typed [where G = "[''age'' \<mapsto> IntegerType, ''name'' \<mapsto> TextType]"])
    (auto split: if_splits)

end
