(* ===== verification/Sql_Row.thy ===== *)
theory Sql_Row
  imports Sql_Expr
begin

text \<open>
  Keys and rows of \<^verbatim>\<open>sabi-sql/src/executor/mod.rs\<close>: how the values of an \<^verbatim>\<open>INSERT\<close> become the key and
  the bytes that the storage engine keeps, and how a stored row is read back.
\<close>

section \<open>Row keys\<close>

text \<open>The position of a primary-key column: in the column list of the statement when it has one, in the
  schema otherwise.\<close>

definition key_index :: "table_schema \<Rightarrow> string list option \<Rightarrow> string \<Rightarrow> nat sql_result" where
  "key_index schema columns pk_col =
     ok_or (ColumnNotFound pk_col)
       (case columns of
          Some cols \<Rightarrow> position (\<lambda>c. c = pk_col) cols
        | None \<Rightarrow> position (\<lambda>c. cd_name c = pk_col) (ts_columns schema))"

fun key_parts :: "regex \<Rightarrow> table_schema \<Rightarrow> string list option \<Rightarrow> expr list \<Rightarrow> string list \<Rightarrow> bytes list sql_result" where
  "key_parts rx schema columns values [] = Ok []"
| "key_parts rx schema columns values (pk_col # pk_cols) =
     rbind (key_index schema columns pk_col) (\<lambda>idx.
     if length values \<le> idx
     then Err (ExecutionError (''Primary key column '' @ [quote_char] @ pk_col @ [quote_char] @ '' not provided''))
     else
       rbind (evaluate_expression rx Map.empty (values ! idx)) (\<lambda>value.
       rbind (key_parts rx schema columns values pk_cols) (\<lambda>parts. Ok (to_bytes value # parts))))"

fun all_bytes :: "regex \<Rightarrow> expr list \<Rightarrow> bytes sql_result" where
  "all_bytes rx [] = Ok []"
| "all_bytes rx (e # es) =
     rbind (evaluate_expression rx Map.empty e) (\<lambda>val.
     rbind (all_bytes rx es) (\<lambda>bs. Ok (to_bytes val @ bs)))"

definition build_row_key :: "regex \<Rightarrow> table_schema \<Rightarrow> string list option \<Rightarrow> expr list \<Rightarrow> bytes sql_result" where
  "build_row_key rx schema columns values =
     (case ts_primary_key schema of
        Some pk_cols \<Rightarrow>
          rbind (key_parts rx schema columns values pk_cols) (\<lambda>parts.
          Ok (concat (map (\<lambda>part. le32 (of_nat (length part)) @ part) parts)))
      | None \<Rightarrow> all_bytes rx values)"

section \<open>Writing rows\<close>

definition find_column :: "table_schema \<Rightarrow> string \<Rightarrow> column_def sql_result" where
  "find_column schema name = ok_or (ColumnNotFound name) (find (\<lambda>c. cd_name c = name) (ts_columns schema))"

definition type_check :: "column_def \<Rightarrow> sql_value \<Rightarrow> unit sql_result" where
  "type_check col value =
     (case value_data_type value of
        None \<Rightarrow> Ok ()
      | Some t \<Rightarrow> if t = cd_data_type col then Ok ()
                  else Err (TypeError (show_data_type (cd_data_type col)) (show_data_type t)))"

text \<open>The loop over the column names, \<open>i\<close> being the index of the first name.\<close>

fun serialize_columns :: "regex \<Rightarrow> table_schema \<Rightarrow> expr list \<Rightarrow> nat \<Rightarrow> string list \<Rightarrow> bytes sql_result" where
  "serialize_columns rx schema values i [] = Ok []"
| "serialize_columns rx schema values i (name # names) =
     rbind (find_column schema name) (\<lambda>col.
     rbind (index values i) (\<lambda>e.
     rbind (evaluate_expression rx Map.empty e) (\<lambda>value.
     rbind (type_check col value) (\<lambda>_.
     rbind (serialize_columns rx schema values (i + 1) names) (\<lambda>bs. Ok (to_bytes value @ bs))))))"

definition serialize_row :: "regex \<Rightarrow> table_schema \<Rightarrow> string list option \<Rightarrow> expr list \<Rightarrow> bytes sql_result" where
  "serialize_row rx schema columns values =
     serialize_columns rx schema values 0
       (case columns of Some cols \<Rightarrow> cols | None \<Rightarrow> map cd_name (ts_columns schema))"

section \<open>Reading rows\<close>

text \<open>One value at \<open>cursor\<close>, with the cursor after it.  A boolean is read without moving the cursor
  past its byte.\<close>

definition read_value :: "bytes \<Rightarrow> nat \<Rightarrow> (sql_value \<times> nat) sql_result" where
  "read_value bytes cursor =
     rbind (index bytes cursor) (\<lambda>tag.
     let cursor = cursor + 1 in
     if tag = 0 then Ok (VNull, cursor)
     else if tag = 1 then
       (if length bytes < cursor + 8 then Err (SqlInternal ''Row data truncated'')
        else Ok (VInteger (from_le (take 8 (drop cursor bytes))), cursor + 8))
     else if tag = 2 then
       (if length bytes < cursor + 4 then Err (SqlInternal ''Row data truncated'')
        else
          let len = unat (from_le (take 4 (drop cursor bytes)) :: u32); cursor = cursor + 4
          in if length bytes < cursor + len then Err (SqlInternal ''Text data truncated'')
             else rbind (from_utf8 (take len (drop cursor bytes))) (\<lambda>text. Ok (VText text, cursor + len)))
     else if tag = 3 then
       (if length bytes \<le> cursor then Err (SqlInternal ''Row data truncated'')
        else Ok (VBoolean (bytes ! cursor \<noteq> 0), cursor))
     else Err (SqlInternal ''Unknown value type tag''))"

fun deserialize_from :: "nat \<Rightarrow> bytes \<Rightarrow> nat \<Rightarrow> sql_value list sql_result" where
  "deserialize_from 0 bytes cursor = Ok []"
| "deserialize_from (Suc n) bytes cursor =
     (if length bytes \<le> cursor then Ok []
      else rbind (read_value bytes cursor) (\<lambda>(value, cursor').
           rbind (deserialize_from n bytes cursor') (\<lambda>values. Ok (value # values))))"

definition deserialize_row :: "table_schema \<Rightarrow> bytes \<Rightarrow> sql_value list sql_result" where
  "deserialize_row schema bytes = deserialize_from (length (ts_columns schema)) bytes 0"

section \<open>Rows that survive\<close>

fun is_boolean :: "sql_value \<Rightarrow> bool" where
  "is_boolean (VBoolean _) = True"
| "is_boolean _ = False"

text \<open>A value that the column accepts.\<close>

definition fits :: "column_def \<Rightarrow> sql_value \<Rightarrow> bool" where
  "fits col v \<longleftrightarrow> (value_data_type v = None \<or> value_data_type v = Some (cd_data_type col))"

lemma type_check_fits [simp]: "fits col v \<Longrightarrow> type_check col v = Ok ()"
  by (auto simp: fits_def type_check_def)

lemma find_column_nth:
  assumes "distinct (map cd_name (ts_columns schema))" and "i < length (ts_columns schema)"
  shows "find_column schema (cd_name (ts_columns schema ! i)) = Ok (ts_columns schema ! i)"
proof -
  have "find (\<lambda>c. cd_name c = cd_name (cs ! i)) cs = Some (cs ! i)"
    if "distinct (map cd_name cs)" "i < length cs" for cs :: "column_def list"
    using that by (auto simp: find_Some_iff distinct_conv_nth intro!: exI [of _ i])
  with assms show ?thesis by (simp add: find_column_def)
qed

lemma serialize_columns_literals:
  assumes "distinct (map cd_name (ts_columns schema))" and "list_all2 fits (ts_columns schema) vs"
    and "i \<le> length vs"
  shows "serialize_columns rx schema (map Literal vs) i (map cd_name (drop i (ts_columns schema)))
     = Ok (concat (map to_bytes (drop i vs)))"
  using assms(3)
proof (induction "length vs - i" arbitrary: i)
  case 0
  with list_all2_lengthD [OF assms(2)] show ?case by simp
next
  case (Suc n)
  then have i: "i < length vs" "i < length (ts_columns schema)"
    using list_all2_lengthD [OF assms(2)] by simp_all
  have "fits (ts_columns schema ! i) (vs ! i)" using assms(2) i by (simp add: list_all2_nthD2)
  moreover have "serialize_columns rx schema (map Literal vs) (Suc i) (map cd_name (drop (Suc i) (ts_columns schema)))
     = Ok (concat (map to_bytes (drop (Suc i) vs)))"
    using Suc.hyps(1) [of "Suc i"] Suc.hyps(2) i by simp
  ultimately show ?case using i find_column_nth [OF assms(1) i(2)]
    by (simp add: Cons_nth_drop_Suc [symmetric])
qed

lemma read_value_to_bytes:
  assumes "value_ok v" and "\<not> is_boolean v"
  shows "read_value (pre @ to_bytes v @ rest) (length pre) = Ok (v, length pre + length (to_bytes v))"
proof (cases v)
  case (VText s)
  have "unat (of_nat (length s) :: u32) = length s"
    using assms VText by (simp add: unat_of_nat take_bit_nat_eq_self)
  with assms VText show ?thesis by (simp add: read_value_def from_utf8_string nth_append Let_def)
qed (use assms in \<open>simp_all add: read_value_def nth_append\<close>)

lemma read_boolean:
  "read_value (pre @ to_bytes (VBoolean b) @ rest) (length pre) = Ok (VBoolean b, length pre + 1)"
  by (simp add: read_value_def nth_append)

lemma to_bytes_Cons: "to_bytes v \<noteq> []"
  by (cases v) simp_all

lemma deserialize_from_rows:
  assumes "\<forall>v \<in> set vs. value_ok v" and "\<forall>v \<in> set (butlast vs). \<not> is_boolean v"
  shows "deserialize_from (length vs) (pre @ concat (map to_bytes vs)) (length pre) = Ok vs"
  using assms
proof (induction vs arbitrary: pre)
  case (Cons v vs)
  let ?row = "pre @ to_bytes v @ concat (map to_bytes vs)"
  have len: "\<not> length ?row \<le> length pre" using to_bytes_Cons [of v] by simp
  show ?case
  proof (cases "vs = [] \<and> is_boolean v")
    case True
    then obtain b where "v = VBoolean b" by (cases v) auto
    with True len read_boolean [of pre b "[]"] show ?thesis by simp
  next
    case False
    with Cons.prems have v: "value_ok v" "\<not> is_boolean v" by (auto split: if_splits)
    have "deserialize_from (length vs) ((pre @ to_bytes v) @ concat (map to_bytes vs)) (length (pre @ to_bytes v)) = Ok vs"
      using Cons.prems by (intro Cons.IH) (auto split: if_splits)
    with read_value_to_bytes [OF v] len show ?thesis by simp
  qed
qed simp

text \<open>C26. A row of literals that the columns accept is read back as it was inserted, provided that only its
  last value may be a boolean.\<close>

theorem row_roundtrip:
  assumes "distinct (map cd_name (ts_columns schema))"
    and "list_all2 fits (ts_columns schema) vs"
    and "\<forall>v \<in> set vs. value_ok v" and "\<forall>v \<in> set (butlast vs). \<not> is_boolean v"
  shows "rbind (serialize_row rx schema None (map Literal vs)) (deserialize_row schema) = Ok vs"
proof -
  have "serialize_row rx schema None (map Literal vs) = Ok (concat (map to_bytes vs))"
    using serialize_columns_literals [OF assms(1,2), of 0 rx] by (simp add: serialize_row_def)
  with deserialize_from_rows [OF assms(3,4), of "[]"] list_all2_lengthD [OF assms(2)] show ?thesis
    by (simp add: deserialize_row_def)
qed

definition sample_schema :: table_schema where
  "sample_schema = \<lparr>ts_name = ''users'',
     ts_columns =
       [\<lparr>cd_name = ''id'', cd_data_type = IntegerType, cd_nullable = False, cd_primary_key = True\<rparr>,
        \<lparr>cd_name = ''name'', cd_data_type = TextType, cd_nullable = True, cd_primary_key = False\<rparr>,
        \<lparr>cd_name = ''active'', cd_data_type = BooleanType, cd_nullable = True, cd_primary_key = False\<rparr>],
     ts_primary_key = Some [''id'']\<rparr>"

theorem row_roundtrip_witness:
  "rbind (serialize_row (\<lambda>p. Inl p) sample_schema None (map Literal [VInteger 7, VText ''ann'', VBoolean True]))
     (deserialize_row sample_schema) = Ok [VInteger 7, VText ''ann'', VBoolean True]"
  by (rule row_roundtrip) (simp_all add: sample_schema_def fits_def string_bytes_def)

text \<open>A stored boolean hides the text that follows it: whatever the schema and the rest of the row, a row
  that starts with a boolean and a text is not read back.  The tag read after a boolean is the byte of the
  boolean itself, which says \<open>NULL\<close> or integer.\<close>

lemma boolean_hides_text:
  "deserialize_row schema (concat (map to_bytes (VBoolean b # VText s # rest))) \<noteq> Ok (VBoolean b # VText s # rest)"
proof -
  let ?row = "concat (map to_bytes (VBoolean b # VText s # rest))"
  have first: "read_value ?row 0 = Ok (VBoolean b, 1)"
    using read_boolean [of "[]" b "concat (map to_bytes (VText s # rest))"] by simp
  have second: "read_value ?row 1 \<noteq> Ok (VText s, c)" for c
    by (simp add: read_value_def Let_def)
  show ?thesis
  proof (cases "length (ts_columns schema)")
    case (Suc m)
    with first second show ?thesis
      by (cases m) (auto simp: deserialize_row_def rbind_Ok_iff simp del: concat.simps list.map)
  qed (simp add: deserialize_row_def)
qed

end
