(* ===== verification/Sql_Planner.thy ===== *)
theory Sql_Planner
  imports Sql_Row
begin

text \<open>
  Statements (\<^verbatim>\<open>sabi-sql/src/parser/ast.rs\<close>), the catalog and the planner
  (\<^verbatim>\<open>sabi-sql/src/planner/mod.rs\<close>).  The state of the planner is its catalog.  A \<^verbatim>\<open>usize\<close> limit or
  offset is a 64-bit word, since the executor adds the two.
\<close>

section \<open>Statements and plans\<close>

record create_table_stmt =
  ct_table_name :: string
  ct_columns :: "column_def list"
  ct_if_not_exists :: bool

record insert_stmt =
  in_table_name :: string
  in_columns :: "string list option"
  in_values :: "expr list list"

datatype select_item = Wildcard | SelectExpr expr "string option"

datatype table_ref = Table string "string option"

record order_by_expr =
  ob_expr :: expr
  ob_asc :: bool

record select_stmt =
  sel_distinct :: bool
  sel_columns :: "select_item list"
  sel_from :: table_ref
  sel_where_clause :: "expr option"
  sel_order_by :: "order_by_expr list"
  sel_limit :: "expr option"
  sel_offset :: "expr option"

record delete_stmt =
  del_table_name :: string
  del_where_clause :: "expr option"

datatype statement =
    StCreateTable create_table_stmt
  | StInsert insert_stmt
  | StSelect select_stmt
  | StDelete delete_stmt
  | StBeginTransaction
  | StCommit
  | StRollback

datatype logical_plan =
    Scan string "string list" "expr option" table_schema
  | Project logical_plan "string list" "expr list"
  | Filter logical_plan expr
  | Limit logical_plan u64 u64
  | CreateTable table_schema bool
  | Insert string "string list option" "expr list list" table_schema
  | Delete string "expr option" table_schema
  | BeginTransaction
  | Commit
  | Rollback

section \<open>The catalog\<close>

type_synonym catalog = "string \<rightharpoonup> table_schema"

definition catalog_new :: catalog where "catalog_new = Map.empty"

definition add_table :: "table_schema \<Rightarrow> catalog \<Rightarrow> catalog" where
  "add_table schema c = c(ts_name schema \<mapsto> schema)"

definition get_table :: "catalog \<Rightarrow> string \<Rightarrow> table_schema option" where
  "get_table c name = c name"

definition table_exists :: "catalog \<Rightarrow> string \<Rightarrow> bool" where
  "table_exists c name \<longleftrightarrow> c name \<noteq> None"

section \<open>Planning\<close>

definition quoted :: "string \<Rightarrow> string" where
  "quoted s = [quote_char] @ s @ [quote_char]"

text \<open>\<^verbatim>\<open>Vec::into\<close> makes the primary key \<open>Some\<close> of the list, also when no column is a key column.\<close>

definition create_schema :: "create_table_stmt \<Rightarrow> table_schema" where
  "create_schema stmt =
     \<lparr>ts_name = ct_table_name stmt, ts_columns = ct_columns stmt,
      ts_primary_key = Some (map cd_name (filter cd_primary_key (ct_columns stmt)))\<rparr>"

definition plan_create_table :: "create_table_stmt \<Rightarrow> (catalog, logical_plan, sql_error) op" where
  "plan_create_table stmt c =
     (if \<not> ct_if_not_exists stmt \<and> table_exists c (ct_table_name stmt)
      then (Err (PlannerError (''Table '' @ quoted (ct_table_name stmt) @ '' already exists'')), c)
      else
        let schema = create_schema stmt
        in (Ok (CreateTable schema (ct_if_not_exists stmt)), add_table schema c))"

fun verify_columns :: "table_schema \<Rightarrow> string list \<Rightarrow> unit sql_result" where
  "verify_columns schema [] = Ok ()"
| "verify_columns schema (col # cols) =
     (if \<not> list_ex (\<lambda>c. cd_name c = col) (ts_columns schema) then Err (ColumnNotFound col)
      else verify_columns schema cols)"

definition plan_insert :: "catalog \<Rightarrow> insert_stmt \<Rightarrow> logical_plan sql_result" where
  "plan_insert c stmt =
     rbind (ok_or (TableNotFound (in_table_name stmt)) (get_table c (in_table_name stmt))) (\<lambda>schema.
     rbind (index (in_values stmt) 0) (\<lambda>first.
     rbind
       (case in_columns stmt of
          Some cols \<Rightarrow>
            if length cols \<noteq> length first then Err (PlannerError ''Column count doesn't match value count'')
            else verify_columns schema cols
        | None \<Rightarrow>
            if length first \<noteq> length (ts_columns schema)
            then Err (PlannerError ''Value count doesn't match column count'')
            else Ok ()) (\<lambda>_.
     Ok (Insert (in_table_name stmt) (in_columns stmt) (in_values stmt) schema))))"

fun resolve_select_items :: "table_schema \<Rightarrow> select_item list \<Rightarrow> string list sql_result" where
  "resolve_select_items schema [] = Ok []"
| "resolve_select_items schema (Wildcard # items) =
     rbind (resolve_select_items schema items) (\<lambda>cols. Ok (map cd_name (ts_columns schema) @ cols))"
| "resolve_select_items schema (SelectExpr e alias # items) =
     (case e of
        ColumnRef col_name \<Rightarrow>
          if \<not> list_ex (\<lambda>c. cd_name c = col_name) (ts_columns schema) then Err (ColumnNotFound col_name)
          else
            rbind (resolve_select_items schema items) (\<lambda>cols.
            Ok ((case alias of Some a \<Rightarrow> a | None \<Rightarrow> col_name) # cols))
      | _ \<Rightarrow> Err (PlannerError ''Expressions in SELECT not yet supported''))"

fun evaluate_constant :: "expr \<Rightarrow> sql_value sql_result" where
  "evaluate_constant (Literal val) = Ok val"
| "evaluate_constant _ = Err (PlannerError ''Non-constant expression in LIMIT/OFFSET'')"

text \<open>A limit or offset that is an integer literal, cast to \<^verbatim>\<open>usize\<close>; anything else counts as absent.\<close>

definition constant_usize :: "u64 \<Rightarrow> expr option \<Rightarrow> u64" where
  "constant_usize fallback e =
     (case e of
        None \<Rightarrow> fallback
      | Some e \<Rightarrow> (case evaluate_constant e of Ok (VInteger i) \<Rightarrow> i | _ \<Rightarrow> fallback))"

definition plan_select :: "catalog \<Rightarrow> select_stmt \<Rightarrow> logical_plan sql_result" where
  "plan_select c stmt =
     (case sel_from stmt of
        Table name _ \<Rightarrow>
          rbind (ok_or (TableNotFound name) (get_table c name)) (\<lambda>schema.
          rbind (resolve_select_items schema (sel_columns stmt)) (\<lambda>columns.
          let plan = Scan name columns (sel_where_clause stmt) schema;
              plan = (case sel_where_clause stmt of Some predicate \<Rightarrow> Filter plan predicate | None \<Rightarrow> plan)
          in Ok (if sel_limit stmt \<noteq> None \<or> sel_offset stmt \<noteq> None
                 then Limit plan (constant_usize (- 1) (sel_limit stmt)) (constant_usize 0 (sel_offset stmt))
                 else plan))))"

definition plan_delete :: "catalog \<Rightarrow> delete_stmt \<Rightarrow> logical_plan sql_result" where
  "plan_delete c stmt =
     rbind (ok_or (TableNotFound (del_table_name stmt)) (get_table c (del_table_name stmt))) (\<lambda>schema.
     Ok (Delete (del_table_name stmt) (del_where_clause stmt) schema))"

fun plan :: "statement \<Rightarrow> (catalog, logical_plan, sql_error) op" where
  "plan (StCreateTable create) c = plan_create_table create c"
| "plan (StInsert ins) c = (plan_insert c ins, c)"
| "plan (StSelect select) c = (plan_select c select, c)"
| "plan (StDelete del) c = (plan_delete c del, c)"
| "plan StBeginTransaction c = (Ok BeginTransaction, c)"
| "plan StCommit c = (Ok Commit, c)"
| "plan StRollback c = (Ok Rollback, c)"

section \<open>Planned insertions\<close>

lemma index_panic: "index xs i = Panic p \<Longrightarrow> length xs \<le> i"
  by (simp add: index_def split: if_splits)

lemma verify_columns_Ok:
  "verify_columns schema cols = Ok () \<longleftrightarrow> (\<forall>col \<in> set cols. \<exists>c \<in> set (ts_columns schema). cd_name c = col)"
  by (induction cols) (auto simp: list_ex_iff)

lemma serialize_columns_panic:
  "serialize_columns rx schema values i names = Panic p \<Longrightarrow> i + length names \<le> length values
     \<Longrightarrow> p \<in> arithmetic_panics"
proof (induction names arbitrary: i)
  case (Cons name names)
  from Cons.prems(2) have "i < length values" by simp
  with Cons.prems(1) consider "evaluate_expression rx Map.empty (values ! i) = Panic p"
    | "serialize_columns rx schema values (i + 1) names = Panic p"
    by (auto simp: rbind_Panic_iff find_column_def ok_or_def type_check_def split: option.splits if_splits)
  then show ?case
    using Cons.IH [of "i + 1"] Cons.prems(2) evaluate_panic by cases auto
qed simp

lemma planned_columns:
  assumes "plan_insert c stmt = Ok (Insert n columns vals schema)"
  shows "vals \<noteq> [] \<and> length (vals ! 0) = length (case columns of Some cols \<Rightarrow> cols | None \<Rightarrow> map cd_name (ts_columns schema))"
proof (cases "in_values stmt")
  case Nil
  with assms show ?thesis by (simp add: plan_insert_def rbind_Ok_iff index_def)
next
  case (Cons first rows)
  with assms have "columns = in_columns stmt" "vals = in_values stmt"
    by (simp_all add: plan_insert_def rbind_Ok_iff)
  with assms Cons show ?thesis
    by (cases "in_columns stmt") (auto simp: plan_insert_def rbind_Ok_iff split: if_splits)
qed

text \<open>What the planner checks is what the executor needs, for rows as long as the first: the encoding of
  such a row of a planned insertion does not index out of range and finds every column; it panics only in
  the arithmetic of an expression.\<close>

lemma planned_insert_safe:
  assumes "plan_insert c stmt = Ok (Insert n columns vals schema)"
    and "row \<in> set vals" and "length row = length (vals ! 0)"
    and "serialize_row rx schema columns row = Panic p"
  shows "p \<in> arithmetic_panics"
  using assms(4) planned_columns [OF assms(1)] assms(3)
  by (auto simp: serialize_row_def intro: serialize_columns_panic)

definition sample_insert :: insert_stmt where
  "sample_insert = \<lparr>in_table_name = ''users'', in_columns = Some [''name'', ''id''],
     in_values = [[Literal (VText ''ann''), Literal (VInteger 7)],
                  [Literal (VText ''bo''), BinaryExpr (Literal (VInteger 1)) Div (Literal (VInteger 0))]]\<rparr>"

lemma sample_insert_plan:
  "plan_insert [''users'' \<mapsto> sample_schema] sample_insert =
     Ok (Insert ''users'' (Some [''name'', ''id'']) (in_values sample_insert) sample_schema)"
  by (simp add: plan_insert_def sample_insert_def get_table_def sample_schema_def)

lemma sample_insert_panics:
  "serialize_row (\<lambda>p. Inl p) sample_schema (Some [''name'', ''id'']) (in_values sample_insert ! 1) =
     Panic ''attempt to divide by zero''"
  by (simp add: serialize_row_def sample_insert_def sample_schema_def find_column_def type_check_def
      binary_op_def arithmetic_op_def i64_div_def)

end
