(* ===== verification/Mvcc.thy ===== *)
theory Mvcc
  imports Core_Types
begin

text \<open>
  \<^verbatim>\<open>sabi-storage/src/mvcc.rs\<close>: row versions and their visibility, the in-memory versioned table, and
  the transaction manager.  \<^verbatim>\<open>Uuid::now_v7()\<close> reads the clock, so the id of a new transaction is an
  argument of \<open>tm_begin\<close>.
\<close>

datatype tx_state = Active | Committed | Aborted

record 'u transaction =
  t_tx_id :: "'u tx_id"
  t_snapshot_tx :: "'u tx_id"
  t_state :: tx_state
  t_read_only :: bool
  t_tx_number :: u64

record 'u row_version =
  rv_created_by :: "'u tx_id"
  rv_deleted_by :: "'u tx_id option"
  rv_value :: bytes

type_synonym 'u version_chain = "'u row_version list"

record 'u mvcc_table =
  mt_rows :: "bytes \<rightharpoonup> 'u version_chain"

definition is_visible :: "'u ext_lib \<Rightarrow> 'u row_version \<Rightarrow> 'u transaction \<Rightarrow> bool" where
  "is_visible L v tx \<longleftrightarrow>
     tx_le L (rv_created_by v) (t_snapshot_tx tx) \<and>
     (case rv_deleted_by v of None \<Rightarrow> True | Some d \<Rightarrow> tx_gt L d (t_snapshot_tx tx))"

definition mvcc_new :: "'u mvcc_table" where
  "mvcc_new = \<lparr>mt_rows = Map.empty\<rparr>"

text \<open>\<^verbatim>\<open>versions.iter().find_map(..)\<close>: the value of the first visible version.\<close>

fun visible_value :: "'u ext_lib \<Rightarrow> 'u version_chain \<Rightarrow> 'u transaction \<Rightarrow> bytes option" where
  "visible_value L [] tx = None"
| "visible_value L (v # vs) tx = (if is_visible L v tx then Some (rv_value v) else visible_value L vs tx)"

definition mvcc_read :: "'u ext_lib \<Rightarrow> bytes \<Rightarrow> 'u transaction \<Rightarrow> 'u mvcc_table \<Rightarrow> bytes option" where
  "mvcc_read L k tx t =
     (case mt_rows t k of None \<Rightarrow> None | Some versions \<Rightarrow> visible_value L versions tx)"

definition mvcc_insert :: "bytes \<Rightarrow> bytes \<Rightarrow> 'u transaction \<Rightarrow> 'u mvcc_table \<Rightarrow> 'u mvcc_table" where
  "mvcc_insert k v tx t =
     (let versions = (case mt_rows t k of None \<Rightarrow> [] | Some vs \<Rightarrow> vs);
          new = \<lparr>rv_created_by = t_tx_id tx, rv_deleted_by = None, rv_value = v\<rparr>
      in t\<lparr>mt_rows := (mt_rows t)(k \<mapsto> new # versions)\<rparr>)"

text \<open>The loop that marks the first visible version; \<open>None\<close> when there is none.\<close>

fun mark_deleted :: "'u ext_lib \<Rightarrow> 'u transaction \<Rightarrow> 'u version_chain \<Rightarrow> 'u version_chain option" where
  "mark_deleted L tx [] = None"
| "mark_deleted L tx (v # vs) =
     (if is_visible L v tx then Some (v\<lparr>rv_deleted_by := Some (t_tx_id tx)\<rparr> # vs)
      else map_option ((#) v) (mark_deleted L tx vs))"

definition mvcc_delete :: "'u ext_lib \<Rightarrow> bytes \<Rightarrow> 'u transaction \<Rightarrow> ('u mvcc_table, unit, db_error) op" where
  "mvcc_delete L k tx t =
     (case mt_rows t k of
        None \<Rightarrow> (Err (NotFound ''Row not found''), t)
      | Some versions \<Rightarrow>
          (case mark_deleted L tx versions of
             Some versions' \<Rightarrow> (Ok (), t\<lparr>mt_rows := (mt_rows t)(k \<mapsto> versions')\<rparr>)
           | None \<Rightarrow> (Err (NotFound ''Row not visible''), t)))"

section \<open>The transaction manager\<close>

record 'u tx_manager =
  tm_next_tx :: u64
  tm_active :: "'u tx_id \<rightharpoonup> 'u transaction"
  tm_latest_committed :: u64
  tm_registry :: "'u tx_id option list"

definition tm_new :: "'u ext_lib \<Rightarrow> 'u tx_manager" where
  "tm_new L = \<lparr>tm_next_tx = 1, tm_active = Map.empty, tm_latest_committed = 0,
     tm_registry = [Some (tx_nil L)]\<rparr>"

text \<open>\<^verbatim>\<open>Vec::resize(n, None)\<close> of a shorter vector.\<close>

definition grow_registry :: "nat \<Rightarrow> 'a option list \<Rightarrow> 'a option list" where
  "grow_registry n xs = (if length xs \<le> n then xs @ replicate (n + 1 - length xs) None else xs)"

text \<open>\<^verbatim>\<open>fetch_add\<close> wraps around and returns the old value; the indices below are in range because
  the registry has just been grown.\<close>

definition tm_begin :: "'u ext_lib \<Rightarrow> 'u \<Rightarrow> bool \<Rightarrow> 'u tx_manager \<Rightarrow> 'u transaction \<times> 'u tx_manager" where
  "tm_begin L now read_only m =
     (let tx_number = tm_next_tx m;
          tx_id = TxId now;
          registry = (grow_registry (unat tx_number) (tm_registry m))[unat tx_number := Some tx_id];
          snapshot = (if tx_number > 1
                      then (case registry ! (unat tx_number - 1) of Some t \<Rightarrow> t | None \<Rightarrow> tx_nil L)
                      else tx_nil L);
          tx = \<lparr>t_tx_id = tx_id, t_snapshot_tx = snapshot, t_state = Active,
                t_read_only = read_only, t_tx_number = tx_number\<rparr>
      in (tx, m\<lparr>tm_next_tx := tx_number + 1, tm_registry := registry,
                tm_active := (tm_active m)(tx_id \<mapsto> tx)\<rparr>))"

fun show_state :: "tx_state \<Rightarrow> string" where
  "show_state Active = ''Active''"
| "show_state Committed = ''Committed''"
| "show_state Aborted = ''Aborted''"

definition show_tx :: "'u ext_lib \<Rightarrow> 'u tx_id \<Rightarrow> string" where
  "show_tx L t = uuid_display L (uuid_of t)"

definition not_active_error :: "'u ext_lib \<Rightarrow> 'u tx_id \<Rightarrow> tx_state \<Rightarrow> db_error" where
  "not_active_error L t s = InvalidTransaction
     (''Transaction '' @ show_tx L t @ '' is not active (state: '' @ show_state s @ '')'')"

definition tm_commit :: "'u ext_lib \<Rightarrow> 'u tx_id \<Rightarrow> ('u tx_manager, unit, db_error) op" where
  "tm_commit L t m =
     (case tm_active m t of
        None \<Rightarrow> (Err (InvalidTransaction
                  (''Cannot commit transaction '' @ show_tx L t @ '': not found or not active'')), m)
      | Some tx \<Rightarrow>
          if t_state tx \<noteq> Active then (Err (not_active_error L t (t_state tx)), m)
          else (Ok (), m\<lparr>tm_latest_committed := t_tx_number tx, tm_active := (tm_active m)(t := None)\<rparr>))"

definition tm_abort :: "'u ext_lib \<Rightarrow> 'u tx_id \<Rightarrow> ('u tx_manager, unit, db_error) op" where
  "tm_abort L t m =
     (case tm_active m t of
        None \<Rightarrow> (Err (InvalidTransaction
                  (''Cannot abort transaction '' @ show_tx L t @ '': not found or not active'')), m)
      | Some tx \<Rightarrow>
          if t_state tx \<noteq> Active then (Err (not_active_error L t (t_state tx)), m)
          else (Ok (), m\<lparr>tm_active := (tm_active m)(t := None)\<rparr>))"

section \<open>Visibility\<close>

lemma is_visible_key:
  "is_visible L v tx \<longleftrightarrow> tx_key L (rv_created_by v) \<le> tx_key L (t_snapshot_tx tx) \<and>
     (\<forall>d. rv_deleted_by v = Some d \<longrightarrow> tx_key L (t_snapshot_tx tx) < tx_key L d)"
  by (auto simp: is_visible_def tx_le_key tx_gt_key split: option.splits)

text \<open>Writer \<open>w\<close> lies in the future of the snapshot of \<open>r\<close>.\<close>

definition after_snapshot :: "'u ext_lib \<Rightarrow> 'u transaction \<Rightarrow> 'u transaction \<Rightarrow> bool" where
  "after_snapshot L w r \<longleftrightarrow> tx_key L (t_snapshot_tx r) < tx_key L (t_tx_id w)"

lemma mvcc_read_insert_same:
  "mvcc_read L k r (mvcc_insert k v w t) =
     (if after_snapshot L w r then mvcc_read L k r t else Some v)"
  by (auto simp: mvcc_read_def mvcc_insert_def is_visible_key after_snapshot_def split: option.splits)

lemma mvcc_read_insert_other:
  "k' \<noteq> k \<Longrightarrow> mvcc_read L k' r (mvcc_insert k v w t) = mvcc_read L k' r t"
  by (simp add: mvcc_read_def mvcc_insert_def)

text \<open>Reading after an insert, on every branch: a transaction whose snapshot is at or after
  the writer sees the new value, a transaction whose snapshot is before the writer sees what it
  saw before, and no other key is affected.\<close>

lemma mvcc_read_after_insert:
  "mvcc_read L k' r (mvcc_insert k v w t) =
     (if k' = k \<and> \<not> tx_key L (t_snapshot_tx r) < tx_key L (t_tx_id w) then Some v
      else mvcc_read L k' r t)"
  using mvcc_read_insert_same [of L k r v w t] mvcc_read_insert_other [of k' k L r v w t]
  by (cases "k' = k") (auto simp: after_snapshot_def)

lemma mark_deleted_visible_value:
  assumes "after_snapshot L w r" and "tx_key L (t_snapshot_tx r) \<le> tx_key L (t_snapshot_tx w)"
  shows "mark_deleted L w vs = Some vs' \<Longrightarrow> visible_value L vs' r = visible_value L vs r"
proof (induction vs arbitrary: vs')
  case Nil
  then show ?case by simp
next
  case (Cons v vs)
  show ?case
  proof (cases "is_visible L v w")
    case True
    then have "is_visible L (v\<lparr>rv_deleted_by := Some (t_tx_id w)\<rparr>) r = is_visible L v r"
      using assms by (auto simp: is_visible_key after_snapshot_def)
    with True Cons.prems show ?thesis by auto
  next
    case False
    with Cons show ?thesis by auto
  qed
qed

text \<open>A mark can be overwritten.  A deleter that does not see an earlier mark replaces it by its own, and a
  reader that saw the earlier mark but not the deleter sees the row again.\<close>

lemma mvcc_delete_resurrects:
  assumes "tx_key L (t_snapshot_tx w) < tx_key L (t_snapshot_tx r)" and "tx_key L (t_snapshot_tx r) < tx_key L (t_tx_id w)"
  shows "\<exists>t. mvcc_read L k r t = None \<and> mvcc_read L k r (snd (mvcc_delete L k w t)) = Some v"
proof -
  let ?v = "\<lparr>rv_created_by = t_snapshot_tx w, rv_deleted_by = Some (t_snapshot_tx r), rv_value = v\<rparr>"
  let ?t = "\<lparr>mt_rows = [k \<mapsto> [?v]]\<rparr>"
  have "mvcc_read L k r ?t = None" by (simp add: mvcc_read_def is_visible_key)
  moreover have "mvcc_read L k r (snd (mvcc_delete L k w ?t)) = Some v"
    using assms by (simp add: mvcc_read_def mvcc_delete_def is_visible_key)
  ultimately show ?thesis by blast
qed

lemma mvcc_delete_same:
  assumes "tx_key L (t_snapshot_tx r) < tx_key L (t_tx_id w)"
    and "tx_key L (t_snapshot_tx r) \<le> tx_key L (t_snapshot_tx w)"
  shows "mvcc_read L k' r (snd (mvcc_delete L k w t)) = mvcc_read L k' r t"
  using mark_deleted_visible_value [of L w r] assms
  by (auto simp: mvcc_delete_def mvcc_read_def after_snapshot_def split: option.splits)

text \<open>C30. When reads are repeatable.  A transaction \<open>w\<close> that lies after the snapshot of a reader can never change by
  a delete what the reader sees, whatever the table holds, exactly if the snapshot of \<open>w\<close> is not older than that of
  the reader.  If it is older, there are tables in which a delete by \<open>w\<close> overwrites the mark of an earlier
  delete and the row reappears for the reader.\<close>

theorem mvcc_delete_repeatable_read:
  assumes "tx_key L (t_snapshot_tx r) < tx_key L (t_tx_id w)"
  shows "(\<forall>t k k'. mvcc_read L k' r (snd (mvcc_delete L k w t)) = mvcc_read L k' r t) \<longleftrightarrow>
     tx_key L (t_snapshot_tx r) \<le> tx_key L (t_snapshot_tx w)"
proof
  assume all: "\<forall>t k k'. mvcc_read L k' r (snd (mvcc_delete L k w t)) = mvcc_read L k' r t"
  show "tx_key L (t_snapshot_tx r) \<le> tx_key L (t_snapshot_tx w)"
  proof (rule ccontr)
    assume "\<not> ?thesis"
    then obtain t where "mvcc_read L [] r t = None" "mvcc_read L [] r (snd (mvcc_delete L [] w t)) = Some []"
      using mvcc_delete_resurrects [of L w r "[]" "[]"] assms by auto
    with all show False by simp
  qed
qed (simp add: mvcc_delete_same [OF assms])

text \<open>Sample transactions: the time stamp of an id of the sample library is its low half.\<close>

definition sample_id :: "nat \<Rightarrow> 128 word tx_id" where
  "sample_id n = TxId (of_nat n)"

definition sample_tx :: "nat \<Rightarrow> nat \<Rightarrow> 128 word transaction" where
  "sample_tx n snap = \<lparr>t_tx_id = sample_id n, t_snapshot_tx = sample_id snap, t_state = Active,
     t_read_only = False, t_tx_number = of_nat n\<rparr>"

lemma sample_key: "n < 2 ^ 64 \<Longrightarrow> tx_key sample_lib (sample_id n) = n * 2 ^ 32"
proof -
  assume n: "n < 2 ^ 64"
  have w: "unat (of_nat n :: 128 word) = n" "unat (of_nat n :: u64) = n"
    using n by (simp_all add: unat_of_nat take_bit_nat_eq_self)
  have "(of_nat n :: 128 word) = 0 \<longleftrightarrow> n = 0"
    using w(1) by (cases "n = 0") auto
  moreover have "ucast (of_nat n :: 128 word) = (of_nat n :: u64)"
    using n by (simp add: unsigned_of_nat take_bit_nat_eq_self)
  ultimately show ?thesis
    using w by (simp add: tx_key_def extract_timestamp_def sample_lib_def sample_id_def)
qed

theorem mvcc_delete_repeatable_read_witness:
  "mvcc_read sample_lib [1] (sample_tx 3 2)
     (snd (mvcc_delete sample_lib [1] (sample_tx 4 3) (mvcc_insert [1] [7] (sample_tx 1 0) mvcc_new))) =
   mvcc_read sample_lib [1] (sample_tx 3 2) (mvcc_insert [1] [7] (sample_tx 1 0) mvcc_new) \<and>
   (\<exists>t k k'. mvcc_read sample_lib k' (sample_tx 3 2) (snd (mvcc_delete sample_lib k (sample_tx 4 1) t)) \<noteq>
     mvcc_read sample_lib k' (sample_tx 3 2) t)"
  using mvcc_delete_repeatable_read [of sample_lib "sample_tx 3 2" "sample_tx 4 3"]
    mvcc_delete_repeatable_read [of sample_lib "sample_tx 3 2" "sample_tx 4 1"]
  by (simp add: sample_tx_def sample_key)

section \<open>What a delete leaves visible\<close>

lemma mark_deleted_split:
  "mark_deleted L w vs = Some vs' \<Longrightarrow>
   \<exists>pre v post. vs = pre @ v # post \<and> vs' = pre @ v\<lparr>rv_deleted_by := Some (t_tx_id w)\<rparr> # post \<and>
     is_visible L v w \<and> (\<forall>u \<in> set pre. \<not> is_visible L u w)"
proof (induction vs arbitrary: vs')
  case Nil
  then show ?case by simp
next
  case (Cons v vs)
  show ?case
  proof (cases "is_visible L v w")
    case True
    with Cons.prems show ?thesis by (intro exI [of _ "[]"] exI [of _ v] exI [of _ vs]) auto
  next
    case False
    with Cons.prems obtain ws where ws: "mark_deleted L w vs = Some ws" "vs' = v # ws" by auto
    from Cons.IH [OF ws(1)] obtain pre u post where "vs = pre @ u # post"
        "ws = pre @ u\<lparr>rv_deleted_by := Some (t_tx_id w)\<rparr> # post" "is_visible L u w"
        "\<forall>x \<in> set pre. \<not> is_visible L x w" by blast
    with False ws(2) show ?thesis by (intro exI [of _ "v # pre"] exI [of _ u] exI [of _ post]) auto
  qed
qed

lemma visible_value_append:
  "visible_value L (vs @ ws) tx = (case visible_value L vs tx of None \<Rightarrow> visible_value L ws tx | Some x \<Rightarrow> Some x)"
  by (induction vs) auto

lemma mark_deleted_None: "mark_deleted L w vs = None \<longleftrightarrow> (\<forall>v \<in> set vs. \<not> is_visible L v w)"
  by (induction vs) auto

lemma visible_value_None: "visible_value L vs tx = None \<longleftrightarrow> (\<forall>v \<in> set vs. \<not> is_visible L v tx)"
  by (induction vs) auto

text \<open>A delete hides exactly one version.  It fails exactly when the deleter sees no version;
  otherwise every transaction whose snapshot is at or after the deleter reads the chain without
  the version that the deleter saw first: an older version of the row, which an insert never
  marks, is visible again.\<close>

lemma mvcc_delete_hides_one_version:
  assumes "mt_rows t k = Some vs"
  shows "(if mvcc_read L k w t = None
          then mvcc_delete L k w t = (Err (NotFound ''Row not visible''), t)
          else \<exists>pre v post t'. vs = pre @ v # post \<and> is_visible L v w \<and>
            mvcc_read L k w t = Some (rv_value v) \<and> mvcc_delete L k w t = (Ok (), t') \<and>
            (\<forall>r. \<not> tx_key L (t_snapshot_tx r) < tx_key L (t_tx_id w) \<longrightarrow>
               mvcc_read L k r t' = visible_value L (pre @ post) r))"
proof (cases "mark_deleted L w vs")
  case None
  then have "visible_value L vs w = None" by (simp add: mark_deleted_None visible_value_None)
  with None assms show ?thesis by (simp add: mvcc_read_def mvcc_delete_def)
next
  case (Some vs')
  from mark_deleted_split [OF Some] obtain pre v post where v: "vs = pre @ v # post"
      "vs' = pre @ v\<lparr>rv_deleted_by := Some (t_tx_id w)\<rparr> # post" "is_visible L v w"
      "\<forall>u \<in> set pre. \<not> is_visible L u w" by blast
  have "visible_value L pre w = None" using v(4) by (simp add: visible_value_None)
  then have read: "mvcc_read L k w t = Some (rv_value v)"
    using assms v by (simp add: mvcc_read_def visible_value_append)
  have del: "mvcc_delete L k w t = (Ok (), t\<lparr>mt_rows := (mt_rows t)(k \<mapsto> vs')\<rparr>)"
    using assms Some by (simp add: mvcc_delete_def)
  have "visible_value L vs' r = visible_value L (pre @ post) r"
    if "\<not> tx_key L (t_snapshot_tx r) < tx_key L (t_tx_id w)" for r
  proof -
    have "\<not> is_visible L (v\<lparr>rv_deleted_by := Some (t_tx_id w)\<rparr>) r"
      using that by (simp add: is_visible_key)
    then show ?thesis by (simp add: v(2) visible_value_append split: option.splits)
  qed
  then have all: "\<forall>r. \<not> tx_key L (t_snapshot_tx r) < tx_key L (t_tx_id w) \<longrightarrow>
      mvcc_read L k r (t\<lparr>mt_rows := (mt_rows t)(k \<mapsto> vs')\<rparr>) = visible_value L (pre @ post) r"
    by (simp add: mvcc_read_def)
  from read v(1,3) del all show ?thesis by auto
qed

text \<open>Two inserts and a delete: the value of the first insert is read again.\<close>

section \<open>The life cycle of transactions\<close>

text \<open>What holds between the operations of the manager: the registry has an id for every number
  handed out so far, and an active transaction is registered under its number, is in state
  \<open>Active\<close>, and has as its snapshot the transaction with the previous number.\<close>

definition tx_registered :: "'u tx_manager \<Rightarrow> 'u transaction \<Rightarrow> bool" where
  "tx_registered m tx \<longleftrightarrow>
     t_state tx = Active \<and> 1 \<le> unat (t_tx_number tx) \<and> unat (t_tx_number tx) < length (tm_registry m) \<and>
     tm_registry m ! unat (t_tx_number tx) = Some (t_tx_id tx) \<and>
     tm_registry m ! (unat (t_tx_number tx) - 1) = Some (t_snapshot_tx tx)"

definition tm_inv :: "'u ext_lib \<Rightarrow> 'u tx_manager \<Rightarrow> bool" where
  "tm_inv L m \<longleftrightarrow>
     length (tm_registry m) = unat (tm_next_tx m) \<and> tm_registry m \<noteq> [] \<and>
     tm_registry m ! 0 = Some (tx_nil L) \<and> None \<notin> set (tm_registry m) \<and>
     unat (tm_latest_committed m) < unat (tm_next_tx m) \<and>
     (\<forall>t tx. tm_active m t = Some tx \<longrightarrow> t_tx_id tx = t \<and> tx_registered m tx)"

inductive tm_step :: "'u ext_lib \<Rightarrow> 'u tx_manager \<Rightarrow> 'u tx_manager \<Rightarrow> bool" for L where
  step_begin: "unat (tm_next_tx m) + 1 < 2 ^ 64 \<Longrightarrow> tm_step L m (snd (tm_begin L now ro m))"
| step_commit: "tm_step L m (snd (tm_commit L t m))"
| step_abort: "tm_step L m (snd (tm_abort L t m))"

inductive tm_reachable :: "'u ext_lib \<Rightarrow> 'u tx_manager \<Rightarrow> bool" for L where
  reach_new: "tm_reachable L (tm_new L)"
| reach_step: "tm_reachable L m \<Longrightarrow> tm_step L m m' \<Longrightarrow> tm_reachable L m'"

inductive_cases tm_stepE: "tm_step L m m'"

lemma tm_inv_new: "tm_inv L (tm_new L)"
  by (simp add: tm_inv_def tm_new_def)

lemma unat_next: "unat (n :: u64) + 1 < 2 ^ 64 \<Longrightarrow> unat (n + 1) = unat n + 1"
  by (simp add: unat_word_ariths)

lemma tm_begin_inv_eq:
  assumes "tm_inv L m"
  shows "tm_begin L now ro m =
    (let tx = \<lparr>t_tx_id = TxId now, t_snapshot_tx = the (last (tm_registry m)), t_state = Active,
               t_read_only = ro, t_tx_number = tm_next_tx m\<rparr>
     in (tx, m\<lparr>tm_next_tx := tm_next_tx m + 1, tm_registry := tm_registry m @ [Some (TxId now)],
               tm_active := (tm_active m)(TxId now \<mapsto> tx)\<rparr>))"
proof -
  let ?n = "unat (tm_next_tx m)"
  have len: "length (tm_registry m) = ?n" and ne: "tm_registry m \<noteq> []"
    and none: "None \<notin> set (tm_registry m)" and nil: "tm_registry m ! 0 = Some (tx_nil L)"
    using assms by (auto simp: tm_inv_def)
  have reg: "(grow_registry ?n (tm_registry m))[?n := Some (TxId now)] = tm_registry m @ [Some (TxId now)]"
    using len by (simp add: grow_registry_def list_update_append)
  have last: "last (tm_registry m) = tm_registry m ! (?n - 1)" using len ne by (simp add: last_conv_nth)
  have n0: "?n \<noteq> 0" using len ne by (cases "tm_registry m") auto
  then have idx: "(tm_registry m @ [Some (TxId now)]) ! (?n - 1) = last (tm_registry m)"
    using len last by (simp add: nth_append)
  obtain t where t: "last (tm_registry m) = Some t"
    using none ne last_in_set by (metis option.exhaust)
  have "tm_next_tx m > 1 \<longleftrightarrow> ?n > 1" by (simp add: word_less_nat_alt)
  moreover note n0
  moreover have "?n = 1 \<Longrightarrow> t = tx_nil L" using nil last t by simp
  ultimately have "(if tm_next_tx m > 1 then
      (case (tm_registry m @ [Some (TxId now)]) ! (?n - 1) of Some t \<Rightarrow> t | None \<Rightarrow> tx_nil L)
      else tx_nil L) = t"
    unfolding idx t by auto
  then show ?thesis
    by (simp only: tm_begin_def Let_def reg t option.sel)
qed

lemma tx_registered_append: "tx_registered m tx \<Longrightarrow>
   tx_registered (m\<lparr>tm_next_tx := n, tm_registry := tm_registry m @ xs, tm_active := a\<rparr>) tx"
  by (auto simp: tx_registered_def nth_append)

lemma tm_inv_begin:
  assumes "tm_inv L m" and "unat (tm_next_tx m) + 1 < 2 ^ 64"
  shows "tm_inv L (snd (tm_begin L now ro m))"
proof -
  let ?n = "unat (tm_next_tx m)"
  have len: "length (tm_registry m) = ?n" "tm_registry m \<noteq> []" "None \<notin> set (tm_registry m)"
    using assms(1) by (auto simp: tm_inv_def)
  then have n: "1 \<le> ?n" by (cases "tm_registry m") auto
  have "last (tm_registry m) \<noteq> None" using len(2,3) last_in_set by metis
  then have last: "tm_registry m ! (?n - 1) = Some (the (last (tm_registry m)))"
    using len(1,2) by (simp add: last_conv_nth)
  define tx where "tx = \<lparr>t_tx_id = TxId now, t_snapshot_tx = the (last (tm_registry m)),
    t_state = Active, t_read_only = ro, t_tx_number = tm_next_tx m\<rparr>"
  define m' where "m' = m\<lparr>tm_next_tx := tm_next_tx m + 1, tm_registry := tm_registry m @ [Some (TxId now)],
    tm_active := (tm_active m)(TxId now \<mapsto> tx)\<rparr>"
  have b: "snd (tm_begin L now ro m) = m'"
    by (simp add: tm_begin_inv_eq [OF assms(1)] m'_def tx_def Let_def)
  have "tx_registered m' tx"
    using len(1) n last by (simp add: tx_registered_def m'_def tx_def nth_append)
  moreover have "tx_registered m' u" if "tm_active m t = Some u" for t u
  proof -
    have "tx_registered m u" using assms(1) that by (simp add: tm_inv_def)
    then show ?thesis unfolding m'_def by (rule tx_registered_append)
  qed
  moreover have "t_tx_id u = t" if "tm_active m t = Some u" for t u
    using assms(1) that by (simp add: tm_inv_def)
  ultimately have act: "\<forall>t u. tm_active m' t = Some u \<longrightarrow> t_tx_id u = t \<and> tx_registered m' u"
    by (simp add: m'_def tx_def)
  have "tm_registry m' ! 0 = Some (tx_nil L)"
    using assms(1) len n by (simp add: m'_def nth_append tm_inv_def)
  moreover have "unat (tm_latest_committed m) < ?n" using assms(1) by (simp add: tm_inv_def)
  ultimately show ?thesis
    using act len unat_next [OF assms(2)] unfolding b tm_inv_def by (simp add: m'_def)
qed

lemma tm_commit_cases:
  assumes "tm_inv L m"
  shows "tm_commit L t m =
    (case tm_active m t of
       None \<Rightarrow> (Err (InvalidTransaction
                 (''Cannot commit transaction '' @ show_tx L t @ '': not found or not active'')), m)
     | Some tx \<Rightarrow> (Ok (), m\<lparr>tm_latest_committed := t_tx_number tx, tm_active := (tm_active m)(t := None)\<rparr>))"
  using assms by (auto simp: tm_commit_def tm_inv_def tx_registered_def split: option.splits)

lemma tm_abort_cases:
  assumes "tm_inv L m"
  shows "tm_abort L t m =
    (case tm_active m t of
       None \<Rightarrow> (Err (InvalidTransaction
                 (''Cannot abort transaction '' @ show_tx L t @ '': not found or not active'')), m)
     | Some tx \<Rightarrow> (Ok (), m\<lparr>tm_active := (tm_active m)(t := None)\<rparr>))"
  using assms by (auto simp: tm_abort_def tm_inv_def tx_registered_def split: option.splits)

lemma tx_registered_frame [simp]:
  "tx_registered (m\<lparr>tm_latest_committed := c, tm_active := a\<rparr>) tx = tx_registered m tx"
  "tx_registered (m\<lparr>tm_active := a\<rparr>) tx = tx_registered m tx"
  "tx_registered (m\<lparr>tm_latest_committed := c\<rparr>) tx = tx_registered m tx"
  by (simp_all add: tx_registered_def)

lemma tm_inv_remove:
  assumes "tm_inv L m" and "unat c < unat (tm_next_tx m)"
  shows "tm_inv L (m\<lparr>tm_latest_committed := c, tm_active := (tm_active m)(t := None)\<rparr>)"
  using assms by (simp add: tm_inv_def)

lemma tm_inv_commit:
  assumes "tm_inv L m"
  shows "tm_inv L (snd (tm_commit L t m))"
proof (cases "tm_active m t")
  case (Some tx)
  then have "unat (t_tx_number tx) < unat (tm_next_tx m)"
    using assms by (auto simp: tm_inv_def tx_registered_def)
  with Some tm_inv_remove [OF assms] show ?thesis by (simp add: tm_commit_cases [OF assms])
qed (simp add: tm_commit_cases [OF assms] assms)

lemma tm_inv_abort:
  assumes "tm_inv L m"
  shows "tm_inv L (snd (tm_abort L t m))"
  using assms tm_inv_remove [OF assms, of "tm_latest_committed m" t]
  by (auto simp: tm_abort_cases [OF assms] tm_inv_def split: option.splits)

lemma tm_reachable_tm_inv: "tm_reachable L m \<Longrightarrow> tm_inv L m"
proof (induction rule: tm_reachable.induct)
  case reach_new
  show ?case by (rule tm_inv_new)
next
  case (reach_step m m')
  from reach_step.hyps(2) reach_step.IH show ?case
    by (auto elim!: tm_stepE intro: tm_inv_begin tm_inv_commit tm_inv_abort)
qed

text \<open>The manager keeps its books in every reachable state, as long as the 64-bit counter has
  not run out: every number handed out has an id, an active transaction is registered under its own
  number and is in state \<open>Active\<close>, its snapshot is the transaction with the previous number, and two
  different active transactions have different numbers.\<close>

lemma tm_reachable_inv:
  assumes "tm_reachable L m"
  shows "tm_inv L m \<and>
    (\<forall>t u tx ux. tm_active m t = Some tx \<longrightarrow> tm_active m u = Some ux \<longrightarrow> t \<noteq> u \<longrightarrow>
       t_tx_number tx \<noteq> t_tx_number ux)"
proof -
  have inv: "tm_inv L m" by (rule tm_reachable_tm_inv [OF assms])
  have "t = u" if "tm_active m t = Some tx" "tm_active m u = Some ux" "t_tx_number tx = t_tx_number ux"
    for t u tx ux
  proof -
    have "t_tx_id tx = t" "t_tx_id ux = u" "tm_registry m ! unat (t_tx_number tx) = Some (t_tx_id tx)"
        "tm_registry m ! unat (t_tx_number ux) = Some (t_tx_id ux)"
      using inv that(1,2) by (auto simp: tm_inv_def tx_registered_def)
    with that(3) show ?thesis by simp
  qed
  with inv show ?thesis by blast
qed

definition sample_tm :: "128 word tx_manager" where
  "sample_tm = snd (tm_begin sample_lib 5 False (tm_new sample_lib))"

lemma sample_tm_reachable: "tm_reachable sample_lib sample_tm"
  unfolding sample_tm_def
  by (rule reach_step [OF reach_new]) (rule step_begin, simp add: tm_new_def)

text \<open>Life cycle: in a reachable state, commit and abort succeed exactly for the active
  transactions, and a transaction that has been committed or aborted can neither be committed nor
  aborted again; the state check behind the lookup never fails.\<close>

lemma tm_lifecycle:
  assumes "tm_reachable L m"
  shows "(fst (tm_commit L t m) = Ok () \<longleftrightarrow> tm_active m t \<noteq> None) \<and>
     (fst (tm_abort L t m) = Ok () \<longleftrightarrow> tm_active m t \<noteq> None) \<and>
     (\<forall>m' \<in> {snd (tm_commit L t m), snd (tm_abort L t m)}.
        tm_active m' t = None \<and> fst (tm_commit L t m') \<noteq> Ok () \<and> fst (tm_abort L t m') \<noteq> Ok ())"
proof (intro conjI ballI)
  have inv: "tm_inv L m" by (rule tm_reachable_tm_inv [OF assms])
  then show "fst (tm_commit L t m) = Ok () \<longleftrightarrow> tm_active m t \<noteq> None"
    and "fst (tm_abort L t m) = Ok () \<longleftrightarrow> tm_active m t \<noteq> None"
    by (auto simp: tm_commit_cases tm_abort_cases split: option.splits)
  fix m' assume "m' \<in> {snd (tm_commit L t m), snd (tm_abort L t m)}"
  then show none: "tm_active m' t = None"
    using inv by (auto simp: tm_commit_cases tm_abort_cases split: option.splits)
  show "fst (tm_commit L t m') \<noteq> Ok ()" "fst (tm_abort L t m') \<noteq> Ok ()"
    using none by (simp_all add: tm_commit_def tm_abort_def)
qed

text \<open>Dirty reads: the snapshot of a new transaction is the transaction begun just before it,
  committed or not.  A transaction begun while \<open>w\<close> is still active therefore reads what \<open>w\<close> has
  written, although \<open>w\<close> has not committed and may still abort.\<close>

lemma tm_begin_dirty_read:
  assumes "tm_reachable L m" and "unat (tm_next_tx m) + 2 < 2 ^ 64" and "now' \<noteq> now"
    and "tm_begin L now ro m = (w, m1)" and "tm_begin L now' ro' m1 = (r, m2)"
  shows "t_snapshot_tx r = t_tx_id w \<and> tm_active m2 (t_tx_id w) = Some w \<and>
     mvcc_read L k r (mvcc_insert k v w t) = Some v"
proof -
  have inv: "tm_inv L m" by (rule tm_reachable_tm_inv [OF assms(1)])
  have inv1: "tm_inv L m1" using tm_inv_begin [OF inv, of now ro] assms(2,4) by simp
  have w: "t_tx_id w = TxId now" "tm_registry m1 = tm_registry m @ [Some (TxId now)]"
      "tm_active m1 (TxId now) = Some w"
    using assms(4) by (auto simp: tm_begin_inv_eq [OF inv] Let_def)
  have r: "t_snapshot_tx r = TxId now" "tm_active m2 (TxId now) = Some w"
    using assms(3,5) w by (auto simp: tm_begin_inv_eq [OF inv1] Let_def)
  with w show ?thesis by (simp add: mvcc_read_insert_same after_snapshot_def)
qed

end
