(* ===== verification/Engine.thy ===== *)
theory Engine
  imports Btree_Split Mvcc
begin

text \<open>
  \<^verbatim>\<open>sabi-storage/src/engine.rs\<close>: the storage engine, which combines the primary index, the in-memory
  versioned tables, the transaction manager, the page file and the log.

  \<^verbatim>\<open>PageFile\<close> and \<^verbatim>\<open>WalWriter\<close> are cloned for the index: the clones share the file, but each
  \<^verbatim>\<open>PageFile\<close> has a free list of its own.  The model keeps the shared file in the index and the
  engine's free list beside it; \<open>on_data\<close> runs a page file operation through the engine's handle.
\<close>

section \<open>Row versions in a data page\<close>

definition put_deleted :: "'u ext_lib \<Rightarrow> 'u tx_id option \<Rightarrow> bytes" where
  "put_deleted L d = (case d of Some t \<Rightarrow> 1 # uuid_as_bytes L (uuid_of t) | None \<Rightarrow> [0])"

definition put_version :: "'u ext_lib \<Rightarrow> 'u row_version \<Rightarrow> bytes" where
  "put_version L v =
     uuid_as_bytes L (uuid_of (rv_created_by v)) @ put_deleted L (rv_deleted_by v) @
     le32 (of_nat (length (rv_value v))) @ rv_value v"

definition serialize_versions :: "'u ext_lib \<Rightarrow> 'u version_chain \<Rightarrow> bytes db_result" where
  "serialize_versions L vs = Ok (le32 (of_nat (length vs)) @ concat (map (put_version L) vs))"

definition serialize_mvcc_data :: "'u ext_lib \<Rightarrow> 'u mvcc_table \<Rightarrow> bytes \<Rightarrow> bytes db_result" where
  "serialize_mvcc_data L t k =
     (case mt_rows t k of Some versions \<Rightarrow> serialize_versions L versions | None \<Rightarrow> Ok [])"

text \<open>The three parts of one version: the creator, the optional deleter, the value.\<close>

definition get_uuid :: "'u ext_lib \<Rightarrow> string \<Rightarrow> 'u tx_id reader" where
  "get_uuid L what buf c =
     (if c + 16 > length buf then Err (Corruption what)
      else rbind (ok_or (Corruption ''Invalid UUID'') (uuid_from_slice L (take 16 (drop c buf))))
             (\<lambda>u. Ok (TxId u, c + 16)))"

definition get_deleted :: "'u ext_lib \<Rightarrow> 'u tx_id option reader" where
  "get_deleted L buf c =
     (if c \<ge> length buf then Err (Corruption ''Truncated deleted_by marker'')
      else if buf ! c = 1
      then rbind (get_uuid L ''Truncated deleted_by'' buf (c + 1)) (\<lambda>(t, c). Ok (Some t, c))
      else Ok (None, c + 1))"

definition get_value :: "bytes reader" where
  "get_value buf c =
     (if c + 4 > length buf then Err (Corruption ''Truncated value length'')
      else
        let value_len = unat (from_le (take 4 (drop c buf)) :: u32); c = c + 4
        in if c + value_len > length buf then Err (Corruption ''Truncated value'')
           else Ok (take value_len (drop c buf), c + value_len))"

definition get_version :: "'u ext_lib \<Rightarrow> 'u row_version reader" where
  "get_version L buf c =
     rbind (get_uuid L ''Truncated created_by'' buf c) (\<lambda>(created_by, c).
     rbind (get_deleted L buf c) (\<lambda>(deleted_by, c).
     rbind (get_value buf c) (\<lambda>(v, c).
     Ok (\<lparr>rv_created_by = created_by, rv_deleted_by = deleted_by, rv_value = v\<rparr>, c))))"

definition deserialize_mvcc_data :: "'u ext_lib \<Rightarrow> page \<Rightarrow> 'u version_chain db_result" where
  "deserialize_mvcc_data L p =
     (let buf = pg_payload p in
      if length buf < 4 then Ok []
      else
        let count = unat (from_le (take 4 buf) :: u32)
        in rbind (read_many (get_version L) count buf 4) (\<lambda>(vs, c). Ok vs))"

section \<open>Composite keys\<close>

definition create_composite_key :: "string \<Rightarrow> bytes \<Rightarrow> bytes" where
  "create_composite_key table_name k = string_bytes table_name @ [0] @ k"

definition extract_key_from_composite :: "bytes \<Rightarrow> bytes option" where
  "extract_key_from_composite composite =
     map_option (\<lambda>pos. drop (pos + 1) composite) (position (\<lambda>b. b = 0) composite)"

definition extract_key_from_composite_with_table :: "bytes \<Rightarrow> (bytes \<times> bytes) option" where
  "extract_key_from_composite_with_table composite =
     (case position (\<lambda>b. b = 0) composite of
        None \<Rightarrow> None
      | Some pos \<Rightarrow>
          if pos = 0 \<or> pos \<ge> length composite - 1 then None
          else Some (take pos composite, drop (pos + 1) composite))"

section \<open>The engine\<close>

record 'u engine =
  en_index :: btree
  en_free :: "u64 list"
  en_tables :: "string \<rightharpoonup> 'u mvcc_table"
  en_tx :: "'u tx_manager"

text \<open>The page file through the engine's own handle.\<close>

definition en_pages :: "'u engine \<Rightarrow> page_file" where
  "en_pages e = (bt_pages (en_index e))\<lparr>pf_free_list := en_free e\<rparr>"

definition on_data :: "(page_file, 'a, db_error) op \<Rightarrow> ('u engine, 'a, db_error) op" where
  "on_data m e =
     (case m (en_pages e) of
        (r, f) \<Rightarrow> (r, e\<lparr>en_free := pf_free_list f,
          en_index := (en_index e)\<lparr>bt_pages := (bt_pages (en_index e))\<lparr>pf_file := pf_file f\<rparr>\<rparr>\<rparr>))"

definition engine_new :: "'u ext_lib \<Rightarrow> page_file \<Rightarrow> wal_file \<Rightarrow> 'u engine db_result" where
  "engine_new L pages wal =
     rbind (btree_new (crc32 L) pages wal) (\<lambda>b.
     Ok \<lparr>en_index = b, en_free = pf_free_list pages, en_tables = Map.empty, en_tx = tm_new L\<rparr>)"

definition engine_begin :: "'u ext_lib \<Rightarrow> 'u \<Rightarrow> bool \<Rightarrow> 'u engine \<Rightarrow> 'u transaction \<times> 'u engine" where
  "engine_begin L now read_only e =
     (case tm_begin L now read_only (en_tx e) of (tx, m) \<Rightarrow> (tx, e\<lparr>en_tx := m\<rparr>))"

definition on_tx :: "('u tx_manager, 'a, db_error) op \<Rightarrow> ('u engine, 'a, db_error) op" where
  "on_tx m e = (case m (en_tx e) of (r, t) \<Rightarrow> (r, e\<lparr>en_tx := t\<rparr>))"

definition on_index :: "(btree, 'a, db_error) op \<Rightarrow> ('u engine, 'a, db_error) op" where
  "on_index m e = (case m (en_index e) of (r, b) \<Rightarrow> (r, e\<lparr>en_index := b\<rparr>))"

definition engine_commit :: "'u ext_lib \<Rightarrow> 'u tx_id \<Rightarrow> ('u engine, unit, db_error) op" where
  "engine_commit L t = sbind (on_tx (tm_commit L t)) (\<lambda>_. on_index (on_wal wal_flush))"

definition engine_abort :: "'u ext_lib \<Rightarrow> 'u tx_id \<Rightarrow> ('u engine, unit, db_error) op" where
  "engine_abort L t = on_tx (tm_abort L t)"

text \<open>Steps 1 to 3 of \<^verbatim>\<open>insert\<close>: a page is allocated, the version is added to the table in memory, and
  the versions of the key are written to the page.\<close>

definition engine_store_row ::
  "'u ext_lib \<Rightarrow> string \<Rightarrow> bytes \<Rightarrow> bytes \<Rightarrow> 'u transaction \<Rightarrow> ('u engine, page_id, db_error) op" where
  "engine_store_row L table_name k v tx =
     sbind (on_data allocate_page) (\<lambda>data_page_id e.
       let table = (case en_tables e table_name of Some t \<Rightarrow> t | None \<Rightarrow> mvcc_new);
           table = mvcc_insert k v tx table;
           e = e\<lparr>en_tables := (en_tables e)(table_name \<mapsto> table)\<rparr>
       in sbind (lift_result (serialize_mvcc_data L table k)) (\<lambda>serialized.
          sbind (on_data (write_page (crc32 L) ((page_new data_page_id Data)\<lparr>pg_payload := serialized\<rparr>))) (\<lambda>_.
          lift_result (Ok data_page_id))) e)"

definition engine_insert ::
  "'u ext_lib \<Rightarrow> string \<Rightarrow> bytes \<Rightarrow> bytes \<Rightarrow> 'u transaction \<Rightarrow> 'u engine \<Rightarrow> (unit db_result \<times> 'u engine) option" where
  "engine_insert L table_name k v tx e =
     (case engine_store_row L table_name k v tx e of
        (Err x, e) \<Rightarrow> Some (Err x, e)
      | (Panic p, e) \<Rightarrow> Some (Panic p, e)
      | (Ok data_page_id, e) \<Rightarrow>
          map_option (\<lambda>(r, b). (r, e\<lparr>en_index := b\<rparr>))
            (btree_insert L (create_composite_key table_name k) data_page_id (t_tx_id tx) (en_index e)))"

definition engine_get ::
  "'u ext_lib \<Rightarrow> string \<Rightarrow> bytes \<Rightarrow> 'u transaction \<Rightarrow> 'u engine \<Rightarrow> bytes option db_result option" where
  "engine_get L table_name k tx e =
     map_option (\<lambda>r. rbind r (\<lambda>found.
        case found of
          None \<Rightarrow> Ok None
        | Some data_page_id \<Rightarrow>
            rbind (read_page (crc32 L) (en_pages e) data_page_id) (\<lambda>p.
            rbind (deserialize_mvcc_data L p) (\<lambda>versions.
            Ok (visible_value L versions tx)))))
       (btree_get (crc32 L) (en_index e) (create_composite_key table_name k))"

text \<open>\<^verbatim>\<open>delete\<close> after the index lookup: the page of the row is read, its first visible version marked,
  the page written back, and the deletion logged.\<close>

definition engine_delete_row ::
  "'u ext_lib \<Rightarrow> bytes \<Rightarrow> 'u transaction \<Rightarrow> page_id option db_result \<Rightarrow> ('u engine, unit, db_error) op" where
  "engine_delete_row L k tx found e =
     sbind (lift_result found) (\<lambda>found.
     sbind (lift_result (ok_or (NotFound ''Key not found'') found)) (\<lambda>data_page_id.
     sbind (lift_result (read_page (crc32 L) (en_pages e) data_page_id)) (\<lambda>p.
     sbind (lift_result (deserialize_mvcc_data L p)) (\<lambda>versions.
     let versions = (case mark_deleted L tx versions of Some vs \<Rightarrow> vs | None \<Rightarrow> versions) in
     sbind (lift_result (serialize_versions L versions)) (\<lambda>serialized.
     sbind (on_data (write_page (crc32 L) ((page_new data_page_id Data)\<lparr>pg_payload := serialized\<rparr>))) (\<lambda>_.
     on_index (on_wal (log_btree_delete L k (t_tx_id tx))))))))) e"

definition engine_delete ::
  "'u ext_lib \<Rightarrow> string \<Rightarrow> bytes \<Rightarrow> 'u transaction \<Rightarrow> 'u engine \<Rightarrow> (unit db_result \<times> 'u engine) option" where
  "engine_delete L table_name k tx e =
     map_option (\<lambda>found. engine_delete_row L k tx found e)
       (btree_get (crc32 L) (en_index e) (create_composite_key table_name k))"

text \<open>The first version of a row that a range scan returns.\<close>

fun scan_value :: "'u ext_lib \<Rightarrow> 'u version_chain \<Rightarrow> 'u transaction \<Rightarrow> bytes option" where
  "scan_value L [] tx = None"
| "scan_value L (v # vs) tx =
     (if is_visible L v tx \<and> rv_deleted_by v = None then Some (rv_value v) else scan_value L vs tx)"

fun scan_rows ::
  "'u ext_lib \<Rightarrow> page_file \<Rightarrow> 'u transaction \<Rightarrow> (bytes \<times> page_id) list \<Rightarrow> (bytes \<times> bytes) list db_result" where
  "scan_rows L f tx [] = Ok []"
| "scan_rows L f tx ((composite_key, pid) # rest) =
     rbind (ok_or (Corruption ''Invalid composite key format'') (extract_key_from_composite composite_key)) (\<lambda>original_key.
     rbind (read_page (crc32 L) f pid) (\<lambda>p.
     rbind (deserialize_mvcc_data L p) (\<lambda>versions.
     rbind (scan_rows L f tx rest) (\<lambda>results.
     Ok (case scan_value L versions tx of
           Some v \<Rightarrow> (original_key, v) # results
         | None \<Rightarrow> results)))))"

definition engine_range_scan ::
  "'u ext_lib \<Rightarrow> string \<Rightarrow> bytes \<Rightarrow> bytes \<Rightarrow> 'u transaction \<Rightarrow> 'u engine \<Rightarrow> (bytes \<times> bytes) list db_result option" where
  "engine_range_scan L table_name start end_key tx e =
     map_option (\<lambda>r. rbind r (scan_rows L (en_pages e) tx))
       (btree_range (crc32 L) (en_index e) (create_composite_key table_name start)
          (create_composite_key table_name end_key))"

definition get_table_entry :: "'u engine \<Rightarrow> string \<Rightarrow> bytes \<Rightarrow> 'u version_chain option" where
  "get_table_entry e table_name composite_key =
     (case extract_key_from_composite composite_key of
        None \<Rightarrow> None
      | Some original_key \<Rightarrow>
          (case en_tables e table_name of None \<Rightarrow> None | Some t \<Rightarrow> mt_rows t original_key))"

section \<open>Versions are a cursor codec\<close>

definition version_ok :: "'u row_version \<Rightarrow> bool" where
  "version_ok v \<longleftrightarrow> length (rv_value v) < 2 ^ 32"

lemma get_uuid_at:
  assumes "uuid_laws L" and "at_cursor buf c (uuid_as_bytes L (uuid_of t))"
  shows "get_uuid L what buf c = Ok (t, c + 16)"
  using at_cursor_length [OF assms(2)] at_cursor_take [OF assms(2)] uuid_lawsD(1,2) [OF assms(1), of "uuid_of t"]
  by (simp add: get_uuid_def)

lemma length_put_deleted:
  "uuid_laws L \<Longrightarrow> length (put_deleted L d) = (case d of None \<Rightarrow> 1 | Some _ \<Rightarrow> 17)"
  by (cases d) (simp_all add: put_deleted_def uuid_lawsD(1))

lemma get_deleted_at:
  assumes "uuid_laws L" and "at_cursor buf c (put_deleted L d)"
  shows "get_deleted L buf c = Ok (d, c + length (put_deleted L d))"
proof (cases d)
  case None
  with assms(2) show ?thesis by (simp add: put_deleted_def get_deleted_def at_cursor_Cons)
next
  case (Some t)
  with assms(2) have "c < length buf" "buf ! c = 1" "at_cursor buf (Suc c) (uuid_as_bytes L (uuid_of t))"
    by (simp_all add: put_deleted_def at_cursor_Cons)
  with get_uuid_at [OF assms(1) this(3)] Some show ?thesis
    by (simp add: get_deleted_def length_put_deleted [OF assms(1)])
qed

lemma get_value_at:
  assumes "at_cursor buf c (le32 (of_nat (length v)) @ v)" and "length v < 2 ^ 32"
  shows "get_value buf c = Ok (v, c + 4 + length v)"
proof -
  have at: "at_cursor buf c (le32 (of_nat (length v)))" "at_cursor buf (c + 4) v"
    using assms(1) by (simp_all add: at_cursor_append)
  have "from_le (take 4 (drop c buf)) = (of_nat (length v) :: u32)"
    by (rule from_le_at_cursor [OF at(1)]) simp
  moreover have "unat (of_nat (length v) :: u32) = length v"
    using assms(2) by (simp add: unat_of_nat take_bit_nat_eq_self)
  ultimately show ?thesis
    using at_cursor_length [OF at(2)] at_cursor_take [OF at(2)] by (simp add: get_value_def Let_def)
qed

lemma length_put_version:
  "uuid_laws L \<Longrightarrow> length (put_version L v) = 20 + length (put_deleted L (rv_deleted_by v)) + length (rv_value v)"
  by (simp add: put_version_def uuid_lawsD(1))

lemma get_put_version:
  assumes L: "uuid_laws L" and "version_ok v" and at: "at_cursor buf c (put_version L v)"
  shows "get_version L buf c = Ok (v, c + length (put_version L v))"
proof -
  let ?d = "put_deleted L (rv_deleted_by v)"
  have at': "at_cursor buf c (uuid_as_bytes L (uuid_of (rv_created_by v)))" "at_cursor buf (c + 16) ?d"
      "at_cursor buf (c + 16 + length ?d) (le32 (of_nat (length (rv_value v))) @ rv_value v)"
    using at unfolding put_version_def at_cursor_append [of _ _ "uuid_as_bytes _ _"] at_cursor_append [of _ _ ?d]
      uuid_lawsD(1) [OF L] by blast+
  show ?thesis
    using get_uuid_at [OF L at'(1)] get_deleted_at [OF L at'(2)] get_value_at [OF at'(3)] assms(2)
    by (simp add: get_version_def version_ok_def length_put_version [OF L])
qed

lemma get_uuid_advance:
  assumes "uuid_laws L" and "get_uuid L what buf c = Ok (t, c')"
  shows "c' = c + 16 \<and> c' \<le> length buf"
  using assms(2) by (auto simp: get_uuid_def rbind_Ok_iff split: if_splits)

lemma get_value_advance:
  assumes "get_value buf c = Ok (x, c')"
  shows "c' = c + 4 + length x \<and> c' \<le> length buf \<and> length x < 2 ^ 32"
proof -
  let ?n = "unat (from_le (take 4 (drop c buf)) :: u32)"
  from assms have "x = take ?n (drop (c + 4) buf)" "c' = c + 4 + ?n" "c + 4 + ?n \<le> length buf"
    by (auto simp: get_value_def Let_def split: if_splits)
  with unat_u32_less [of "from_le (take 4 (drop c buf))"] show ?thesis by simp
qed

lemma get_version_parts:
  assumes "get_version L buf c = Ok (v, c')"
  obtains t c1 d c2 where "get_uuid L ''Truncated created_by'' buf c = Ok (t, c1)" "get_deleted L buf c1 = Ok (d, c2)"
      "get_value buf c2 = Ok (rv_value v, c')" "rv_deleted_by v = d"
  using assms by (auto simp: get_version_def rbind_Ok_iff)

lemma get_version_advance:
  assumes L: "uuid_laws L" and "get_version L buf c = Ok (v, c')"
  shows "c' = c + length (put_version L v) \<and> c' \<le> length buf"
proof -
  obtain t c1 d c2 where h: "get_uuid L ''Truncated created_by'' buf c = Ok (t, c1)" "get_deleted L buf c1 = Ok (d, c2)"
      "get_value buf c2 = Ok (rv_value v, c')" "rv_deleted_by v = d"
    by (rule get_version_parts [OF assms(2)])
  have "c2 = c1 + length (put_deleted L d)"
    using h(2) by (auto simp: get_deleted_def rbind_Ok_iff length_put_deleted [OF L]
        dest!: get_uuid_advance [OF L] split: if_splits)
  then show ?thesis
    using get_uuid_advance [OF L h(1)] get_value_advance [OF h(3)] h(4) by (simp add: length_put_version [OF L])
qed

lemma version_codec:
  assumes L: "uuid_laws L"
  shows "cursor_codec (put_version L) (get_version L) version_ok"
proof
  show "get_version L buf c = Ok (v, c + length (put_version L v))"
    if "version_ok v" "at_cursor buf c (put_version L v)" for v buf c
    using L that by (rule get_put_version)
  show "c' = c + length (put_version L v) \<and> c' \<le> length buf" if "get_version L buf c = Ok (v, c')" for buf c v c'
    using L that by (rule get_version_advance)
  show "version_ok v" if "get_version L buf c = Ok (v, c')" for buf c v c'
    using that get_value_advance by (auto simp: version_ok_def elim!: get_version_parts)
  show "\<not> is_panic (get_version L buf c)" for buf c
    by (auto simp: get_version_def get_uuid_def get_deleted_def get_value_def Let_def is_panic_rbind ok_or_def
        split: option.splits)
qed

lemmas read_versions_put = cursor_codec.read_many_put [OF version_codec]
lemmas read_versions_no_panic = cursor_codec.read_many_no_panic [OF version_codec]

lemma deserialize_serialized:
  assumes "uuid_laws L" and "\<forall>v \<in> set vs. version_ok v" and "length vs < 2 ^ 32"
    and "serialize_versions L vs = Ok bs" and "pg_payload p = bs"
  shows "deserialize_mvcc_data L p = Ok vs"
proof -
  have p: "pg_payload p = le32 (of_nat (length vs)) @ concat (map (put_version L) vs)"
    using assms(4,5) by (simp add: serialize_versions_def)
  have "at_cursor (pg_payload p) 4 (concat (map (put_version L) vs))"
    using at_cursor_self [of "le32 (of_nat (length vs))" _ "[]"] p by simp
  moreover have "unat (of_nat (length vs) :: u32) = length vs"
    using assms(3) by (simp add: unat_of_nat take_bit_nat_eq_self)
  ultimately show ?thesis
    using read_versions_put [OF assms(1,2)] p by (simp add: deserialize_mvcc_data_def Let_def)
qed

text \<open>The versions of a row survive their encoding in a data page: creator, tombstone and value of
  every version, in order, for every UUID library that satisfies its documented laws.\<close>

lemma versions_roundtrip:
  assumes "uuid_laws L" and "\<forall>v \<in> set vs. length (rv_value v) < 2 ^ 32" and "length vs < 2 ^ 32"
  shows "\<exists>bs. serialize_versions L vs = Ok bs \<and> deserialize_mvcc_data L ((page_new pid Data)\<lparr>pg_payload := bs\<rparr>) = Ok vs"
  using deserialize_serialized [OF assms(1) _ assms(3)] assms(2)
  by (auto simp: version_ok_def serialize_versions_def)

text \<open>Reading versions is safe on arbitrary bytes: whatever a data page contains, decoding it ends
  with versions or with an error, never with an access out of range.\<close>

lemma deserialize_mvcc_data_no_panic:
  assumes "uuid_laws L"
  shows "\<not> is_panic (deserialize_mvcc_data L p)"
  using read_versions_no_panic [OF assms]
  by (auto simp: deserialize_mvcc_data_def Let_def is_panic_rbind)

theorem deserialize_mvcc_data_no_panic_witness:
  "\<not> is_panic (deserialize_mvcc_data sample_lib ((page_new 3 Data)\<lparr>pg_payload := [9, 0, 0, 0, 7]\<rparr>))"
  by (rule deserialize_mvcc_data_no_panic [OF sample_lib_laws])

section \<open>Composite keys separate the tables\<close>

definition table_name_ok :: "string \<Rightarrow> bool" where
  "table_name_ok n \<longleftrightarrow> 0 \<notin> set (string_bytes n)"

lemma position_separator: "0 \<notin> set xs \<Longrightarrow> position (\<lambda>b. b = 0) (xs @ 0 # ys) = Some (length xs)"
  by (induction xs) auto

lemma composite_extract:
  "table_name_ok n \<Longrightarrow> extract_key_from_composite (create_composite_key n k) = Some k"
  by (simp add: table_name_ok_def extract_key_from_composite_def create_composite_key_def position_separator)

lemma composite_inject:
  assumes "table_name_ok n" and "table_name_ok n'"
  shows "create_composite_key n k = create_composite_key n' k' \<longleftrightarrow> n = n' \<and> k = k'"
proof
  assume eq: "create_composite_key n k = create_composite_key n' k'"
  then have "k = k'" using composite_extract [OF assms(1), of k] composite_extract [OF assms(2), of k'] by simp
  with eq show "n = n' \<and> k = k'" by (simp add: create_composite_key_def)
qed simp

text \<open>For table names without a zero byte the composite key determines table and key, and the
  two extraction functions invert it; the one that also returns the table gives up on an empty
  table name and on an empty key.\<close>

lemma composite_key_laws:
  assumes "table_name_ok n" and "table_name_ok n'"
  shows "(create_composite_key n k = create_composite_key n' k' \<longleftrightarrow> n = n' \<and> k = k') \<and>
     extract_key_from_composite (create_composite_key n k) = Some k \<and>
     extract_key_from_composite_with_table (create_composite_key n k) =
       (if n = [] \<or> k = [] then None else Some (string_bytes n, k))"
proof -
  have "position (\<lambda>b. b = 0) (string_bytes n @ 0 # k) = Some (length (string_bytes n))"
    using assms(1) by (intro position_separator) (simp add: table_name_ok_def)
  then have "extract_key_from_composite_with_table (create_composite_key n k) =
      (if n = [] \<or> k = [] then None else Some (string_bytes n, k))"
    by (auto simp: extract_key_from_composite_with_table_def create_composite_key_def string_bytes_def)
  with composite_inject [OF assms] composite_extract [OF assms(1)] show ?thesis by blast
qed

text \<open>The keys between two composite keys of a table are composite keys of that table.\<close>

lemma prefix_interval:
  fixes p :: "'a::linorder list"
  shows "p @ lo \<le> x \<Longrightarrow> x \<le> p @ hi \<Longrightarrow> \<exists>y. x = p @ y \<and> lo \<le> y \<and> y \<le> hi"
proof (induction p arbitrary: x)
  case Nil
  then show ?case by simp
next
  case (Cons a p)
  then obtain b x' where x: "x = b # x'" by (cases x) auto
  with Cons.prems have "a = b" "p @ lo \<le> x'" "x' \<le> p @ hi" by auto
  with Cons.IH x show ?case by auto
qed

lemma composite_interval:
  assumes "create_composite_key n lo \<le> x" and "x \<le> create_composite_key n hi"
  shows "\<exists>k. x = create_composite_key n k \<and> lo \<le> k \<and> k \<le> hi"
  using prefix_interval [of "string_bytes n @ [0]" lo x hi] assms by (auto simp: create_composite_key_def)

section \<open>The rows an engine holds\<close>

text \<open>The file holds an index tree, every entry of which points to a page outside the tree.\<close>

definition engine_holds :: "'u ext_lib \<Rightarrow> 'u engine \<Rightarrow> bptree \<Rightarrow> bool" where
  "engine_holds L e t \<longleftrightarrow>
     btree_holds (crc32 L) (en_index e) t \<and> en_free e = [] \<and>
     (\<forall>(k, pid) \<in> set (entries t). pid \<notin> set (tree_pages t) \<and> unat pid < page_count (bt_pages (en_index e)))"

lemma en_pages_eq: "engine_holds L e t \<Longrightarrow> en_pages e = bt_pages (en_index e)"
  by (simp add: engine_holds_def btree_holds_def store_inv_def en_pages_def)

lemma on_data_Ok:
  assumes "en_free e = []" and "store_inv (bt_pages (en_index e))"
    and "m (bt_pages (en_index e)) = (Ok x, f')" and "store_inv f'"
  shows "on_data m e = (Ok x, e\<lparr>en_index := (en_index e)\<lparr>bt_pages := f'\<rparr>\<rparr>)"
proof -
  let ?f = "bt_pages (en_index e)"
  have "?f\<lparr>pf_free_list := []\<rparr> = ?f" "?f\<lparr>pf_file := pf_file f'\<rparr> = f'" "pf_free_list f' = []"
    using assms(2,4) by (simp_all add: store_inv_def)
  then show ?thesis using assms(1,3) by (simp add: on_data_def en_pages_def)
qed

text \<open>What a transaction sees of the row in a data page.\<close>

definition row_value :: "'u ext_lib \<Rightarrow> page_file \<Rightarrow> 'u transaction \<Rightarrow> page_id option \<Rightarrow> bytes option db_result" where
  "row_value L f tx found =
     (case found of
        None \<Rightarrow> Ok None
      | Some pid \<Rightarrow>
          rbind (read_page (crc32 L) f pid) (\<lambda>p.
          rbind (deserialize_mvcc_data L p) (\<lambda>versions. Ok (visible_value L versions tx))))"

text \<open>A data page holds a chain of versions.\<close>

definition row_stored :: "'u ext_lib \<Rightarrow> page_file \<Rightarrow> page_id \<Rightarrow> 'u version_chain \<Rightarrow> bool" where
  "row_stored L f pid vs \<longleftrightarrow> (\<exists>p. read_page (crc32 L) f pid = Ok p \<and> deserialize_mvcc_data L p = Ok vs)"

lemma row_stored_value: "row_stored L f pid vs \<Longrightarrow> row_value L f r (Some pid) = Ok (visible_value L vs r)"
  by (auto simp: row_stored_def row_value_def)

lemma row_stored_frame: "read_page (crc32 L) f' pid = read_page (crc32 L) f pid \<Longrightarrow> row_stored L f' pid vs = row_stored L f pid vs"
  by (simp add: row_stored_def)

lemma row_value_frame:
  "read_page (crc32 L) f' pid = read_page (crc32 L) f pid \<Longrightarrow> row_value L f' r (Some pid) = row_value L f r (Some pid)"
  by (simp add: row_value_def)

lemma engine_get_holds:
  assumes "engine_holds L e t"
  shows "engine_get L n k tx e =
    Some (row_value L (bt_pages (en_index e)) tx (map_of (entries t) (create_composite_key n k)))"
proof -
  have "btree_get (crc32 L) (en_index e) (create_composite_key n k) =
      Some (Ok (map_of (entries t) (create_composite_key n k)))"
    using assms by (intro btree_get_holds) (simp add: engine_holds_def)
  then show ?thesis by (simp add: engine_get_def row_value_def en_pages_eq [OF assms])
qed

definition versions_fit :: "'u ext_lib \<Rightarrow> 'u version_chain \<Rightarrow> bool" where
  "versions_fit L vs \<longleftrightarrow> 4 + length (concat (map (put_version L) vs)) \<le> MAX_PAYLOAD"

lemma versions_fit_ok:
  assumes L: "uuid_laws L" and fit: "versions_fit L vs"
  shows "(\<forall>v \<in> set vs. version_ok v) \<and> length vs < 2 ^ 32"
proof -
  have "length (rv_value v) \<le> length (concat (map (put_version L) vs))" if "v \<in> set vs" for v
    using that by (induction vs) (auto simp: length_put_version [OF L])
  moreover have "length vs \<le> length (concat (map (put_version L) vs))"
    by (induction vs) (auto simp: length_put_version [OF L])
  ultimately show ?thesis using fit by (fastforce simp: versions_fit_def version_ok_def MAX_PAYLOAD_def)
qed

text \<open>Writing a row to a page of the file, and reading it back.\<close>

definition row_page :: "'u ext_lib \<Rightarrow> page_id \<Rightarrow> 'u version_chain \<Rightarrow> page" where
  "row_page L pid vs = (page_new pid Data)\<lparr>pg_payload := le32 (of_nat (length vs)) @ concat (map (put_version L) vs)\<rparr>"

lemma write_row_page:
  assumes L: "uuid_laws L" and fit: "versions_fit L vs" and inv: "store_inv f"
    and pid: "unat pid \<le> page_count f" "unat pid < MAX_PAGES"
  shows "\<exists>f'. write_page (crc32 L) (row_page L pid vs) f = (Ok (), f') \<and> store_inv f' \<and>
     page_count f' = max (page_count f) (Suc (unat pid)) \<and> row_stored L f' pid vs \<and>
     (\<forall>j. j \<noteq> pid \<longrightarrow> unat j < page_count f \<longrightarrow> read_page (crc32 L) f' j = read_page (crc32 L) f j)"
proof -
  let ?p = "row_page L pid vs"
  have p: "ph_page_id (pg_header ?p) = pid" "length (pg_payload ?p) \<le> MAX_PAYLOAD"
    using fit by (simp_all add: row_page_def page_new_def versions_fit_def)
  have "deserialize_mvcc_data L (page_stored ?p) = Ok vs"
    using versions_fit_ok [OF L fit]
    by (intro deserialize_serialized [OF L]) (simp_all add: serialize_versions_def row_page_def)
  then show ?thesis using write_page_store [OF inv, of ?p "crc32 L"] p pid by (auto simp: row_stored_def)
qed

section \<open>Inserting a row\<close>

definition memory_table :: "'u engine \<Rightarrow> string \<Rightarrow> 'u mvcc_table" where
  "memory_table e n = (case en_tables e n of Some t \<Rightarrow> t | None \<Rightarrow> mvcc_new)"

definition memory_chain :: "'u engine \<Rightarrow> string \<Rightarrow> bytes \<Rightarrow> 'u version_chain" where
  "memory_chain e n k = (case mt_rows (memory_table e n) k of Some vs \<Rightarrow> vs | None \<Rightarrow> [])"

definition new_chain :: "bytes \<Rightarrow> 'u transaction \<Rightarrow> 'u version_chain \<Rightarrow> 'u version_chain" where
  "new_chain v tx vs = \<lparr>rv_created_by = t_tx_id tx, rv_deleted_by = None, rv_value = v\<rparr> # vs"

lemma mvcc_insert_chain:
  "mt_rows (mvcc_insert k v tx (memory_table e n)) k = Some (new_chain v tx (memory_chain e n k))"
  by (simp add: mvcc_insert_def new_chain_def memory_chain_def Let_def)

lemma engine_store_row_effect:
  assumes L: "uuid_laws L" and h: "engine_holds L e t" and fit: "versions_fit L (new_chain v tx (memory_chain e n k))"
    and cnt: "page_count (bt_pages (en_index e)) < MAX_PAGES"
    and pid: "pid = of_nat (page_count (bt_pages (en_index e)))"
  shows "\<exists>f'. engine_store_row L n k v tx e = (Ok pid,
       e\<lparr>en_tables := (en_tables e)(n \<mapsto> mvcc_insert k v tx (memory_table e n)),
         en_index := (en_index e)\<lparr>bt_pages := f'\<rparr>\<rparr>) \<and>
     store_inv f' \<and> page_count f' = Suc (page_count (bt_pages (en_index e))) \<and>
     row_stored L f' pid (new_chain v tx (memory_chain e n k)) \<and>
     (\<forall>j. unat j < page_count (bt_pages (en_index e)) \<longrightarrow>
        read_page (crc32 L) f' j = read_page (crc32 L) (bt_pages (en_index e)) j)"
proof -
  let ?f = "bt_pages (en_index e)" and ?vs = "new_chain v tx (memory_chain e n k)"
  have inv: "store_inv ?f" and fr: "en_free e = []" using h by (simp_all add: engine_holds_def btree_holds_def)
  have u: "unat pid = page_count ?f" unfolding pid by (rule data_pages.unat_count [OF inv cnt])
  obtain f' where f': "write_page (crc32 L) (row_page L pid ?vs) ?f = (Ok (), f')" "store_inv f'"
      "page_count f' = Suc (page_count ?f)"
      "\<forall>j. j \<noteq> pid \<longrightarrow> unat j < page_count ?f \<longrightarrow> read_page (crc32 L) f' j = read_page (crc32 L) ?f j"
    and rv: "row_stored L f' pid ?vs"
    using write_row_page [OF L fit inv, of pid] u cnt by auto
  have al: "on_data allocate_page e = (Ok pid, e)"
    using on_data_Ok [of e allocate_page pid ?f] fr inv allocate_page_count [OF inv] by (simp add: pid)
  let ?e = "e\<lparr>en_tables := (en_tables e)(n \<mapsto> mvcc_insert k v tx (memory_table e n))\<rparr>"
  have "on_data (write_page (crc32 L) (row_page L pid ?vs)) ?e = (Ok (), ?e\<lparr>en_index := (en_index e)\<lparr>bt_pages := f'\<rparr>\<rparr>)"
    using on_data_Ok [of ?e "write_page (crc32 L) (row_page L pid ?vs)" "()" f'] fr inv f'(1,2) by simp
  moreover have "serialize_mvcc_data L (mvcc_insert k v tx (memory_table e n)) k =
      Ok (le32 (of_nat (length ?vs)) @ concat (map (put_version L) ?vs))"
    by (simp add: serialize_mvcc_data_def mvcc_insert_chain serialize_versions_def)
  ultimately have "engine_store_row L n k v tx e = (Ok pid, ?e\<lparr>en_index := (en_index e)\<lparr>bt_pages := f'\<rparr>\<rparr>)"
    by (simp add: engine_store_row_def sbind_Ok [of "on_data allocate_page", OF al] memory_table_def [symmetric] Let_def)
      (simp add: sbind_def row_page_def lift_result_def)
  moreover have "\<forall>j. unat j < page_count ?f \<longrightarrow> read_page (crc32 L) f' j = read_page (crc32 L) ?f j"
    using f'(4) u by (metis less_irrefl)
  ultimately show ?thesis using f'(2,3) rv by blast
qed

text \<open>The leaf of the index that receives a composite key has room for it.\<close>

definition has_room :: "key \<Rightarrow> bptree \<Rightarrow> bool" where
  "has_room k t \<longleftrightarrow> length (snd (leaf_for k t)) < MAX_KEYS \<and>
     30 + length k + length (concat (map put_entry (snd (leaf_for k t)))) \<le> MAX_PAYLOAD"

lemma has_room_fit: "has_room k t \<Longrightarrow> entries_fit (insert_entry k v (snd (leaf_for k t)))"
  by (simp add: has_room_def entries_fit_def size_insert_entry)

lemma engine_insert_effect:
  assumes L: "uuid_laws L" and h: "engine_holds L e t"
    and fit: "versions_fit L (new_chain v tx (memory_chain e n k))"
    and cnt: "page_count (bt_pages (en_index e)) < MAX_PAGES"
    and room: "has_room (create_composite_key n k) t"
    and pid: "pid = of_nat (page_count (bt_pages (en_index e)))"
  shows "\<exists>e'. engine_insert L n k v tx e = Some (Ok (), e') \<and>
     engine_holds L e' (put_leaf (create_composite_key n k) pid t) \<and>
     en_tables e' = (en_tables e)(n \<mapsto> mvcc_insert k v tx (memory_table e n)) \<and>
     page_count (bt_pages (en_index e')) = Suc (page_count (bt_pages (en_index e))) \<and>
     en_tx e' = en_tx e \<and>
     row_stored L (bt_pages (en_index e')) pid (new_chain v tx (memory_chain e n k)) \<and>
     (\<forall>ck q. (ck, q) \<in> set (entries t) \<longrightarrow>
        read_page (crc32 L) (bt_pages (en_index e')) q = read_page (crc32 L) (bt_pages (en_index e)) q)"
proof -
  let ?f = "bt_pages (en_index e)" and ?ck = "create_composite_key n k" and ?crc = "crc32 L"
  obtain f1 where f1: "engine_store_row L n k v tx e = (Ok pid,
       e\<lparr>en_tables := (en_tables e)(n \<mapsto> mvcc_insert k v tx (memory_table e n)),
         en_index := (en_index e)\<lparr>bt_pages := f1\<rparr>\<rparr>)" (is "_ = (_, ?e1)")
      "store_inv f1" "page_count f1 = Suc (page_count ?f)"
      "row_stored L f1 pid (new_chain v tx (memory_chain e n k))"
      "\<forall>j. unat j < page_count ?f \<longrightarrow> read_page ?crc f1 j = read_page ?crc ?f j"
    using engine_store_row_effect [OF L h fit cnt pid] by blast
  have b: "btree_holds ?crc (en_index e) t" and pgs: "\<forall>p \<in> set (tree_pages t). unat p < page_count ?f"
    and data: "\<forall>(k, q) \<in> set (entries t). q \<notin> set (tree_pages t) \<and> unat q < page_count ?f"
    and s: "search_tree t" and inv: "store_inv ?f"
    using h by (simp_all add: engine_holds_def btree_holds_def)
  have u: "unat pid = page_count ?f" unfolding pid by (rule data_pages.unat_count [OF inv cnt])
  then have pt: "pid \<notin> set (tree_pages t)" using pgs by auto
  have b1: "btree_holds ?crc ((en_index e)\<lparr>bt_pages := f1\<rparr>) t"
    using f1(2,3,5) by (intro btree_holds_frame [OF b]) simp_all
  let ?p = "fst (leaf_for ?ck t)"
  have lp: "?p \<in> set (tree_pages t)" by (rule leaf_for_page [OF s])
  obtain b2 where b2: "btree_insert L ?ck pid (t_tx_id tx) ((en_index e)\<lparr>bt_pages := f1\<rparr>) = Some (Ok (), b2)"
      "btree_holds ?crc b2 (put_leaf ?ck pid t)" "page_count (bt_pages b2) = Suc (page_count ?f)"
      "\<forall>j. j \<noteq> ?p \<longrightarrow> unat j < Suc (page_count ?f) \<longrightarrow> read_page ?crc (bt_pages b2) j = read_page ?crc f1 j"
    using btree_insert_room [OF b1 _ has_room_fit [OF room], of pid "t_tx_id tx"] room f1(3) by (auto simp: has_room_def)
  let ?e' = "?e1\<lparr>en_index := b2\<rparr>"
  have "engine_insert L n k v tx e = Some (Ok (), ?e')" using f1(1) b2(1) by (simp add: engine_insert_def)
  moreover have "engine_holds L ?e' (put_leaf ?ck pid t)"
    using h b2(2,3) data u pt set_entries_put_leaf [OF s, of ?ck pid] by (auto simp: engine_holds_def)
  moreover have "pid \<noteq> ?p" using pt lp by metis
  then have "read_page ?crc (bt_pages b2) pid = read_page ?crc f1 pid" using b2(4) u by simp
  then have "row_stored L (bt_pages b2) pid (new_chain v tx (memory_chain e n k))"
    using f1(4) by (simp add: row_stored_def)
  moreover have "read_page ?crc (bt_pages b2) q = read_page ?crc ?f q" if "(ck, q) \<in> set (entries t)" for ck q
  proof -
    have "q \<notin> set (tree_pages t)" "unat q < page_count ?f" using that data by auto
    moreover from this(1) have "q \<noteq> ?p" using lp by metis
    ultimately show ?thesis using b2(4) f1(5) by simp
  qed
  ultimately show ?thesis using b2(3) by - (rule exI [of _ ?e'], auto)
qed

text \<open>C12. Inserting a row under a key that the index does not hold: the insertion succeeds, every
  transaction then reads from disk exactly what the versioned table in memory says, no other row
  changes, and the engine stays consistent.\<close>

theorem engine_insert_fresh:
  assumes "uuid_laws L" and "engine_holds L e t" and "versions_fit L (new_chain v tx (memory_chain e n k))"
    and "page_count (bt_pages (en_index e)) < MAX_PAGES" and "has_room (create_composite_key n k) t"
    and fresh: "map_of (entries t) (create_composite_key n k) = None"
  shows "\<exists>e' t'. engine_insert L n k v tx e = Some (Ok (), e') \<and> engine_holds L e' t' \<and>
     (\<forall>r. engine_get L n k r e' = Some (Ok (mvcc_read L k r (mvcc_insert k v tx (memory_table e n))))) \<and>
     (\<forall>r n' k'. create_composite_key n' k' \<noteq> create_composite_key n k \<longrightarrow>
        engine_get L n' k' r e' = engine_get L n' k' r e)"
proof -
  let ?ck = "create_composite_key n k" and ?pid = "of_nat (page_count (bt_pages (en_index e))) :: page_id"
  have s: "search_tree t" using assms(2) by (simp add: engine_holds_def btree_holds_def)
  obtain e' where e': "engine_insert L n k v tx e = Some (Ok (), e')" "engine_holds L e' (put_leaf ?ck ?pid t)"
      "row_stored L (bt_pages (en_index e')) ?pid (new_chain v tx (memory_chain e n k))"
      "\<forall>ck q. (ck, q) \<in> set (entries t) \<longrightarrow>
        read_page (crc32 L) (bt_pages (en_index e')) q = read_page (crc32 L) (bt_pages (en_index e)) q"
    using engine_insert_effect [OF assms(1-5) refl] by blast
  have "engine_get L n k r e' = Some (Ok (mvcc_read L k r (mvcc_insert k v tx (memory_table e n))))" for r
    using row_stored_value [OF e'(3)] fresh
    by (simp add: engine_get_holds [OF e'(2)] map_of_put_leaf [OF s] mvcc_read_def mvcc_insert_chain)
  moreover have "engine_get L n' k' r e' = engine_get L n' k' r e" if "create_composite_key n' k' \<noteq> ?ck" for r n' k'
    using that e'(4) by (cases "map_of (entries t) (create_composite_key n' k')")
      (auto simp: engine_get_holds [OF e'(2)] engine_get_holds [OF assms(2)] map_of_put_leaf [OF s] row_value_def
        dest: map_of_SomeD)
  ultimately show ?thesis using e'(1,2) by blast
qed

section \<open>A sample engine\<close>

definition sample_log :: wal_file where
  "sample_log = wal_writer_open \<lparr>wal_log = [], wal_synced = 0\<rparr>"

lemma engine_new_holds:
  assumes "store_inv f" and "page_count f < MAX_PAGES"
  shows "\<exists>e. engine_new L f w = Ok e \<and> engine_holds L e (BLeaf (of_nat (page_count f)) []) \<and>
     en_tables e = Map.empty \<and> page_count (bt_pages (en_index e)) = Suc (page_count f)"
proof -
  obtain b where b: "btree_new (crc32 L) f w = Ok b" "btree_holds (crc32 L) b (BLeaf (of_nat (page_count f)) [])"
      "page_count (bt_pages b) = Suc (page_count f)"
    using btree_new_holds [OF assms] by blast
  then show ?thesis using assms(1) by (simp add: engine_new_def engine_holds_def store_inv_def)
qed

lemma sample_engine:
  "\<exists>e. engine_new sample_lib sample_file sample_log = Ok e \<and> engine_holds sample_lib e (BLeaf 1 []) \<and>
     en_tables e = Map.empty \<and> page_count (bt_pages (en_index e)) = 2"
proof -
  have "page_count sample_file < MAX_PAGES" using sample_file_wf(2) by (simp add: MAX_PAGES_def)
  from engine_new_holds [OF sample_file_inv this, of sample_lib sample_log] show ?thesis
    by (simp add: sample_file_wf(2) numeral_2_eq_2)
qed

lemma sample_row_fits:
  "length v \<le> 100 \<Longrightarrow> versions_fit sample_lib [\<lparr>rv_created_by = t, rv_deleted_by = None, rv_value = v\<rparr>]"
  by (simp add: versions_fit_def length_put_version [OF sample_lib_laws] length_put_deleted [OF sample_lib_laws] MAX_PAYLOAD_def)

lemma sample_empty_chain: "en_tables e = Map.empty \<Longrightarrow> memory_chain e n k = []"
  by (simp add: memory_chain_def memory_table_def mvcc_new_def)

lemma sample_room: "length k \<le> 100 \<Longrightarrow> length es \<le> 2 \<Longrightarrow> \<forall>e \<in> set es. length (fst e) \<le> 100 \<Longrightarrow> has_room k (BLeaf p es)"
  by (cases es rule: list.exhaust; cases "tl es" rule: list.exhaust)
    (auto simp: has_room_def MAX_KEYS_def MAX_PAYLOAD_def length_put_entry)

theorem engine_insert_fresh_witness:
  "\<exists>e e'. engine_new sample_lib sample_file sample_log = Ok e \<and>
     engine_insert sample_lib ''t'' [1] [42] (sample_tx 2 1) e = Some (Ok (), e') \<and>
     engine_get sample_lib ''t'' [1] (sample_tx 4 3) e' = Some (Ok (Some [42]))"
proof -
  obtain e where e: "engine_new sample_lib sample_file sample_log = Ok e" "engine_holds sample_lib e (BLeaf 1 [])"
      "en_tables e = Map.empty" "page_count (bt_pages (en_index e)) = 2"
    using sample_engine by blast
  have "versions_fit sample_lib (new_chain [42] (sample_tx 2 1) (memory_chain e ''t'' [1]))"
    by (simp add: sample_empty_chain [OF e(3)] new_chain_def sample_row_fits)
  moreover have "has_room (create_composite_key ''t'' [1]) (BLeaf 1 [])"
    by (rule sample_room) (simp_all add: create_composite_key_def string_bytes_def)
  ultimately obtain e' where e': "engine_insert sample_lib ''t'' [1] [42] (sample_tx 2 1) e = Some (Ok (), e')"
      "\<forall>r. engine_get sample_lib ''t'' [1] r e' =
        Some (Ok (mvcc_read sample_lib [1] r (mvcc_insert [1] [42] (sample_tx 2 1) (memory_table e ''t''))))"
    using engine_insert_fresh [OF sample_lib_laws e(2), of "[42]" "sample_tx 2 1" "''t''" "[1]"] e(4)
    by (auto simp: MAX_PAGES_def)
  moreover have "\<not> after_snapshot sample_lib (sample_tx 2 1) (sample_tx 4 3)"
    by (simp add: after_snapshot_def sample_tx_def sample_key)
  ultimately show ?thesis using e(1) by (auto simp: mvcc_read_insert_same)
qed

text \<open>The sample engine with one row.\<close>

lemma sample_engine_row:
  "\<exists>e e'. engine_new sample_lib sample_file sample_log = Ok e \<and>
     engine_insert sample_lib ''t'' [1] [42] (sample_tx 2 1) e = Some (Ok (), e') \<and>
     engine_holds sample_lib e' (BLeaf 1 [(create_composite_key ''t'' [1], 2)]) \<and>
     page_count (bt_pages (en_index e')) = 3 \<and>
     memory_chain e' ''t'' [1] = [\<lparr>rv_created_by = sample_id 2, rv_deleted_by = None, rv_value = [42]\<rparr>] \<and>
     row_stored sample_lib (bt_pages (en_index e')) 2
        [\<lparr>rv_created_by = sample_id 2, rv_deleted_by = None, rv_value = [42]\<rparr>]"
proof -
  obtain e where e: "engine_new sample_lib sample_file sample_log = Ok e" "engine_holds sample_lib e (BLeaf 1 [])"
      "en_tables e = Map.empty" "page_count (bt_pages (en_index e)) = 2"
    using sample_engine by blast
  have ch: "new_chain [42] (sample_tx 2 1) (memory_chain e ''t'' [1]) =
      [\<lparr>rv_created_by = sample_id 2, rv_deleted_by = None, rv_value = [42]\<rparr>]"
    by (simp add: sample_empty_chain [OF e(3)] new_chain_def sample_tx_def)
  have "has_room (create_composite_key ''t'' [1]) (BLeaf 1 [])"
    by (rule sample_room) (simp_all add: create_composite_key_def string_bytes_def)
  then obtain e' where e': "engine_insert sample_lib ''t'' [1] [42] (sample_tx 2 1) e = Some (Ok (), e')"
      "engine_holds sample_lib e' (BLeaf 1 [(create_composite_key ''t'' [1], 2)])"
      "page_count (bt_pages (en_index e')) = 3"
      "en_tables e' = (en_tables e)(''t'' \<mapsto> mvcc_insert [1] [42] (sample_tx 2 1) (memory_table e ''t''))"
      "row_stored sample_lib (bt_pages (en_index e')) 2
        [\<lparr>rv_created_by = sample_id 2, rv_deleted_by = None, rv_value = [42]\<rparr>]"
    using engine_insert_effect [OF sample_lib_laws e(2), of "[42]" "sample_tx 2 1" "''t''" "[1]" 2] e(4) ch
    by (auto simp: MAX_PAGES_def sample_row_fits insert_entry_def find_child_def)
  have "memory_chain e' ''t'' [1] = new_chain [42] (sample_tx 2 1) (memory_chain e ''t'' [1])"
    using e'(4) by (simp add: memory_chain_def [of e'] memory_table_def [of e'] mvcc_insert_chain)
  with e(1) e' ch show ?thesis by auto
qed

end
