(* ===== verification/Engine_Rows.thy ===== *)
theory Engine_Rows
  imports Engine
begin

text \<open>
  Deleting rows, scanning ranges of rows, and inserting under an existing key, through the storage engine of
  \<^verbatim>\<open>sabi-storage/src/engine.rs\<close>.
\<close>

section \<open>Deleting a row\<close>

definition marked_chain :: "'u ext_lib \<Rightarrow> 'u transaction \<Rightarrow> 'u version_chain \<Rightarrow> 'u version_chain" where
  "marked_chain L tx vs = (case mark_deleted L tx vs of Some vs' \<Rightarrow> vs' | None \<Rightarrow> vs)"

lemma engine_delete_absent:
  assumes "engine_holds L e t" and "map_of (entries t) (create_composite_key n k) = None"
  shows "engine_delete L n k tx e = Some (Err (NotFound ''Key not found''), e)"
proof -
  have "btree_holds (crc32 L) (en_index e) t" using assms(1) by (simp add: engine_holds_def)
  from btree_get_holds [OF this] assms(2) show ?thesis by (simp add: engine_delete_def engine_delete_row_def)
qed

text \<open>The state after the deletion of an indexed row.\<close>

lemma engine_delete_present:
  assumes L: "uuid_laws L" and h: "engine_holds L e t"
    and found: "map_of (entries t) (create_composite_key n k) = Some pid"
    and row: "row_stored L (bt_pages (en_index e)) pid vs" and fit: "versions_fit L (marked_chain L tx vs)"
  shows "\<exists>e'. engine_delete L n k tx e = Some (Ok (), e') \<and> engine_holds L e' t \<and>
     en_tables e' = en_tables e \<and> en_tx e' = en_tx e \<and>
     page_count (bt_pages (en_index e')) = page_count (bt_pages (en_index e)) \<and>
     row_stored L (bt_pages (en_index e')) pid (marked_chain L tx vs) \<and>
     (\<forall>ck q. (ck, q) \<in> set (entries t) \<longrightarrow> q \<noteq> pid \<longrightarrow>
        read_page (crc32 L) (bt_pages (en_index e')) q = read_page (crc32 L) (bt_pages (en_index e)) q) \<and>
     wal_log (bt_wal (en_index e')) =
       wal_log (bt_wal (en_index e)) @ wal_frame L (WalDelete (t_tx_id tx) BTREE_TABLE_ID k)"
proof -
  let ?f = "bt_pages (en_index e)" and ?vs = "marked_chain L tx vs"
  have b: "btree_holds (crc32 L) (en_index e) t" and fr: "en_free e = []" and inv: "store_inv ?f"
    and pgs: "\<forall>(k, pid) \<in> set (entries t). pid \<notin> set (tree_pages t) \<and> unat pid < page_count ?f"
    using h by (simp_all add: engine_holds_def btree_holds_def)
  have del: "engine_delete L n k tx e = Some (engine_delete_row L k tx (Ok (Some pid)) e)"
    by (simp add: engine_delete_def btree_get_holds [OF b] found)
  obtain p where p: "read_page (crc32 L) ?f pid = Ok p" "deserialize_mvcc_data L p = Ok vs"
    using row by (auto simp: row_stored_def)
  have pid: "pid \<notin> set (tree_pages t)" "unat pid < page_count ?f" using map_of_SomeD [OF found] pgs by auto
  then have mx: "unat pid < MAX_PAGES" using inv by (simp add: store_inv_def wf_page_file_def)
  obtain f' where f': "write_page (crc32 L) (row_page L pid ?vs) ?f = (Ok (), f')" "store_inv f'"
      "page_count f' = page_count ?f" "row_stored L f' pid ?vs"
      "\<forall>j. j \<noteq> pid \<longrightarrow> unat j < page_count ?f \<longrightarrow> read_page (crc32 L) f' j = read_page (crc32 L) ?f j"
    using write_row_page [OF L fit inv _ mx] pid(2) by (auto simp: max_def split: if_splits)
  let ?e1 = "e\<lparr>en_index := (en_index e)\<lparr>bt_pages := f'\<rparr>\<rparr>"
  let ?e' = "e\<lparr>en_index := (en_index e)\<lparr>bt_pages := f', bt_wal := (bt_wal (en_index e))\<lparr>wal_log :=
    wal_log (bt_wal (en_index e)) @ wal_frame L (WalDelete (t_tx_id tx) BTREE_TABLE_ID k)\<rparr>\<rparr>\<rparr>"
  have "on_data (write_page (crc32 L) (row_page L pid ?vs)) e = (Ok (), ?e1)"
    using on_data_Ok [of e "write_page (crc32 L) (row_page L pid ?vs)" "()" f'] fr inv f'(1,2) by simp
  then have "engine_delete L n k tx e = Some (Ok (), ?e')"
    by (simp add: del engine_delete_row_def en_pages_eq [OF h] p serialize_versions_def
        marked_chain_def [symmetric] row_page_def [symmetric] Let_def)
      (simp add: sbind_def on_index_def on_wal_def log_btree_delete_def wal_append_def is_commit_def Let_def)
  moreover have "btree_holds (crc32 L) ((en_index e)\<lparr>bt_pages := f'\<rparr>) t"
    using f'(2,3,5) pid(1) by (intro btree_holds_frame [OF b]) auto
  then have "engine_holds L ?e' t" using h f'(3) by (simp add: engine_holds_def btree_holds_def)
  moreover have "read_page (crc32 L) f' q = read_page (crc32 L) ?f q" if "(ck, q) \<in> set (entries t)" "q \<noteq> pid" for ck q
    using f'(5) that pgs by auto
  ultimately show ?thesis using f'(3,4) by - (rule exI [of _ ?e'], auto)
qed

text \<open>Deleting a row whose key the index does not hold fails with \<open>NotFound\<close> and changes nothing.
  Deleting a row that it holds succeeds, whether or not the transaction sees a version of the row:
  the first version it sees, if any, is marked, and every transaction then reads the marked
  versions from disk.  The version in memory keeps no mark, and the record in the log carries the
  plain key, without the name of the table.\<close>

lemma engine_delete_effect:
  assumes "uuid_laws L" and "engine_holds L e t"
    and "\<forall>pid. map_of (entries t) (create_composite_key n k) = Some pid \<longrightarrow> row_stored L (bt_pages (en_index e)) pid vs"
    and "versions_fit L (marked_chain L tx vs)"
  shows "case map_of (entries t) (create_composite_key n k) of
       None \<Rightarrow> engine_delete L n k tx e = Some (Err (NotFound ''Key not found''), e)
     | Some pid \<Rightarrow> (\<exists>e'. engine_delete L n k tx e = Some (Ok (), e') \<and> engine_holds L e' t \<and>
         (\<forall>r. engine_get L n k r e' = Some (Ok (visible_value L (marked_chain L tx vs) r))) \<and>
         en_tables e' = en_tables e \<and>
         wal_log (bt_wal (en_index e')) =
           wal_log (bt_wal (en_index e)) @ wal_frame L (WalDelete (t_tx_id tx) BTREE_TABLE_ID k))"
proof (cases "map_of (entries t) (create_composite_key n k)")
  case None
  then show ?thesis using engine_delete_absent [OF assms(2)] by simp
next
  case (Some pid)
  then obtain e' where e': "engine_delete L n k tx e = Some (Ok (), e')" "engine_holds L e' t"
      "en_tables e' = en_tables e" "row_stored L (bt_pages (en_index e')) pid (marked_chain L tx vs)"
      "wal_log (bt_wal (en_index e')) =
         wal_log (bt_wal (en_index e)) @ wal_frame L (WalDelete (t_tx_id tx) BTREE_TABLE_ID k)"
    using engine_delete_present [OF assms(1,2) Some _ assms(4)] assms(3) by blast
  with Some row_stored_value [OF e'(4)] show ?thesis by (simp add: engine_get_holds [OF e'(2)])
qed

section \<open>Scanning a range\<close>

lemma scan_value_find:
  "scan_value L vs tx = map_option rv_value
     (find (\<lambda>v. tx_le L (rv_created_by v) (t_snapshot_tx tx) \<and> rv_deleted_by v = None) vs)"
  by (induction vs) (auto simp: is_visible_def)

lemma scan_rows_append:
  "scan_rows L f tx (xs @ ys) = rbind (scan_rows L f tx xs) (\<lambda>a. rbind (scan_rows L f tx ys) (\<lambda>b. Ok (a @ b)))"
proof (induction L f tx xs rule: scan_rows.induct)
  case (1 L f tx)
  then show ?case by (cases "scan_rows L f tx ys") simp_all
next
  case (2 L f tx ck pid rest)
  then show ?case
    by (simp add: rbind_assoc option.case_distrib [where h = "\<lambda>rows. rows @ bs" for bs] cong: option.case_cong)
qed

lemma scan_rows_frame:
  "(\<And>ck q. (ck, q) \<in> set es \<Longrightarrow> read_page (crc32 L) f' q = read_page (crc32 L) f q) \<Longrightarrow>
   scan_rows L f' tx es = scan_rows L f tx es"
proof (induction L f tx es rule: scan_rows.induct)
  case (2 L f tx ck pid rest)
  have "read_page (crc32 L) f' pid = read_page (crc32 L) f pid" using 2(2) [of ck pid] by simp
  moreover have "scan_rows L f' tx rest = scan_rows L f tx rest" by (rule 2(1)) (meson 2(2) list.set_intros(2))
  ultimately show ?case by simp
qed simp

lemma append_le_cancel: "xs @ ys \<le> xs @ zs \<longleftrightarrow> ys \<le> (zs :: bytes)"
  by (induction xs) simp_all

lemma scan_rows_one:
  assumes "table_name_ok n" and "row_stored L f pid vs"
  shows "scan_rows L f tx [(create_composite_key n k, pid)] =
    Ok (case scan_value L vs tx of Some v \<Rightarrow> [(k, v)] | None \<Rightarrow> [])"
  using assms(2) composite_extract [OF assms(1), of k] by (auto simp: row_stored_def)

lemma in_range_composite:
  "in_range (create_composite_key n lo) (create_composite_key n hi) (ck, pid) \<longleftrightarrow>
     (\<exists>k. ck = create_composite_key n k \<and> lo \<le> k \<and> k \<le> hi)"
  using composite_interval [of n lo ck hi] by (auto simp: in_range_def create_composite_key_def append_le_cancel)

lemma engine_range_scan_holds:
  assumes "engine_holds L e t"
  shows "engine_range_scan L n lo hi tx e = Some (scan_rows L (bt_pages (en_index e)) tx
    (filter (\<lambda>(ck, pid). \<exists>k. ck = create_composite_key n k \<and> lo \<le> k \<and> k \<le> hi) (entries t)))"
proof -
  have "btree_range (crc32 L) (en_index e) (create_composite_key n lo) (create_composite_key n hi) =
      Some (Ok (filter (in_range (create_composite_key n lo) (create_composite_key n hi)) (entries t)))"
    using assms by (intro btree_range_holds) (simp add: engine_holds_def)
  moreover have "in_range (create_composite_key n lo) (create_composite_key n hi) =
      (\<lambda>(ck, pid). \<exists>k. ck = create_composite_key n k \<and> lo \<le> k \<and> k \<le> hi)"
    using in_range_composite by (fastforce simp: fun_eq_iff)
  ultimately show ?thesis by (simp add: engine_range_scan_def en_pages_eq [OF assms])
qed

lemma scan_rows_exact:
  assumes n: "table_name_ok n"
  shows "\<forall>(ck, pid) \<in> set es. (\<exists>k. ck = create_composite_key n k) \<and> row_stored L f pid (chain pid) \<Longrightarrow>
    scan_rows L f tx es = Ok (List.map_filter (\<lambda>(ck, pid).
      map_option (\<lambda>v. (drop (Suc (length (string_bytes n))) ck, v)) (scan_value L (chain pid) tx)) es)"
proof (induction es)
  case (Cons x es)
  then obtain k pid where x: "x = (create_composite_key n k, pid)" "row_stored L f pid (chain pid)" by auto
  have "drop (Suc (length (string_bytes n))) (create_composite_key n k) = k" by (simp add: create_composite_key_def)
  with x Cons scan_rows_append [of L f tx "[x]" es] scan_rows_one [OF n x(2), of tx k] show ?case
    by (auto simp: List.map_filter_def split: option.splits)
qed (simp add: List.map_filter_def)

text \<open>C18. A range scan of a table ends and returns exactly the rows of the table in the range.  If every page that
  the index names for them can be read, the scan returns, in the order of the index, each key of the table
  between the bounds with the first version of its chain that was created no later than the snapshot
  of the transaction and carries no deletion mark, whoever set the mark; keys without such a version are left
  out, and so are the rows of all other tables.\<close>

theorem engine_range_scan_exact:
  assumes "engine_holds L e t" and "table_name_ok n"
    and "\<forall>k pid. (create_composite_key n k, pid) \<in> set (entries t) \<and> lo \<le> k \<and> k \<le> hi \<longrightarrow>
      row_stored L (bt_pages (en_index e)) pid (chain pid)"
  shows "engine_range_scan L n lo hi tx e = Some (Ok (List.map_filter
     (\<lambda>(ck, pid). map_option (\<lambda>v. (drop (Suc (length (string_bytes n))) ck, rv_value v))
        (find (\<lambda>v. tx_le L (rv_created_by v) (t_snapshot_tx tx) \<and> rv_deleted_by v = None) (chain pid)))
     (filter (\<lambda>(ck, pid). \<exists>k. ck = create_composite_key n k \<and> lo \<le> k \<and> k \<le> hi) (entries t))))"
proof -
  let ?es = "filter (\<lambda>(ck, pid). \<exists>k. ck = create_composite_key n k \<and> lo \<le> k \<and> k \<le> hi) (entries t)"
  have "\<forall>(ck, pid) \<in> set ?es. (\<exists>k. ck = create_composite_key n k) \<and> row_stored L (bt_pages (en_index e)) pid (chain pid)"
    using assms(3) by auto
  from scan_rows_exact [OF assms(2) this, of tx] show ?thesis
    by (simp add: engine_range_scan_holds [OF assms(1)] scan_value_find option.map_comp comp_def)
qed

theorem engine_range_scan_exact_witness:
  "\<exists>e e'. engine_new sample_lib sample_file sample_log = Ok e \<and>
     engine_insert sample_lib ''t'' [1] [42] (sample_tx 2 1) e = Some (Ok (), e') \<and>
     engine_range_scan sample_lib ''t'' [0] [9] (sample_tx 9 8) e' = Some (Ok [([1], [42])]) \<and>
     engine_range_scan sample_lib ''t'' [0] [9] (sample_tx 2 1) e' = Some (Ok [])"
proof -
  let ?old = "\<lparr>rv_created_by = sample_id 2, rv_deleted_by = None, rv_value = [42]\<rparr>"
  obtain e e' where e: "engine_new sample_lib sample_file sample_log = Ok e"
      "engine_insert sample_lib ''t'' [1] [42] (sample_tx 2 1) e = Some (Ok (), e')"
      "engine_holds sample_lib e' (BLeaf 1 [(create_composite_key ''t'' [1], 2)])"
      "row_stored sample_lib (bt_pages (en_index e')) 2 [?old]"
    using sample_engine_row by blast
  have n: "table_name_ok ''t''" by (simp add: table_name_ok_def string_bytes_def)
  have "([0] :: bytes) \<le> [1]" "([1] :: bytes) \<le> [9]" by simp_all
  then have r: "\<exists>k. create_composite_key ''t'' [1] = create_composite_key ''t'' k \<and> [0] \<le> k \<and> k \<le> [9]" by blast
  have d: "drop (Suc (length (string_bytes ''t''))) (create_composite_key ''t'' [1]) = [1]"
    by (simp add: create_composite_key_def)
  have "engine_range_scan sample_lib ''t'' [0] [9] tx e' = Some (Ok (List.map_filter
     (\<lambda>(ck, pid). map_option (\<lambda>v. (drop (Suc (length (string_bytes ''t''))) ck, rv_value v))
        (find (\<lambda>v. tx_le sample_lib (rv_created_by v) (t_snapshot_tx tx) \<and> rv_deleted_by v = None) [?old]))
     [(create_composite_key ''t'' [1], 2 :: page_id)]))" for tx
    using engine_range_scan_exact [OF e(3) n, of "[0]" "[9]" "\<lambda>_. [?old]" tx] e(4) r by simp
  with e(1,2) d show ?thesis by (auto simp: List.map_filter_def tx_le_key sample_tx_def sample_key)
qed

section \<open>Updating a row\<close>

lemma entries_put_leaf_split:
  assumes "search_tree t" and "distinct (tree_pages t)"
  shows "\<exists>pre post. entries t = pre @ post \<and> entries (put_leaf k v t) = pre @ (k, v) # post"
proof -
  obtain p es pre post where sp: "leaf_for k t = (p, es)" "leaves t = pre @ (p, es) # post"
      "leaves (put_leaf k v t) = pre @ (p, insert_entry k v es) # post"
    using leaf_for_split [OF assms, of k v] by (metis fst_conv snd_conv surj_pair)
  let ?i = "find_child (map fst es) k" and ?pre = "concat (map snd pre)" and ?post = "concat (map snd post)"
  have "entries t = (?pre @ take ?i es) @ drop ?i es @ ?post"
    "entries (put_leaf k v t) = (?pre @ take ?i es) @ (k, v) # drop ?i es @ ?post"
    unfolding entries_leaves sp(2,3) by (simp_all add: insert_entry_def Let_def)
  then show ?thesis by blast
qed

text \<open>What a scan over the key returns after an insertion: one row more, from the chain on the new page.\<close>

lemma scan_after_insert:
  assumes h: "engine_holds L e t" "engine_holds L e' (put_leaf (create_composite_key n k) pid t)" and n: "table_name_ok n"
    and row: "row_stored L (bt_pages (en_index e')) pid vs"
    and same: "\<And>ck q. (ck, q) \<in> set (entries t) \<Longrightarrow>
      read_page (crc32 L) (bt_pages (en_index e')) q = read_page (crc32 L) (bt_pages (en_index e)) q"
    and k: "lo \<le> k" "k \<le> hi" and sc: "engine_range_scan L n lo hi r e = Some (Ok rows)"
  shows "\<exists>rows1 rows2. rows = rows1 @ rows2 \<and> engine_range_scan L n lo hi r e' =
    Some (Ok (rows1 @ (case find (\<lambda>x. tx_le L (rv_created_by x) (t_snapshot_tx r) \<and> rv_deleted_by x = None) vs of
      Some x \<Rightarrow> [(k, rv_value x)] | None \<Rightarrow> []) @ rows2))"
proof -
  let ?ck = "create_composite_key n k" and ?f = "bt_pages (en_index e)" and ?f' = "bt_pages (en_index e')"
  let ?in = "\<lambda>(ck :: bytes, q :: page_id). \<exists>k. ck = create_composite_key n k \<and> lo \<le> k \<and> k \<le> hi"
  have s: "search_tree t" "distinct (tree_pages t)" using h(1) by (simp_all add: engine_holds_def btree_holds_def)
  obtain pre post where es: "entries t = pre @ post" "entries (put_leaf ?ck pid t) = pre @ (?ck, pid) # post"
    using entries_put_leaf_split [OF s] by blast
  obtain rows1 rows2 where rows: "scan_rows L ?f r (filter ?in pre) = Ok rows1"
      "scan_rows L ?f r (filter ?in post) = Ok rows2" "rows = rows1 @ rows2"
    using sc unfolding engine_range_scan_holds [OF h(1)] es(1) filter_append scan_rows_append
    by (auto simp: rbind_Ok_iff)
  have "scan_rows L ?f' r (filter ?in xs) = scan_rows L ?f r (filter ?in xs)" if "set xs \<subseteq> set (entries t)" for xs
    using that same by (intro scan_rows_frame) auto
  then have f': "scan_rows L ?f' r (filter ?in pre) = Ok rows1" "scan_rows L ?f' r (filter ?in post) = Ok rows2"
    using rows(1,2) es(1) by auto
  have one: "scan_rows L ?f' r [(?ck, pid)] = Ok (case find (\<lambda>x. tx_le L (rv_created_by x) (t_snapshot_tx r) \<and>
      rv_deleted_by x = None) vs of Some x \<Rightarrow> [(k, rv_value x)] | None \<Rightarrow> [])"
    unfolding scan_rows_one [OF n row] scan_value_find by (simp split: option.split)
  have "?in (?ck, pid)" using k by auto
  then have "filter ?in (pre @ (?ck, pid) # post) = filter ?in pre @ [(?ck, pid)] @ filter ?in post" by simp
  then show ?thesis
    unfolding engine_range_scan_holds [OF h(2)] es(2)
    by (intro exI [of _ rows1] exI [of _ rows2]) (simp only: scan_rows_append f' one rbind.simps rows(3) simp_thms)
qed

text \<open>C13. Inserting a row under a key that the index already holds reports success and enters a second row
  behind the first.  No lookup of any row ever returns anything but what it returned before, although the
  table in memory has the new version.  A range scan over the key returns everything it returned before and
  one more row for the key: the first unmarked version of the new chain, which has the new version in front of
  the old ones, that is not later than the snapshot of the reader.  So a reader of the new version gets the
  row twice, with both values.\<close>

theorem engine_update_duplicates:
  assumes "uuid_laws L" and "engine_holds L e t" and "versions_fit L (new_chain v tx (memory_chain e n k))"
    and "page_count (bt_pages (en_index e)) < MAX_PAGES" and "has_room (create_composite_key n k) t"
    and n: "table_name_ok n" and present: "map_of (entries t) (create_composite_key n k) = Some pid"
  shows "\<exists>e'. engine_insert L n k v tx e = Some (Ok (), e') \<and>
     (\<forall>r n' k'. engine_get L n' k' r e' = engine_get L n' k' r e) \<and>
     (\<forall>r. mvcc_read L k r (memory_table e' n) = mvcc_read L k r (mvcc_insert k v tx (memory_table e n))) \<and>
     (\<forall>r lo hi rows. lo \<le> k \<and> k \<le> hi \<and> engine_range_scan L n lo hi r e = Some (Ok rows) \<longrightarrow>
        (\<exists>rows1 rows2. rows = rows1 @ rows2 \<and>
           engine_range_scan L n lo hi r e' = Some (Ok (rows1 @
             (case find (\<lambda>x. tx_le L (rv_created_by x) (t_snapshot_tx r) \<and> rv_deleted_by x = None)
                (new_chain v tx (memory_chain e n k)) of Some x \<Rightarrow> [(k, rv_value x)] | None \<Rightarrow> []) @ rows2))))"
proof -
  let ?ck = "create_composite_key n k" and ?pid = "of_nat (page_count (bt_pages (en_index e))) :: page_id"
  let ?f = "bt_pages (en_index e)" and ?vs = "new_chain v tx (memory_chain e n k)"
  have s: "search_tree t" "distinct (tree_pages t)" using assms(2) by (simp_all add: engine_holds_def btree_holds_def)
  obtain e' where e': "engine_insert L n k v tx e = Some (Ok (), e')" "engine_holds L e' (put_leaf ?ck ?pid t)"
      "en_tables e' = (en_tables e)(n \<mapsto> mvcc_insert k v tx (memory_table e n))"
      "row_stored L (bt_pages (en_index e')) ?pid ?vs"
      "\<And>ck q. (ck, q) \<in> set (entries t) \<Longrightarrow> read_page (crc32 L) (bt_pages (en_index e')) q = read_page (crc32 L) ?f q"
    using engine_insert_effect [OF assms(1-5) refl] by blast
  have "engine_get L n' k' r e' = engine_get L n' k' r e" for r n' k'
    using present e'(5) by (cases "map_of (entries t) (create_composite_key n' k')")
      (auto simp: engine_get_holds [OF e'(2)] engine_get_holds [OF assms(2)] map_of_put_leaf [OF s(1)] row_value_def
        dest: map_of_SomeD)
  moreover have "memory_table e' n = mvcc_insert k v tx (memory_table e n)"
    using e'(3) by (simp add: memory_table_def [of e'])
  ultimately show ?thesis
    using e'(1) scan_after_insert [OF assms(2) e'(2) n e'(4,5)] by (intro exI [of _ e']) simp
qed

theorem engine_update_duplicates_witness:
  "\<exists>e e'. engine_insert sample_lib ''t'' [1] [43] (sample_tx 3 2) e = Some (Ok (), e') \<and>
     engine_get sample_lib ''t'' [1] (sample_tx 9 8) e' = Some (Ok (Some [42])) \<and>
     engine_range_scan sample_lib ''t'' [0] [9] (sample_tx 9 8) e = Some (Ok [([1], [42])]) \<and>
     (\<exists>rows1 rows2. rows1 @ rows2 = [([1], [42])] \<and>
        engine_range_scan sample_lib ''t'' [0] [9] (sample_tx 9 8) e' = Some (Ok (rows1 @ [([1], [43])] @ rows2)))"
proof -
  let ?ck = "create_composite_key ''t'' [1]" and ?tx = "sample_tx 9 8"
  let ?old = "\<lparr>rv_created_by = sample_id 2, rv_deleted_by = None, rv_value = [42]\<rparr>"
  obtain e where e: "engine_holds sample_lib e (BLeaf 1 [(?ck, 2)])" "memory_chain e ''t'' [1] = [?old]"
      "row_stored sample_lib (bt_pages (en_index e)) 2 [?old]"
      "page_count (bt_pages (en_index e)) = 3"
    using sample_engine_row by blast
  have n: "table_name_ok ''t''" by (simp add: table_name_ok_def string_bytes_def)
  have le: "([0] :: bytes) \<le> [1]" "([1] :: bytes) \<le> [9]" by simp_all
  have "versions_fit sample_lib (new_chain [43] (sample_tx 3 2) (memory_chain e ''t'' [1]))"
    by (simp add: e(2) new_chain_def versions_fit_def length_put_version [OF sample_lib_laws]
        length_put_deleted [OF sample_lib_laws] MAX_PAYLOAD_def)
  moreover have "has_room ?ck (BLeaf 1 [(?ck, 2)])"
    by (rule sample_room) (simp_all add: create_composite_key_def string_bytes_def)
  ultimately obtain e' where e': "engine_insert sample_lib ''t'' [1] [43] (sample_tx 3 2) e = Some (Ok (), e')"
      "\<And>r n' k'. engine_get sample_lib n' k' r e' = engine_get sample_lib n' k' r e"
      "\<And>r lo hi rows. lo \<le> [1] \<and> [1] \<le> hi \<and> engine_range_scan sample_lib ''t'' lo hi r e = Some (Ok rows) \<Longrightarrow>
        (\<exists>rows1 rows2. rows = rows1 @ rows2 \<and>
           engine_range_scan sample_lib ''t'' lo hi r e' = Some (Ok (rows1 @
             (case find (\<lambda>x. tx_le sample_lib (rv_created_by x) (t_snapshot_tx r) \<and> rv_deleted_by x = None)
                (new_chain [43] (sample_tx 3 2) [?old]) of Some x \<Rightarrow> [([1], rv_value x)] | None \<Rightarrow> []) @ rows2)))"
    using engine_update_duplicates [OF sample_lib_laws e(1), of "[43]" "sample_tx 3 2" "''t''" "[1]" 2] e(2,4) n
    by (auto simp: MAX_PAGES_def)
  have get: "engine_get sample_lib ''t'' [1] ?tx e = Some (Ok (Some [42]))"
    using row_stored_value [OF e(3)] by (simp add: engine_get_holds [OF e(1)] is_visible_key sample_tx_def sample_key)
  have r: "\<exists>k. ?ck = create_composite_key ''t'' k \<and> [0] \<le> k \<and> k \<le> [9]" using le by blast
  have scan: "engine_range_scan sample_lib ''t'' [0] [9] ?tx e = Some (Ok [([1], [42])])"
    using scan_rows_one [OF n e(3), of ?tx "[1]"] r
    by (simp add: engine_range_scan_holds [OF e(1)] is_visible_key sample_tx_def sample_key)
  have "find (\<lambda>x. tx_le sample_lib (rv_created_by x) (t_snapshot_tx ?tx) \<and> rv_deleted_by x = None)
      (new_chain [43] (sample_tx 3 2) [?old]) = Some \<lparr>rv_created_by = sample_id 3, rv_deleted_by = None, rv_value = [43]\<rparr>"
    by (simp add: new_chain_def tx_le_key sample_tx_def sample_key)
  with e'(3) [of "[0]" "[9]" ?tx, OF conjI [OF le(1) conjI [OF le(2) scan]]] e'(1,2) get scan show ?thesis by fastforce
qed

end
