(* ===== verification/Sql_Exec.thy ===== *)
theory Sql_Exec
  imports Sql_Planner Engine_Rows
begin

text \<open>
  Plan execution of \<^verbatim>\<open>sabi-sql/src/executor/mod.rs\<close> on the storage engine.  An operation returns \<open>None\<close>
  when a loop of the index does not end; otherwise its outcome and the state it leaves.  \<open>now\<close> is the
  identifier that the clock yields if the call begins a transaction: one call of \<open>execute\<close> begins at most
  one.
\<close>

datatype 'u query_result =
    ResCreateTable
  | ResInsert nat
  | ResSelect "string list" "sql_value list list"
  | ResDelete nat
  | ResBeginTransaction "'u tx_id"
  | ResCommit
  | ResRollback

record 'u executor =
  ex_storage :: "'u engine"
  ex_catalog :: catalog
  ex_current_transaction :: "'u transaction option"
  ex_auto_commit :: bool

type_synonym ('s, 'a) sql_op = "'s \<Rightarrow> ('a sql_result \<times> 's) option"

definition executor_new :: "'u engine \<Rightarrow> catalog \<Rightarrow> 'u executor" where
  "executor_new storage c = \<lparr>ex_storage = storage, ex_catalog = c, ex_current_transaction = None, ex_auto_commit = True\<rparr>"

text \<open>Sequencing, pure outcomes, and calls of the engine with \<^verbatim>\<open>map_err(SqlError::Storage)\<close>.\<close>

definition obind :: "('s, 'a) sql_op \<Rightarrow> ('a \<Rightarrow> ('s, 'b) sql_op) \<Rightarrow> ('s, 'b) sql_op" where
  "obind m f s = (case m s of
     None \<Rightarrow> None
   | Some (Ok x, s') \<Rightarrow> f x s'
   | Some (Err e, s') \<Rightarrow> Some (Err e, s')
   | Some (Panic p, s') \<Rightarrow> Some (Panic p, s'))"

definition olift :: "'a sql_result \<Rightarrow> ('s, 'a) sql_op" where
  "olift r s = Some (r, s)"

definition on_storage :: "('u engine \<Rightarrow> ('a db_result \<times> 'u engine) option) \<Rightarrow> ('u executor, 'a) sql_op" where
  "on_storage m ex =
     map_option (\<lambda>(r, e). (map_err Storage r, ex\<lparr>ex_storage := e\<rparr>)) (m (ex_storage ex))"

definition begin_transaction :: "'u ext_lib \<Rightarrow> 'u \<Rightarrow> ('u executor, 'u transaction) sql_op" where
  "begin_transaction L now ex =
     (case ex_current_transaction ex of
        Some tx \<Rightarrow> Some (Ok tx, ex)
      | None \<Rightarrow>
          (case engine_begin L now True (ex_storage ex) of (tx, e) \<Rightarrow> Some (Ok tx, ex\<lparr>ex_storage := e\<rparr>)))"

text \<open>The commit at the end of a statement outside an explicit transaction.\<close>

definition finish_statement :: "'u ext_lib \<Rightarrow> 'u transaction \<Rightarrow> ('u executor, unit) sql_op" where
  "finish_statement L tx ex =
     (if ex_auto_commit ex
      then obind (on_storage (\<lambda>e. Some (engine_commit L (t_tx_id tx) e)))
             (\<lambda>_ ex. Some (Ok (), ex\<lparr>ex_current_transaction := None\<rparr>)) ex
      else Some (Ok (), ex))"

section \<open>Plan nodes\<close>

definition execute_create_table :: "table_schema \<Rightarrow> bool \<Rightarrow> ('u executor, 'u query_result) sql_op" where
  "execute_create_table schema if_not_exists ex =
     (let storage = ex_storage ex in
      if if_not_exists \<and> en_tables storage (ts_name schema) \<noteq> None then Some (Ok ResCreateTable, ex)
      else Some (Ok ResCreateTable,
        ex\<lparr>ex_storage := storage\<lparr>en_tables := (en_tables storage)(ts_name schema \<mapsto> mvcc_new)\<rparr>,
           ex_catalog := add_table schema (ex_catalog ex)\<rparr>))"

fun insert_rows ::
  "'u ext_lib \<Rightarrow> regex \<Rightarrow> string \<Rightarrow> string list option \<Rightarrow> table_schema \<Rightarrow> 'u transaction
     \<Rightarrow> expr list list \<Rightarrow> nat \<Rightarrow> ('u executor, nat) sql_op" where
  "insert_rows L rx table_name columns schema tx [] rows_inserted = olift (Ok rows_inserted)"
| "insert_rows L rx table_name columns schema tx (row_values # values) rows_inserted =
     obind (olift (build_row_key rx schema columns row_values)) (\<lambda>k.
     obind (olift (serialize_row rx schema columns row_values)) (\<lambda>row_data.
     obind (on_storage (engine_insert L table_name k row_data tx)) (\<lambda>_.
     insert_rows L rx table_name columns schema tx values (rows_inserted + 1))))"

definition execute_insert ::
  "'u ext_lib \<Rightarrow> regex \<Rightarrow> 'u \<Rightarrow> string \<Rightarrow> string list option \<Rightarrow> expr list list \<Rightarrow> table_schema
     \<Rightarrow> ('u executor, 'u query_result) sql_op" where
  "execute_insert L rx now table_name columns values schema =
     obind (begin_transaction L now) (\<lambda>tx.
     obind (insert_rows L rx table_name columns schema tx values 0) (\<lambda>rows_inserted.
     obind (finish_statement L tx) (\<lambda>_.
     olift (Ok (ResInsert rows_inserted)))))"

text \<open>The selected columns of a row.  A column name that the schema does not have is skipped; a column
  beyond the end of the row panics.\<close>

fun project_columns :: "table_schema \<Rightarrow> sql_value list \<Rightarrow> string list \<Rightarrow> sql_value list sql_result" where
  "project_columns schema row [] = Ok []"
| "project_columns schema row (col # cols) =
     (case position (\<lambda>c. cd_name c = col) (ts_columns schema) of
        None \<Rightarrow> project_columns schema row cols
      | Some idx \<Rightarrow>
          rbind (index row idx) (\<lambda>v.
          rbind (project_columns schema row cols) (\<lambda>vs. Ok (v # vs))))"

definition select_row :: "table_schema \<Rightarrow> string list \<Rightarrow> sql_value list \<Rightarrow> sql_value list sql_result" where
  "select_row schema columns row = (if columns = [] then Ok row else project_columns schema row columns)"

definition include_row :: "regex \<Rightarrow> string list \<Rightarrow> expr option \<Rightarrow> sql_value list \<Rightarrow> bool sql_result" where
  "include_row rx columns flt row =
     (case flt of Some filter_expr \<Rightarrow> evaluate_filter rx row columns filter_expr | None \<Rightarrow> Ok True)"

fun select_rows ::
  "regex \<Rightarrow> table_schema \<Rightarrow> string list \<Rightarrow> expr option \<Rightarrow> (bytes \<times> bytes) list \<Rightarrow> sql_value list list sql_result" where
  "select_rows rx schema columns flt [] = Ok []"
| "select_rows rx schema columns flt ((k, value_bytes) # all_rows) =
     rbind (deserialize_row schema value_bytes) (\<lambda>row.
     rbind (select_row schema columns row) (\<lambda>selected_row.
     rbind (include_row rx columns flt selected_row) (\<lambda>incl.
     rbind (select_rows rx schema columns flt all_rows) (\<lambda>rows.
     Ok (if incl then selected_row # rows else rows)))))"

definition scan_all :: "'u ext_lib \<Rightarrow> string \<Rightarrow> 'u transaction \<Rightarrow> ('u executor, (bytes \<times> bytes) list) sql_op" where
  "scan_all L table_name tx =
     on_storage (\<lambda>e. map_option (\<lambda>r. (r, e)) (engine_range_scan L table_name [] [] tx e))"

definition execute_scan ::
  "'u ext_lib \<Rightarrow> regex \<Rightarrow> 'u \<Rightarrow> string \<Rightarrow> string list \<Rightarrow> expr option \<Rightarrow> table_schema
     \<Rightarrow> ('u executor, 'u query_result) sql_op" where
  "execute_scan L rx now table_name columns flt schema =
     obind (begin_transaction L now) (\<lambda>tx.
     obind (scan_all L table_name tx) (\<lambda>all_rows.
     obind (olift (select_rows rx schema columns flt all_rows)) (\<lambda>rows.
     olift (Ok (ResSelect columns rows)))))"

text \<open>\<^verbatim>\<open>retain\<close> with \<^verbatim>\<open>unwrap_or(false)\<close>: a row on which the predicate fails is dropped.\<close>

fun retain_rows :: "regex \<Rightarrow> string list \<Rightarrow> expr \<Rightarrow> sql_value list list \<Rightarrow> sql_value list list sql_result" where
  "retain_rows rx columns predicate [] = Ok []"
| "retain_rows rx columns predicate (row # rows) =
     (case evaluate_filter rx row columns predicate of
        Panic p \<Rightarrow> Panic p
      | Ok True \<Rightarrow> rbind (retain_rows rx columns predicate rows) (\<lambda>rs. Ok (row # rs))
      | _ \<Rightarrow> retain_rows rx columns predicate rows)"

fun execute_filter :: "regex \<Rightarrow> expr \<Rightarrow> 'u query_result \<Rightarrow> 'u query_result sql_result" where
  "execute_filter rx predicate (ResSelect columns rows) =
     rbind (retain_rows rx columns predicate rows) (\<lambda>rows. Ok (ResSelect columns rows))"
| "execute_filter rx predicate _ = Err (ExecutionError ''Filter requires SELECT input'')"

fun execute_limit :: "u64 \<Rightarrow> u64 \<Rightarrow> 'u query_result \<Rightarrow> 'u query_result sql_result" where
  "execute_limit limit offset (ResSelect columns rows) =
     (if length rows \<le> unat offset then Ok (ResSelect columns [])
      else
        rbind (checked_add offset limit) (\<lambda>s.
        rbind (sub_slice rows (unat offset) (min (unat s) (length rows))) (\<lambda>rows.
        Ok (ResSelect columns rows))))"
| "execute_limit limit offset _ = Err (ExecutionError ''Limit requires SELECT input'')"

fun delete_rows ::
  "'u ext_lib \<Rightarrow> regex \<Rightarrow> string \<Rightarrow> expr option \<Rightarrow> table_schema \<Rightarrow> 'u transaction
     \<Rightarrow> (bytes \<times> bytes) list \<Rightarrow> nat \<Rightarrow> ('u executor, nat) sql_op" where
  "delete_rows L rx table_name flt schema tx [] rows_deleted = olift (Ok rows_deleted)"
| "delete_rows L rx table_name flt schema tx ((k, value_bytes) # all_rows) rows_deleted =
     obind (olift (deserialize_row schema value_bytes)) (\<lambda>row.
     obind (olift (include_row rx (map cd_name (ts_columns schema)) flt row)) (\<lambda>should_delete.
     if should_delete
     then obind (on_storage (engine_delete L table_name k tx)) (\<lambda>_.
          delete_rows L rx table_name flt schema tx all_rows (rows_deleted + 1))
     else delete_rows L rx table_name flt schema tx all_rows rows_deleted))"

definition execute_delete ::
  "'u ext_lib \<Rightarrow> regex \<Rightarrow> 'u \<Rightarrow> string \<Rightarrow> expr option \<Rightarrow> table_schema \<Rightarrow> ('u executor, 'u query_result) sql_op" where
  "execute_delete L rx now table_name flt schema =
     obind (begin_transaction L now) (\<lambda>tx.
     obind (scan_all L table_name tx) (\<lambda>all_rows.
     obind (delete_rows L rx table_name flt schema tx all_rows 0) (\<lambda>rows_deleted.
     obind (finish_statement L tx) (\<lambda>_.
     olift (Ok (ResDelete rows_deleted))))))"

definition execute_begin :: "'u ext_lib \<Rightarrow> 'u \<Rightarrow> ('u executor, 'u query_result) sql_op" where
  "execute_begin L now ex =
     (if ex_current_transaction ex \<noteq> None then Some (Err (ExecutionError ''Transaction already in progress''), ex)
      else
        (case engine_begin L now False (ex_storage ex) of
           (tx, e) \<Rightarrow> Some (Ok (ResBeginTransaction (t_tx_id tx)),
             ex\<lparr>ex_storage := e, ex_current_transaction := Some tx, ex_auto_commit := False\<rparr>)))"

text \<open>\<^verbatim>\<open>take\<close> empties the current transaction before the engine is called.\<close>

definition take_transaction :: "string \<Rightarrow> ('u executor, 'u transaction) sql_op" where
  "take_transaction msg ex =
     Some (ok_or (ExecutionError msg) (ex_current_transaction ex), ex\<lparr>ex_current_transaction := None\<rparr>)"

definition execute_commit :: "'u ext_lib \<Rightarrow> ('u executor, 'u query_result) sql_op" where
  "execute_commit L =
     obind (take_transaction ''No transaction to commit'') (\<lambda>tx.
     obind (on_storage (\<lambda>e. Some (engine_commit L (t_tx_id tx) e))) (\<lambda>_ ex.
     Some (Ok ResCommit, ex\<lparr>ex_auto_commit := True\<rparr>)))"

definition execute_rollback :: "'u ext_lib \<Rightarrow> ('u executor, 'u query_result) sql_op" where
  "execute_rollback L =
     obind (take_transaction ''No transaction to rollback'') (\<lambda>tx.
     obind (on_storage (\<lambda>e. Some (engine_abort L (t_tx_id tx) e))) (\<lambda>_ ex.
     Some (Ok ResRollback, ex\<lparr>ex_auto_commit := True\<rparr>)))"

fun execute :: "'u ext_lib \<Rightarrow> regex \<Rightarrow> 'u \<Rightarrow> logical_plan \<Rightarrow> ('u executor, 'u query_result) sql_op" where
  "execute L rx now (CreateTable schema if_not_exists) = execute_create_table schema if_not_exists"
| "execute L rx now (Insert table_name columns values schema) = execute_insert L rx now table_name columns values schema"
| "execute L rx now (Scan table_name columns flt schema) = execute_scan L rx now table_name columns flt schema"
| "execute L rx now (Filter input predicate) =
     obind (execute L rx now input) (\<lambda>r. olift (execute_filter rx predicate r))"
| "execute L rx now (Limit input limit offset) =
     obind (execute L rx now input) (\<lambda>r. olift (execute_limit limit offset r))"
| "execute L rx now (Delete table_name flt schema) = execute_delete L rx now table_name flt schema"
| "execute L rx now BeginTransaction = execute_begin L now"
| "execute L rx now Commit = execute_commit L"
| "execute L rx now Rollback = execute_rollback L"
| "execute L rx now (Project input columns expressions) = olift (Err (ExecutionError ''Unsupported plan node''))"

section \<open>Limits\<close>

text \<open>C36. \<^verbatim>\<open>LIMIT\<close> and \<^verbatim>\<open>OFFSET\<close> keep the window of rows they describe, unless some row is left after the
  offset and the sum of the two overflows, which panics.  The planner takes the
  largest \<^verbatim>\<open>usize\<close> for a limit that is no integer literal, so an \<^verbatim>\<open>OFFSET\<close> beside such a limit panics whenever
  it skips some but not all rows.\<close>

theorem execute_limit_window:
  "execute_limit limit offset (ResSelect columns rows) =
     (if unat offset < length rows \<and> 2 ^ 64 \<le> unat offset + unat limit
      then Panic ''attempt to add with overflow''
      else Ok (ResSelect columns (take (unat limit) (drop (unat offset) rows))))"
proof (cases "unat offset < length rows \<and> unat offset + unat limit < 2 ^ 64")
  case True
  then have s: "unat (offset + limit) = unat offset + unat limit" by (simp add: unat_word_ariths)
  have "take (min (unat offset + unat limit) (length rows) - unat offset) (drop (unat offset) rows) =
      take (unat limit) (drop (unat offset) rows)"
    by (simp add: min_def take_all_iff)
  with True s show ?thesis by (simp add: checked_add_def)
next
  case False
  then show ?thesis by (auto simp: checked_add_def)
qed

lemma offset_without_limit:
  assumes "0 < unat offset" and "unat offset < length rows"
  shows "execute_limit (constant_usize (- 1) None) offset (ResSelect columns rows) = Panic ''attempt to add with overflow''"
proof -
  have "unat (- 1 :: u64) = 2 ^ 64 - 1" by (simp add: unsigned_minus_1_eq_mask mask_eq_exp_minus_1)
  with assms show ?thesis by (simp add: constant_usize_def checked_add_def)
qed

text \<open>A table declared without key columns gets an empty key list, and every row of it the empty key.\<close>

lemma no_key_columns:
  "filter cd_primary_key (ct_columns stmt) = [] \<Longrightarrow> build_row_key rx (create_schema stmt) columns values = Ok []"
  by (simp add: build_row_key_def create_schema_def)

end
