(* ===== verification/Sql_Session.thy ===== *)
theory Sql_Session
  imports Sql_Exec
begin

text \<open>
  Sessions: sequences of executed plans.  \<open>session_reachable\<close> are the states of an executor after any
  plans with any outcomes.  The explicit transaction of a session stays active until it is committed or
  rolled back; what \<^verbatim>\<open>SELECT\<close> finds after an \<^verbatim>\<open>INSERT\<close>.
\<close>

inductive session_step :: "'u ext_lib \<Rightarrow> regex \<Rightarrow> 'u executor \<Rightarrow> 'u executor \<Rightarrow> bool" for L rx where
  session_execute: "execute L rx now p ex = Some (r, ex') \<Longrightarrow> session_step L rx ex ex'"

inductive session_reachable :: "'u ext_lib \<Rightarrow> regex \<Rightarrow> 'u executor \<Rightarrow> bool" for L rx where
  session_new: "session_reachable L rx (executor_new e c)"
| session_next: "session_reachable L rx ex \<Longrightarrow> session_step L rx ex ex' \<Longrightarrow> session_reachable L rx ex'"

inductive_cases session_stepE: "session_step L rx ex ex'"

section \<open>Operations that leave the transactions alone\<close>

definition keeps_tx :: "('u engine, 'a, db_error) op \<Rightarrow> bool" where
  "keeps_tx m \<longleftrightarrow> op_rel (\<lambda>e e'. en_tx e' = en_tx e) m"

named_theorems tx_intros "operations that do not change the transactions of the engine"

lemma keeps_tx_sbind [tx_intros]: "keeps_tx m \<Longrightarrow> (\<And>x. keeps_tx (g x)) \<Longrightarrow> keeps_tx (sbind m g)"
  unfolding keeps_tx_def by (rule op_rel_sbind) (auto intro: transpI)

lemma keeps_tx_lift [tx_intros]: "keeps_tx (lift_result r)"
  by (simp add: keeps_tx_def op_rel_lift reflp_def)

lemma keeps_tx_data [tx_intros]: "keeps_tx (on_data m)"
  by (simp add: keeps_tx_def op_rel_def on_data_def split: prod.splits)

lemma keeps_tx_index [tx_intros]: "keeps_tx (on_index m)"
  by (simp add: keeps_tx_def op_rel_def on_index_def split: prod.splits)

lemma keeps_tx_tables: "(\<And>e. keeps_tx (m e)) \<Longrightarrow> keeps_tx (\<lambda>e. m e (e\<lparr>en_tables := T e\<rparr>))"
  by (simp add: keeps_tx_def op_rel_def)

lemma keeps_txD: "keeps_tx m \<Longrightarrow> m e = (r, e') \<Longrightarrow> en_tx e' = en_tx e"
  unfolding keeps_tx_def by (drule op_relD)

lemma keeps_tx_snd: "keeps_tx m \<Longrightarrow> en_tx (snd (m e)) = en_tx e"
  by (simp add: keeps_tx_def op_rel_def)

lemma keeps_tx_store_row: "keeps_tx (engine_store_row L n k v tx)"
  unfolding engine_store_row_def Let_def
  by (rule keeps_tx_sbind [OF keeps_tx_data], rule keeps_tx_tables, intro tx_intros)

lemma engine_insert_tx:
  assumes "engine_insert L n k v tx e = Some (r, e')"
  shows "en_tx e' = en_tx e"
proof -
  obtain x e1 where st: "engine_store_row L n k v tx e = (x, e1)" by fastforce
  have "en_tx e1 = en_tx e" by (rule keeps_txD [OF keeps_tx_store_row st])
  with assms st show ?thesis by (cases x) (auto simp: engine_insert_def)
qed

lemma engine_delete_tx:
  assumes "engine_delete L n k tx e = Some (r, e')"
  shows "en_tx e' = en_tx e"
proof -
  have "en_tx (snd (engine_delete_row L k tx found e)) = en_tx e" for found
    unfolding engine_delete_row_def Let_def by (rule keeps_tx_snd) (intro tx_intros)
  then show ?thesis using assms by (auto simp: engine_delete_def) (metis snd_conv)
qed

section \<open>What statements keep\<close>

text \<open>A relation between the states before and after the calls of the engine that data statements make.  It
  then holds between the states before and after every data statement.\<close>

locale executor_frame =
  fixes L :: "'u ext_lib" and R :: "'u executor \<Rightarrow> 'u executor \<Rightarrow> bool"
  assumes frame_refl: "R ex ex"
    and frame_trans: "R ex1 ex2 \<Longrightarrow> R ex2 ex3 \<Longrightarrow> R ex1 ex3"
    and frame_begin: "ex_current_transaction ex = None \<Longrightarrow> engine_begin L now ro (ex_storage ex) = (tx, e) \<Longrightarrow>
      R ex (ex\<lparr>ex_storage := e\<rparr>)"
    and frame_insert: "engine_insert L n k v tx (ex_storage ex) = Some (res, e) \<Longrightarrow> R ex (ex\<lparr>ex_storage := e\<rparr>)"
    and frame_delete: "engine_delete L n k tx (ex_storage ex) = Some (res, e) \<Longrightarrow> R ex (ex\<lparr>ex_storage := e\<rparr>)"
    and frame_commit: "ex_auto_commit ex \<Longrightarrow> engine_commit L t (ex_storage ex) = (res, e) \<Longrightarrow>
      R ex (ex\<lparr>ex_storage := e\<rparr>)"
    and frame_idle: "ex_auto_commit ex \<Longrightarrow> R ex (ex\<lparr>ex_current_transaction := None\<rparr>)"
begin

definition framed :: "('u executor, 'a) sql_op \<Rightarrow> bool" where
  "framed m \<longleftrightarrow> (\<forall>ex r ex'. m ex = Some (r, ex') \<longrightarrow> R ex ex')"

lemma framedI: "(\<And>ex r ex'. m ex = Some (r, ex') \<Longrightarrow> R ex ex') \<Longrightarrow> framed m"
  by (simp add: framed_def)

lemma framedD: "framed m \<Longrightarrow> m ex = Some (r, ex') \<Longrightarrow> R ex ex'"
  unfolding framed_def by blast

lemma framed_obind:
  assumes m: "framed m" and g: "\<And>x. framed (g x)"
  shows "framed (obind m g)"
proof (rule framedI)
  fix ex r ex'
  assume run: "obind m g ex = Some (r, ex')"
  then obtain q ex1 where q: "m ex = Some (q, ex1)" by (auto simp: obind_def split: option.splits)
  have R1: "R ex ex1" by (rule framedD [OF m q])
  show "R ex ex'"
  proof (cases q)
    case (Ok x)
    with run q have "g x ex1 = Some (r, ex')" by (simp add: obind_def)
    from frame_trans [OF R1 framedD [OF g this]] show ?thesis .
  qed (use run q R1 in \<open>simp_all add: obind_def\<close>)
qed

lemma framed_olift: "framed (olift r)"
  by (auto simp: framed_def olift_def frame_refl)

lemma framed_storage:
  assumes "\<And>ex r e'. m (ex_storage ex) = Some (r, e') \<Longrightarrow> R ex (ex\<lparr>ex_storage := e'\<rparr>)"
  shows "framed (on_storage m)"
  using assms by (auto simp: framed_def on_storage_def)

lemma framed_insert: "framed (on_storage (engine_insert L n k v tx))"
  by (rule framed_storage) (rule frame_insert)

lemma framed_delete: "framed (on_storage (engine_delete L n k tx))"
  by (rule framed_storage) (rule frame_delete)

lemma framed_scan: "framed (scan_all L n tx)"
  unfolding scan_all_def by (rule framed_storage) (auto simp: frame_refl)

lemma framed_begin_transaction: "framed (begin_transaction L now)"
  by (rule framedI)
    (auto simp: begin_transaction_def frame_refl intro: frame_begin split: option.splits prod.splits)

lemma framed_finish: "framed (finish_statement L tx)"
proof (rule framedI)
  fix ex r ex'
  assume run: "finish_statement L tx ex = Some (r, ex')"
  obtain q e where q: "engine_commit L (t_tx_id tx) (ex_storage ex) = (q, e)" by fastforce
  show "R ex ex'"
  proof (cases "ex_auto_commit ex")
    case True
    then have R1: "R ex (ex\<lparr>ex_storage := e\<rparr>)" using q by (rule frame_commit)
    have R2: "R (ex\<lparr>ex_storage := e\<rparr>) (ex\<lparr>ex_storage := e, ex_current_transaction := None\<rparr>)"
      using frame_idle [of "ex\<lparr>ex_storage := e\<rparr>"] True by simp
    from run True q have "ex' = ex\<lparr>ex_storage := e\<rparr> \<or> ex' = ex\<lparr>ex_storage := e, ex_current_transaction := None\<rparr>"
      by (cases q) (auto simp: finish_statement_def obind_def on_storage_def)
    then show ?thesis using R1 R2 frame_trans by blast
  qed (use run frame_refl in \<open>simp add: finish_statement_def\<close>)
qed

lemmas framed_intros = framed_obind framed_olift framed_insert framed_delete framed_scan
  framed_begin_transaction framed_finish

lemma framed_insert_rows: "framed (insert_rows L rx n columns schema tx rows k)"
  by (induction rows arbitrary: k) (auto intro!: framed_intros)

lemma framed_delete_rows: "framed (delete_rows L rx n flt schema tx rows k)"
  by (induction rows arbitrary: k) (auto intro!: framed_intros)

lemma framed_execute_insert: "framed (execute_insert L rx now n columns vals schema)"
  unfolding execute_insert_def by (intro framed_intros framed_insert_rows)

lemma framed_execute_scan: "framed (execute_scan L rx now n columns flt schema)"
  unfolding execute_scan_def by (intro framed_intros)

lemma framed_execute_delete: "framed (execute_delete L rx now n flt schema)"
  unfolding execute_delete_def by (intro framed_intros framed_delete_rows)

text \<open>With the other four kinds of statements, the relation holds for every plan.\<close>

lemma framed_execute:
  assumes "\<And>schema b. framed (execute_create_table schema b)" and "framed (execute_begin L now)"
    and "framed (execute_commit L)" and "framed (execute_rollback L)"
  shows "framed (execute L rx now p)"
  by (induction p)
    (simp_all add: assms framed_obind framed_olift framed_execute_insert framed_execute_scan framed_execute_delete)

end

section \<open>The transaction of a session\<close>

definition session_inv :: "'u executor \<Rightarrow> bool" where
  "session_inv ex \<longleftrightarrow>
     (ex_auto_commit ex \<longleftrightarrow> ex_current_transaction ex = None) \<and>
     (\<forall>tx. ex_current_transaction ex = Some tx \<longrightarrow>
        (\<exists>u. tm_active (en_tx (ex_storage ex)) (t_tx_id tx) = Some u \<and> t_state u = Active))"

interpretation session: executor_frame L "\<lambda>ex ex'. session_inv ex \<longrightarrow> session_inv ex'" for L
  by unfold_locales (auto simp: session_inv_def dest: engine_insert_tx engine_delete_tx)

lemma begin_active:
  "engine_begin L now ro e = (tx, e') \<Longrightarrow> tm_active (en_tx e') (t_tx_id tx) = Some tx \<and> t_state tx = Active"
  by (auto simp: engine_begin_def tm_begin_def Let_def)

lemma framed_session_begin: "session.framed (execute_begin L now)"
  by (rule session.framedI)
    (auto simp: execute_begin_def session_inv_def dest: begin_active split: if_splits prod.splits)

lemma execute_commit_active:
  assumes "session_inv ex" and "ex_current_transaction ex \<noteq> None"
  shows "\<exists>ex'. execute_commit L ex = Some (Ok ResCommit, ex') \<and> session_inv ex' \<and> ex_current_transaction ex' = None"
  using assms
  by (auto simp: session_inv_def execute_commit_def obind_def take_transaction_def on_storage_def engine_commit_def
      sbind_def on_tx_def tm_commit_def on_index_def on_wal_def wal_flush_def)

lemma execute_rollback_active:
  assumes "session_inv ex" and "ex_current_transaction ex \<noteq> None"
  shows "\<exists>ex'. execute_rollback L ex = Some (Ok ResRollback, ex') \<and> session_inv ex' \<and> ex_current_transaction ex' = None"
  using assms
  by (auto simp: session_inv_def execute_rollback_def obind_def take_transaction_def on_storage_def engine_abort_def
      on_tx_def tm_abort_def)

lemma execute_end_idle:
  assumes "ex_current_transaction ex = None"
  shows "execute_commit L ex = Some (Err (ExecutionError ''No transaction to commit''), ex)"
    and "execute_rollback L ex = Some (Err (ExecutionError ''No transaction to rollback''), ex)"
  using assms by (simp_all add: execute_commit_def execute_rollback_def obind_def take_transaction_def)

lemma framed_session_commit: "session.framed (execute_commit L)"
proof (rule session.framedI, rule impI)
  fix ex r ex'
  assume run: "execute_commit L ex = Some (r, ex')" and inv: "session_inv ex"
  show "session_inv ex'"
  proof (cases "ex_current_transaction ex = None")
    case True
    with run inv show ?thesis by (simp add: execute_end_idle)
  next
    case False
    from execute_commit_active [OF inv this, of L] run show ?thesis by auto
  qed
qed

lemma framed_session_rollback: "session.framed (execute_rollback L)"
proof (rule session.framedI, rule impI)
  fix ex r ex'
  assume run: "execute_rollback L ex = Some (r, ex')" and inv: "session_inv ex"
  show "session_inv ex'"
  proof (cases "ex_current_transaction ex = None")
    case True
    with run inv show ?thesis by (simp add: execute_end_idle)
  next
    case False
    from execute_rollback_active [OF inv this, of L] run show ?thesis by auto
  qed
qed

lemma execute_keeps_inv:
  assumes "execute L rx now p ex = Some (r, ex')" and "session_inv ex"
  shows "session_inv ex'"
proof -
  have "session.framed (execute_create_table schema b)" for schema b
    by (rule session.framedI)
      (auto simp: execute_create_table_def session_inv_def Let_def split: if_splits)
  from session.framedD [OF session.framed_execute
      [OF this framed_session_begin framed_session_commit framed_session_rollback] assms(1)] assms(2)
  show ?thesis by blast
qed

lemma session_reachable_inv: "session_reachable L rx ex \<Longrightarrow> session_inv ex"
proof (induction rule: session_reachable.induct)
  case (session_new e c)
  show ?case by (simp add: session_inv_def executor_new_def)
next
  case (session_next ex ex')
  from session_next.hyps(2) show ?case
    by (rule session_stepE) (rule execute_keeps_inv [OF _ session_next.IH])
qed

text \<open>C22. In every state that a session can reach, statements commit on their own exactly when no
  transaction is open, whatever failed before; and an open transaction can always be ended: both
  \<^verbatim>\<open>COMMIT\<close> and \<^verbatim>\<open>ROLLBACK\<close> succeed and close it.\<close>

theorem session_transactions:
  assumes "session_reachable L rx ex"
  shows "(ex_auto_commit ex \<longleftrightarrow> ex_current_transaction ex = None) \<and>
     (ex_current_transaction ex \<noteq> None \<longrightarrow>
        (\<exists>ex'. execute L rx now Commit ex = Some (Ok ResCommit, ex') \<and> ex_current_transaction ex' = None) \<and>
        (\<exists>ex'. execute L rx now Rollback ex = Some (Ok ResRollback, ex') \<and> ex_current_transaction ex' = None))"
proof -
  have inv: "session_inv ex" using assms by (rule session_reachable_inv)
  then have "ex_auto_commit ex \<longleftrightarrow> ex_current_transaction ex = None" by (simp add: session_inv_def)
  with execute_commit_active [OF inv] execute_rollback_active [OF inv] show ?thesis by (metis execute.simps(8,9))
qed

theorem session_transactions_witness:
  "\<exists>ex ex'. session_reachable sample_lib (\<lambda>p. Inl p) ex \<and> ex_current_transaction ex \<noteq> None \<and>
     execute sample_lib (\<lambda>p. Inl p) 9 Commit ex = Some (Ok ResCommit, ex') \<and> ex_current_transaction ex' = None"
proof -
  obtain e :: "128 word engine" where "engine_holds sample_lib e (BLeaf 1 [])" using sample_engine by blast
  obtain tx e1 where e1: "engine_begin sample_lib 5 False e = (tx, e1)" by fastforce
  let ?ex0 = "executor_new e catalog_new"
  obtain r ex where b: "execute sample_lib (\<lambda>p. Inl p) 5 BeginTransaction ?ex0 = Some (r, ex)"
      "ex_current_transaction ex \<noteq> None"
    using e1 by (simp add: execute_begin_def executor_new_def)
  have "session_reachable sample_lib (\<lambda>p. Inl p) ex"
    by (rule session_next [OF session_new session_execute [OF b(1)]])
  with session_transactions [OF this, of 9] b(2) show ?thesis by blast
qed

section \<open>Selecting what was inserted\<close>

lemma key_parts_length:
  "key_parts rx schema columns values pks = Ok parts \<Longrightarrow> length parts = length pks"
  by (induction pks arbitrary: parts) (auto simp: rbind_Ok_iff split: if_splits)

lemma build_row_key_nonempty:
  assumes "build_row_key rx schema columns values = Ok k" and "ts_primary_key schema = Some (pk # pks)"
  shows "k \<noteq> []"
proof -
  obtain parts where parts: "key_parts rx schema columns values (pk # pks) = Ok parts"
      "k = concat (map (\<lambda>part. le32 (of_nat (length part)) @ part) parts)"
    using assms by (auto simp: build_row_key_def rbind_Ok_iff)
  from key_parts_length [OF parts(1)] obtain part ps where "parts = part # ps" by (cases parts) auto
  then have "length (le32 (of_nat (length part))) \<le> length k" using parts(2) by simp
  then show ?thesis by auto
qed

text \<open>A full scan asks for the keys between the empty key and the empty key.\<close>

lemma scan_all_empty:
  assumes "engine_holds L (ex_storage ex) t" and "\<forall>pid. (create_composite_key n [], pid) \<notin> set (entries t)"
  shows "scan_all L n tx ex = Some (Ok [], ex)"
proof -
  let ?ck = "create_composite_key n []"
  have "filter (in_range ?ck ?ck) (entries t) = []"
    using assms(2) by (auto simp: filter_empty_conv in_range_def)
  moreover have "btree_range (crc32 L) (en_index (ex_storage ex)) ?ck ?ck = Some (Ok (filter (in_range ?ck ?ck) (entries t)))"
    using assms(1) by (intro btree_range_holds) (simp add: engine_holds_def)
  ultimately show ?thesis by (simp add: scan_all_def on_storage_def engine_range_scan_def)
qed

lemma engine_begin_simps:
  assumes "engine_begin L now ro e = (tx, e1)"
  shows "en_index e1 = en_index e" "en_free e1 = en_free e" "en_tables e1 = en_tables e" "t_tx_id tx = TxId now"
  using assms by (auto simp: engine_begin_def tm_begin_def Let_def)

lemma execute_scan_empty:
  assumes "engine_holds L (ex_storage ex) t" and "\<forall>pid. (create_composite_key n [], pid) \<notin> set (entries t)"
  shows "\<exists>ex'. execute L rx now (Scan n cols flt schema) ex = Some (Ok (ResSelect cols []), ex')"
proof -
  obtain u e1 where e1: "engine_begin L now True (ex_storage ex) = (u, e1)" by fastforce
  obtain tx ex1 where b: "begin_transaction L now ex = Some (Ok tx, ex1)"
      "en_index (ex_storage ex1) = en_index (ex_storage ex)" "en_free (ex_storage ex1) = en_free (ex_storage ex)"
    using engine_begin_simps [OF e1] e1 by (cases "ex_current_transaction ex") (simp_all add: begin_transaction_def)
  then have "engine_holds L (ex_storage ex1) t" using assms(1) by (simp add: engine_holds_def)
  from scan_all_empty [OF this assms(2), of tx] b(1) show ?thesis
    by (simp add: execute_scan_def obind_def olift_def)
qed

lemma engine_commit_active:
  assumes "tm_active (en_tx e) t = Some u" and "t_state u = Active"
  shows "\<exists>e'. engine_commit L t e = (Ok (), e') \<and> en_index e' = en_index e \<and> en_free e' = en_free e"
  using assms
  by (simp add: engine_commit_def sbind_def on_tx_def tm_commit_def on_index_def on_wal_def wal_flush_def)

lemma execute_insert_row:
  assumes L: "uuid_laws L" and h: "engine_holds L (ex_storage ex) t" and idle: "session_inv ex" "ex_current_transaction ex = None"
    and k: "build_row_key rx schema columns vals = Ok k" and row: "serialize_row rx schema columns vals = Ok row"
    and fit: "\<forall>tx. versions_fit L (new_chain row tx (memory_chain (ex_storage ex) n k))"
    and cnt: "page_count (bt_pages (en_index (ex_storage ex))) < MAX_PAGES"
    and room: "has_room (create_composite_key n k) t"
  shows "\<exists>ex' pid. execute L rx now (Insert n columns [vals] schema) ex = Some (Ok (ResInsert 1), ex') \<and>
     engine_holds L (ex_storage ex') (put_leaf (create_composite_key n k) pid t)"
proof -
  let ?pid = "of_nat (page_count (bt_pages (en_index (ex_storage ex)))) :: page_id"
  obtain tx e1 where b: "engine_begin L now True (ex_storage ex) = (tx, e1)" by fastforce
  note e1 = engine_begin_simps [OF b]
  have "engine_holds L e1 t" using h e1 by (simp add: engine_holds_def)
  moreover have "versions_fit L (new_chain row tx (memory_chain e1 n k))"
    using fit e1(3) by (simp add: memory_chain_def memory_table_def)
  ultimately obtain e2 where e2: "engine_insert L n k row tx e1 = Some (Ok (), e2)"
      "engine_holds L e2 (put_leaf (create_composite_key n k) ?pid t)"
    using engine_insert_effect [OF L, of e1 t row tx n k ?pid] cnt room e1(1) by auto
  have "tm_active (en_tx e2) (t_tx_id tx) = Some tx \<and> t_state tx = Active"
    using begin_active [OF b] engine_insert_tx [OF e2(1)] by simp
  then obtain e3 where e3: "engine_commit L (t_tx_id tx) e2 = (Ok (), e3)" "en_index e3 = en_index e2" "en_free e3 = en_free e2"
    using engine_commit_active by blast
  have auto: "ex_auto_commit ex" using idle by (simp add: session_inv_def)
  have "engine_holds L e3 (put_leaf (create_composite_key n k) ?pid t)" using e2(2) e3 by (simp add: engine_holds_def)
  moreover have "execute L rx now (Insert n columns [vals] schema) ex =
      Some (Ok (ResInsert 1), ex\<lparr>ex_storage := e3, ex_current_transaction := None\<rparr>)"
    using b idle(2) k row e2(1) e3(1) auto
    by (simp add: execute_insert_def obind_def olift_def begin_transaction_def on_storage_def finish_statement_def)
  ultimately show ?thesis by auto
qed

text \<open>C21. A row inserted into a table with a primary key cannot be selected.  When the table has no row under
  the empty key, an \<^verbatim>\<open>INSERT\<close> of a row with a key stores it and reports one row, and every later full
  scan of the table, whatever its columns and its condition, returns no rows.\<close>

theorem insert_then_select_empty:
  assumes "uuid_laws L" and h: "engine_holds L (ex_storage ex) t" and "session_reachable L rx ex"
    and "ex_current_transaction ex = None" and pk: "ts_primary_key schema = Some (pk # pks)"
    and none: "\<forall>pid. (create_composite_key n [], pid) \<notin> set (entries t)"
    and k: "build_row_key rx schema columns vals = Ok k" and "serialize_row rx schema columns vals = Ok row"
    and "\<forall>tx. versions_fit L (new_chain row tx (memory_chain (ex_storage ex) n k))"
    and "page_count (bt_pages (en_index (ex_storage ex))) < MAX_PAGES"
    and "has_room (create_composite_key n k) t"
  shows "\<exists>ex1 ex2. execute L rx now (Insert n columns [vals] schema) ex = Some (Ok (ResInsert 1), ex1) \<and>
     execute L rx now' (Scan n cols flt schema) ex1 = Some (Ok (ResSelect cols []), ex2)"
proof -
  obtain ex1 pid where ex1: "execute L rx now (Insert n columns [vals] schema) ex = Some (Ok (ResInsert 1), ex1)"
      "engine_holds L (ex_storage ex1) (put_leaf (create_composite_key n k) pid t)"
    using execute_insert_row [OF assms(1,2) session_reachable_inv [OF assms(3)] assms(4) k assms(8-11)] by blast
  have "search_tree t" using h by (simp add: engine_holds_def btree_holds_def)
  moreover have "k \<noteq> []" by (rule build_row_key_nonempty [OF k pk])
  ultimately have "\<forall>pid'. (create_composite_key n [], pid') \<notin> set (entries (put_leaf (create_composite_key n k) pid t))"
    using none by (auto simp: set_entries_put_leaf create_composite_key_def)
  from execute_scan_empty [OF ex1(2) this, of rx now' cols flt schema] ex1(1) show ?thesis by blast
qed

definition sample_vals :: "expr list" where
  "sample_vals = [Literal (VInteger 7), Literal (VText ''ann''), Literal (VBoolean True)]"

lemma sample_vals_key: "\<exists>k. build_row_key rx sample_schema None sample_vals = Ok k \<and> length k = 13"
  by (simp add: build_row_key_def sample_schema_def sample_vals_def key_index_def)

lemma sample_vals_row: "\<exists>row. serialize_row rx sample_schema None sample_vals = Ok row \<and> length row = 19"
  by (simp add: serialize_row_def sample_schema_def sample_vals_def find_column_def type_check_def)

theorem insert_then_select_empty_witness:
  "\<exists>ex ex1 ex2. execute sample_lib (\<lambda>p. Inl p) 5 (Insert ''users'' None [sample_vals] sample_schema) ex =
       Some (Ok (ResInsert 1), ex1) \<and>
     execute sample_lib (\<lambda>p. Inl p) 6 (Scan ''users'' [''id''] None sample_schema) ex1 =
       Some (Ok (ResSelect [''id''] []), ex2)"
proof -
  obtain e where e: "engine_holds sample_lib e (BLeaf 1 [])" "en_tables e = Map.empty"
      "page_count (bt_pages (en_index e)) = 2"
    using sample_engine by blast
  let ?ex = "executor_new e catalog_new"
  obtain k where k: "build_row_key (\<lambda>p. Inl p) sample_schema None sample_vals = Ok k" "length k = 13"
    using sample_vals_key by blast
  obtain row where row: "serialize_row (\<lambda>p. Inl p) sample_schema None sample_vals = Ok row" "length row = 19"
    using sample_vals_row by blast
  have ex: "ex_storage ?ex = e" "ex_current_transaction ?ex = None" by (simp_all add: executor_new_def)
  have pk: "ts_primary_key sample_schema = Some [''id'']" by (simp add: sample_schema_def)
  have "has_room (create_composite_key ''users'' k) (BLeaf 1 [])"
    using k(2) by (intro sample_room) (simp_all add: create_composite_key_def string_bytes_def)
  moreover have "\<forall>tx. versions_fit sample_lib (new_chain row tx (memory_chain (ex_storage ?ex) ''users'' k))"
    using row(2) by (simp add: ex sample_empty_chain [OF e(2)] new_chain_def sample_row_fits)
  ultimately have "\<exists>ex1 ex2. execute sample_lib (\<lambda>p. Inl p) 5 (Insert ''users'' None [sample_vals] sample_schema) ?ex =
       Some (Ok (ResInsert 1), ex1) \<and>
     execute sample_lib (\<lambda>p. Inl p) 6 (Scan ''users'' [''id''] None sample_schema) ex1 =
       Some (Ok (ResSelect [''id''] []), ex2)"
    using e ex by (intro insert_then_select_empty [OF sample_lib_laws _ session_new _ pk _ k(1) row(1)])
      (simp_all add: MAX_PAGES_def)
  then show ?thesis by blast
qed

end
