(* ===== verification/Sql_Parser.thy ===== *)
theory Sql_Parser
  imports Sql_Planner
begin

text \<open>
  The conversion of \<^verbatim>\<open>sabi-sql/src/parser/mod.rs\<close> from the syntax tree of the \<^verbatim>\<open>sqlparser\<close> crate to
  the statements of \<^verbatim>\<open>ast.rs\<close>.  The crate is a parameter: \<open>parse_sql\<close> yields its syntax trees or the
  text of its error.  The types \<open>sp_...\<close> are the view of those trees that the conversion has: the
  variants that its \<^verbatim>\<open>match\<close> expressions name with the fields they read, and one further variant for
  all others, with the \<^verbatim>\<open>{:?}\<close> text where the code prints it.
\<close>

section \<open>The syntax tree that is converted\<close>

datatype sp_value = SpNumber string bool | SpSingleQuotedString string | SpBoolean bool | SpNull | SpOtherValue

datatype sp_binary_operator =
    SpEq | SpNotEq | SpLt | SpLtEq | SpGt | SpGtEq | SpAnd | SpOr | SpPlus | SpMinus | SpMultiply | SpDivide
  | SpOtherBinary

datatype sp_unary_operator = SpUnaryNot | SpUnaryMinus | SpOtherUnary

datatype sp_expr =
    SpValue sp_value
  | SpIdentifier string
  | SpBinaryOp sp_expr sp_binary_operator sp_expr
  | SpUnaryOp sp_unary_operator sp_expr
  | SpIsNull sp_expr
  | SpIsNotNull sp_expr
  | SpBetween sp_expr bool sp_expr sp_expr
  | SpOtherExpr string

datatype sp_data_type = SpInt | SpInteger | SpText | SpVarchar | SpBool | SpOtherType string

datatype sp_column_option = SpNotNull | SpPrimaryKey | SpOtherOption

datatype sp_name_part = SpIdent string | SpOtherPart

type_synonym sp_object_name = "sp_name_part list"

record sp_column_def =
  spc_name :: string
  spc_data_type :: sp_data_type
  spc_options :: "sp_column_option list"

datatype sp_select_item = SpWildcard | SpUnnamedExpr sp_expr | SpExprWithAlias sp_expr string | SpOtherItem

datatype sp_table_factor = SpTable sp_object_name "string option" | SpOtherFactor

record sp_select =
  sps_distinct :: bool
  sps_projection :: "sp_select_item list"
  sps_from :: "sp_table_factor list"
  sps_selection :: "sp_expr option"

datatype sp_set_expr = SpSelect sp_select | SpValues "sp_expr list list" | SpOtherSetExpr

datatype sp_order_by_kind = SpExpressions "(sp_expr \<times> bool option) list" | SpOtherOrderBy

datatype sp_limit_clause =
    SpLimitOffset "sp_expr option" "sp_expr option"
  | SpOffsetCommaLimit sp_expr sp_expr

record sp_query =
  spq_body :: sp_set_expr
  spq_order_by :: "sp_order_by_kind option"
  spq_limit_clause :: "sp_limit_clause option"

datatype sp_table_object = SpTableName sp_object_name | SpTableFunction

datatype sp_statement =
    SpCreateTable sp_object_name "sp_column_def list"
  | SpInsert sp_table_object "string list" "sp_query option"
  | SpQuery sp_query
  | SpDelete "sp_object_name list" "sp_expr option"
  | SpStartTransaction
  | SpCommit
  | SpRollback
  | SpOtherStatement string

section \<open>Numbers\<close>

text \<open>\<^verbatim>\<open>str::parse::<i64>\<close>: an optional sign and decimal digits, read from the left until the first
  character that is no digit or takes the number out of range.\<close>

definition digit_of :: "char \<Rightarrow> int option" where
  "digit_of c = (let n = of_char c :: nat in if 48 \<le> n \<and> n \<le> 57 then Some (int (n - 48)) else None)"

definition in_i64 :: "int \<Rightarrow> bool" where
  "in_i64 x \<longleftrightarrow> - (2 ^ 63) \<le> x \<and> x < 2 ^ 63"

fun parse_digits :: "bool \<Rightarrow> int \<Rightarrow> string \<Rightarrow> string + int" where
  "parse_digits neg acc [] = Inr acc"
| "parse_digits neg acc (c # cs) =
     (case digit_of c of
        None \<Rightarrow> Inl ''invalid digit found in string''
      | Some d \<Rightarrow>
          let acc = (if neg then acc * 10 - d else acc * 10 + d)
          in if in_i64 acc then parse_digits neg acc cs
             else Inl (if neg then ''number too small to fit in target type''
                       else ''number too large to fit in target type''))"

definition parse_i64 :: "string \<Rightarrow> string + i64" where
  "parse_i64 s =
     (case s of
        [] \<Rightarrow> Inl ''cannot parse integer from empty string''
      | c # cs \<Rightarrow>
          if (c = CHR ''+'' \<or> c = CHR ''-'') \<and> cs = [] then Inl ''invalid digit found in string''
          else map_sum id word_of_int
            (if c = CHR ''-'' then parse_digits True 0 cs
             else if c = CHR ''+'' then parse_digits False 0 cs
             else parse_digits False 0 s))"

section \<open>Conversion\<close>

fun convert_value :: "sp_value \<Rightarrow> sql_value sql_result" where
  "convert_value (SpNumber s _) =
     (case parse_i64 s of
        Inl e \<Rightarrow> Err (ParseError (''Invalid number: '' @ e))
      | Inr i \<Rightarrow> Ok (VInteger i))"
| "convert_value (SpSingleQuotedString s) = Ok (VText s)"
| "convert_value (SpBoolean b) = Ok (VBoolean b)"
| "convert_value SpNull = Ok VNull"
| "convert_value SpOtherValue = Err (ParseError ''Unsupported value type'')"

fun convert_binary_operator :: "sp_binary_operator \<Rightarrow> binary_operator sql_result" where
  "convert_binary_operator SpEq = Ok Eq"
| "convert_binary_operator SpNotEq = Ok Neq"
| "convert_binary_operator SpLt = Ok Lt"
| "convert_binary_operator SpLtEq = Ok LtEq"
| "convert_binary_operator SpGt = Ok Gt"
| "convert_binary_operator SpGtEq = Ok GtEq"
| "convert_binary_operator SpAnd = Ok And"
| "convert_binary_operator SpOr = Ok Or"
| "convert_binary_operator SpPlus = Ok Add"
| "convert_binary_operator SpMinus = Ok Sub"
| "convert_binary_operator SpMultiply = Ok Mul"
| "convert_binary_operator SpDivide = Ok Div"
| "convert_binary_operator SpOtherBinary = Err (ParseError ''Unsupported binary operator'')"

fun convert_unary_operator :: "sp_unary_operator \<Rightarrow> unary_operator sql_result" where
  "convert_unary_operator SpUnaryNot = Ok Not"
| "convert_unary_operator SpUnaryMinus = Ok Neg"
| "convert_unary_operator SpOtherUnary = Err (ParseError ''Unsupported unary operator'')"

fun convert_expr :: "sp_expr \<Rightarrow> expr sql_result" where
  "convert_expr (SpValue v) = rbind (convert_value v) (\<lambda>val. Ok (Literal val))"
| "convert_expr (SpIdentifier ident) = Ok (ColumnRef ident)"
| "convert_expr (SpBinaryOp left op right) =
     rbind (convert_binary_operator op) (\<lambda>op.
     rbind (convert_expr left) (\<lambda>l.
     rbind (convert_expr right) (\<lambda>r. Ok (BinaryExpr l op r))))"
| "convert_expr (SpUnaryOp op e) =
     rbind (convert_unary_operator op) (\<lambda>op.
     rbind (convert_expr e) (\<lambda>e. Ok (UnaryExpr op e)))"
| "convert_expr (SpIsNull e) = rbind (convert_expr e) (\<lambda>e. Ok (IsNull e))"
| "convert_expr (SpIsNotNull e) = rbind (convert_expr e) (\<lambda>e. Ok (IsNotNull e))"
| "convert_expr (SpBetween e negated low high) =
     (if negated then
        rbind (convert_expr e) (\<lambda>e.
        rbind (convert_expr low) (\<lambda>l.
        rbind (convert_expr high) (\<lambda>h. Ok (UnaryExpr Not (Between e l h)))))
      else
        rbind (convert_expr e) (\<lambda>e.
        rbind (convert_expr low) (\<lambda>l.
        rbind (convert_expr high) (\<lambda>h. Ok (Between e l h)))))"
| "convert_expr (SpOtherExpr debug) = Err (ParseError (''Unsupported expression: '' @ debug))"

fun convert_data_type :: "sp_data_type \<Rightarrow> data_type sql_result" where
  "convert_data_type SpInt = Ok IntegerType"
| "convert_data_type SpInteger = Ok IntegerType"
| "convert_data_type SpText = Ok TextType"
| "convert_data_type SpVarchar = Ok TextType"
| "convert_data_type SpBool = Ok BooleanType"
| "convert_data_type (SpOtherType debug) = Err (ParseError (''Unsupported data type: '' @ debug))"

fun name_part :: "sp_name_part \<Rightarrow> string sql_result" where
  "name_part (SpIdent ident) = Ok ident"
| "name_part SpOtherPart = Err (ParseError ''Unsupported object name part'')"

definition object_name_to_string :: "sp_object_name \<Rightarrow> string sql_result" where
  "object_name_to_string name =
     rbind (traverse name_part name) (\<lambda>parts.
     if length parts \<noteq> 1 then Err (ParseError ''Only simple table names supported'')
     else index parts 0)"

definition convert_column :: "sp_column_def \<Rightarrow> column_def sql_result" where
  "convert_column col =
     rbind (convert_data_type (spc_data_type col)) (\<lambda>data_type.
     Ok \<lparr>cd_name = spc_name col, cd_data_type = data_type,
         cd_nullable = (\<not> list_ex (\<lambda>opt. opt = SpNotNull) (spc_options col)),
         cd_primary_key = list_ex (\<lambda>opt. opt = SpPrimaryKey) (spc_options col)\<rparr>)"

definition parse_create_table :: "sp_object_name \<Rightarrow> sp_column_def list \<Rightarrow> create_table_stmt sql_result" where
  "parse_create_table name columns =
     rbind (object_name_to_string name) (\<lambda>table_name.
     rbind (traverse convert_column columns) (\<lambda>column_defs.
     Ok \<lparr>ct_table_name = table_name, ct_columns = column_defs, ct_if_not_exists = False\<rparr>))"

definition parse_insert :: "sp_object_name \<Rightarrow> string list \<Rightarrow> sp_query \<Rightarrow> insert_stmt sql_result" where
  "parse_insert name columns source =
     rbind (object_name_to_string name) (\<lambda>table_name.
     let column_names = (if columns = [] then None else Some columns) in
     rbind (case spq_body source of
              SpValues rows \<Rightarrow> traverse (traverse convert_expr) rows
            | _ \<Rightarrow> Err (ParseError ''INSERT must have VALUES clause'')) (\<lambda>values.
     Ok \<lparr>in_table_name = table_name, in_columns = column_names, in_values = values\<rparr>))"

fun convert_select_item :: "sp_select_item \<Rightarrow> select_item sql_result" where
  "convert_select_item SpWildcard = Ok Wildcard"
| "convert_select_item (SpUnnamedExpr e) = rbind (convert_expr e) (\<lambda>e. Ok (SelectExpr e None))"
| "convert_select_item (SpExprWithAlias e alias) = rbind (convert_expr e) (\<lambda>e. Ok (SelectExpr e (Some alias)))"
| "convert_select_item SpOtherItem = Err (ParseError ''Unsupported SELECT item'')"

fun parse_table_ref :: "sp_table_factor \<Rightarrow> table_ref sql_result" where
  "parse_table_ref (SpTable name alias) =
     rbind (object_name_to_string name) (\<lambda>table_name. Ok (Table table_name alias))"
| "parse_table_ref SpOtherFactor = Err (ParseError ''Unsupported table reference'')"

definition parse_order_by :: "sp_order_by_kind option \<Rightarrow> order_by_expr list sql_result" where
  "parse_order_by order =
     (case order of
        None \<Rightarrow> Ok []
      | Some (SpExpressions exprs) \<Rightarrow>
          traverse (\<lambda>(e, asc). rbind (convert_expr e) (\<lambda>e.
            Ok \<lparr>ob_expr = e, ob_asc = (case asc of Some b \<Rightarrow> b | None \<Rightarrow> True)\<rparr>)) exprs
      | Some SpOtherOrderBy \<Rightarrow> Err (ParseError ''Unsupported ORDER BY kind''))"

definition parse_limit :: "sp_limit_clause option \<Rightarrow> (expr option \<times> expr option) sql_result" where
  "parse_limit clause =
     (case clause of
        None \<Rightarrow> Ok (None, None)
      | Some (SpLimitOffset limit offset) \<Rightarrow>
          rbind (traverse_option convert_expr limit) (\<lambda>limit.
          rbind (ok_or (ParseError ''LIMIT must have a value'') limit) (\<lambda>limit.
          rbind (traverse_option convert_expr offset) (\<lambda>offset.
          Ok (Some limit, offset))))
      | Some (SpOffsetCommaLimit offset limit) \<Rightarrow>
          rbind (convert_expr limit) (\<lambda>limit.
          rbind (convert_expr offset) (\<lambda>offset.
          Ok (Some limit, Some offset))))"

definition parse_select :: "sp_query \<Rightarrow> select_stmt sql_result" where
  "parse_select query =
     rbind (case spq_body query of
              SpSelect select \<Rightarrow> Ok select
            | _ \<Rightarrow> Err (ParseError ''Only SELECT queries supported'')) (\<lambda>select.
     rbind (traverse convert_select_item (sps_projection select)) (\<lambda>columns.
     rbind (case sps_from select of
              table # _ \<Rightarrow> parse_table_ref table
            | [] \<Rightarrow> Err (ParseError ''SELECT must have FROM clause'')) (\<lambda>from_ref.
     rbind (traverse_option convert_expr (sps_selection select)) (\<lambda>where_clause.
     rbind (parse_order_by (spq_order_by query)) (\<lambda>order_by.
     rbind (parse_limit (spq_limit_clause query)) (\<lambda>(limit, offset).
     Ok \<lparr>sel_distinct = sps_distinct select, sel_columns = columns, sel_from = from_ref,
         sel_where_clause = where_clause, sel_order_by = order_by, sel_limit = limit, sel_offset = offset\<rparr>))))))"

definition parse_delete :: "sp_object_name \<Rightarrow> sp_expr option \<Rightarrow> delete_stmt sql_result" where
  "parse_delete name selection =
     rbind (object_name_to_string name) (\<lambda>table_name.
     rbind (traverse_option convert_expr selection) (\<lambda>where_clause.
     Ok \<lparr>del_table_name = table_name, del_where_clause = where_clause\<rparr>))"

fun convert_statement :: "sp_statement \<Rightarrow> statement sql_result" where
  "convert_statement (SpCreateTable name columns) =
     rbind (parse_create_table name columns) (\<lambda>s. Ok (StCreateTable s))"
| "convert_statement (SpInsert table columns source) =
     rbind (case table of
              SpTableName name \<Rightarrow> Ok name
            | SpTableFunction \<Rightarrow> Err (ParseError ''INSERT INTO table functions not supported'')) (\<lambda>table_name.
     rbind (unwrap source) (\<lambda>source.
     rbind (parse_insert table_name columns source) (\<lambda>s. Ok (StInsert s))))"
| "convert_statement (SpQuery query) = rbind (parse_select query) (\<lambda>s. Ok (StSelect s))"
| "convert_statement (SpDelete tables selection) =
     rbind (ok_or (ParseError ''No table specified in DELETE statement'')
              (case tables of [] \<Rightarrow> None | table # _ \<Rightarrow> Some table)) (\<lambda>table.
     rbind (parse_delete table selection) (\<lambda>s. Ok (StDelete s)))"
| "convert_statement SpStartTransaction = Ok StBeginTransaction"
| "convert_statement SpCommit = Ok StCommit"
| "convert_statement SpRollback = Ok StRollback"
| "convert_statement (SpOtherStatement debug) = Err (ParseError (''Unsupported statement: '' @ debug))"

type_synonym sql_parser = "string \<Rightarrow> string + sp_statement list"

definition parse :: "sql_parser \<Rightarrow> string \<Rightarrow> statement list sql_result" where
  "parse parse_sql sql =
     (case parse_sql sql of
        Inl e \<Rightarrow> Err (ParseError e)
      | Inr statements \<Rightarrow> traverse convert_statement statements)"

section \<open>Reading numbers\<close>

definition signed_nat :: "bool \<Rightarrow> nat \<Rightarrow> int" where
  "signed_nat neg n = (if neg then - int n else int n)"

lemma digit_of_show: "d < 10 \<Longrightarrow> digit_of (char_of (48 + d)) = Some (int d)"
  by (simp add: digit_of_def Let_def)

lemma signed_nat_step:
  "(if neg then signed_nat neg (n div 10) * 10 - int (n mod 10) else signed_nat neg (n div 10) * 10 + int (n mod 10))
     = signed_nat neg n"
proof -
  have "int n = int (n div 10) * 10 + int (n mod 10)"
    by (metis div_mult_mod_eq of_nat_add of_nat_mult of_nat_numeral)
  then show ?thesis by (simp add: signed_nat_def)
qed

lemma in_i64_prefix: "in_i64 (signed_nat neg n) \<Longrightarrow> in_i64 (signed_nat neg (n div 10))"
proof -
  have "int (n div 10) \<le> int n" by simp
  then show "in_i64 (signed_nat neg n) \<Longrightarrow> ?thesis" by (auto simp: in_i64_def signed_nat_def)
qed

lemma parse_digits_show_nat:
  "in_i64 (signed_nat neg n) \<Longrightarrow> parse_digits neg 0 (show_nat n @ cs) = parse_digits neg (signed_nat neg n) cs"
proof (induction n arbitrary: cs rule: show_nat.induct)
  case (1 n)
  show ?case
  proof (cases "n < 10")
    case True
    with "1.prems" show ?thesis
      by (cases neg) (simp_all add: show_nat.simps [of n] digit_of_show signed_nat_def Let_def)
  next
    case False
    have "parse_digits neg 0 (show_nat n @ cs) =
        parse_digits neg (signed_nat neg (n div 10)) (char_of (48 + n mod 10) # cs)"
      using "1.IH" [OF False in_i64_prefix [OF "1.prems"]] False by (simp add: show_nat.simps [of n])
    also have "\<dots> = parse_digits neg (signed_nat neg n) cs"
      using "1.prems" by (simp add: digit_of_show signed_nat_step [of neg n] Let_def)
    finally show ?thesis .
  qed
qed

lemma show_nat_Cons: "\<exists>d :: nat. \<exists>cs. show_nat n = char_of (48 + d) # cs \<and> d < 10"
proof (induction n rule: show_nat.induct)
  case (1 n)
  show ?case
  proof (cases "n < 10")
    case False
    with 1 obtain d :: nat and cs where d: "show_nat (n div 10) = char_of (48 + d) # cs" "d < 10" by blast
    with False have "show_nat n = char_of (48 + d) # cs @ [char_of (48 + n mod 10)]"
      by (simp add: show_nat.simps [of n])
    with d(2) show ?thesis by blast
  next
    case True
    then have "show_nat n = char_of (48 + n) # []" by (simp add: show_nat.simps [of n])
    with True show ?thesis by blast
  qed
qed

lemma show_nat_sign: "\<exists>c cs. show_nat n = c # cs \<and> c \<noteq> CHR ''+'' \<and> c \<noteq> CHR ''-''"
proof -
  obtain d :: nat and cs where d: "show_nat n = char_of (48 + d) # cs" "d < 10" using show_nat_Cons by blast
  have "digit_of CHR ''+'' = None" "digit_of CHR ''-'' = None" by (simp_all add: digit_of_def)
  with digit_of_show [OF d(2)] have "char_of (48 + d) \<noteq> CHR ''+''" "char_of (48 + d) \<noteq> CHR ''-''" by auto
  with d(1) show ?thesis by blast
qed

lemma parse_i64_show_int: "parse_i64 (show_int (sint i)) = Inr i"
proof (cases "sint i < 0")
  case True
  have n: "signed_nat True (nat (- sint i)) = sint i" using True by (simp add: signed_nat_def)
  have "in_i64 (sint i)" using sint_range_size [of i] by (simp add: in_i64_def word_size)
  with n parse_digits_show_nat [of True "nat (- sint i)" "[]"]
  have "parse_digits True 0 (show_nat (nat (- sint i))) = Inr (sint i)" by simp
  moreover obtain c cs where "show_nat (nat (- sint i)) = c # cs" using show_nat_Cons by blast
  ultimately show ?thesis using True by (simp add: parse_i64_def show_int_def)
next
  case False
  have n: "signed_nat False (nat (sint i)) = sint i" using False by (simp add: signed_nat_def)
  have "in_i64 (sint i)" using sint_range_size [of i] by (simp add: in_i64_def word_size)
  with n parse_digits_show_nat [of False "nat (sint i)" "[]"]
  have "parse_digits False 0 (show_nat (nat (sint i))) = Inr (sint i)" by simp
  moreover obtain c cs where "show_nat (nat (sint i)) = c # cs" "c \<noteq> CHR ''+''" "c \<noteq> CHR ''-''"
    using show_nat_sign by blast
  ultimately show ?thesis using False by (simp add: parse_i64_def show_int_def)
qed

section \<open>The expressions that the conversion reaches\<close>

text \<open>Expressions without \<open>LIKE\<close>, function calls and value lists.\<close>

fun supported :: "expr \<Rightarrow> bool" where
  "supported (Literal v) \<longleftrightarrow> True"
| "supported (ColumnRef c) \<longleftrightarrow> True"
| "supported (BinaryExpr l op r) \<longleftrightarrow> op \<noteq> Like \<and> supported l \<and> supported r"
| "supported (UnaryExpr op e) \<longleftrightarrow> supported e"
| "supported (IsNull e) \<longleftrightarrow> supported e"
| "supported (IsNotNull e) \<longleftrightarrow> supported e"
| "supported (Between e l h) \<longleftrightarrow> supported e \<and> supported l \<and> supported h"
| "supported (FunctionCall f args) \<longleftrightarrow> False"
| "supported (InList e es) \<longleftrightarrow> False"

text \<open>The syntax tree of an expression, as a reference for the conversion.\<close>

fun unparse_value :: "sql_value \<Rightarrow> sp_value" where
  "unparse_value VNull = SpNull"
| "unparse_value (VInteger i) = SpNumber (show_int (sint i)) False"
| "unparse_value (VText s) = SpSingleQuotedString s"
| "unparse_value (VBoolean b) = SpBoolean b"

fun unparse_binary :: "binary_operator \<Rightarrow> sp_binary_operator" where
  "unparse_binary Eq = SpEq"
| "unparse_binary Neq = SpNotEq"
| "unparse_binary Lt = SpLt"
| "unparse_binary LtEq = SpLtEq"
| "unparse_binary Gt = SpGt"
| "unparse_binary GtEq = SpGtEq"
| "unparse_binary And = SpAnd"
| "unparse_binary Or = SpOr"
| "unparse_binary Add = SpPlus"
| "unparse_binary Sub = SpMinus"
| "unparse_binary Mul = SpMultiply"
| "unparse_binary Div = SpDivide"
| "unparse_binary Like = SpOtherBinary"

fun unparse_unary :: "unary_operator \<Rightarrow> sp_unary_operator" where
  "unparse_unary Not = SpUnaryNot"
| "unparse_unary Neg = SpUnaryMinus"

fun unparse :: "expr \<Rightarrow> sp_expr" where
  "unparse (Literal v) = SpValue (unparse_value v)"
| "unparse (ColumnRef c) = SpIdentifier c"
| "unparse (BinaryExpr l op r) = SpBinaryOp (unparse l) (unparse_binary op) (unparse r)"
| "unparse (UnaryExpr op e) = SpUnaryOp (unparse_unary op) (unparse e)"
| "unparse (IsNull e) = SpIsNull (unparse e)"
| "unparse (IsNotNull e) = SpIsNotNull (unparse e)"
| "unparse (Between e l h) = SpBetween (unparse e) False (unparse l) (unparse h)"
| "unparse (FunctionCall f args) = SpOtherExpr f"
| "unparse (InList e es) = SpOtherExpr []"

lemma convert_unparse_value: "convert_value (unparse_value v) = Ok v"
  by (cases v) (simp_all add: parse_i64_show_int)

lemma convert_unparse_binary: "op \<noteq> Like \<Longrightarrow> convert_binary_operator (unparse_binary op) = Ok op"
  by (cases op) simp_all

lemma convert_unparse_unary: "convert_unary_operator (unparse_unary op) = Ok op"
  by (cases op) simp_all

lemma convert_unparse: "supported e \<Longrightarrow> convert_expr (unparse e) = Ok e"
  by (induction e) (simp_all add: convert_unparse_value convert_unparse_binary convert_unparse_unary)

lemma convert_binary_not_like: "convert_binary_operator op \<noteq> Ok Like"
  by (cases op) simp_all

lemma convert_supported: "convert_expr s = Ok e \<Longrightarrow> supported e"
  by (induction s arbitrary: e) (auto simp: rbind_Ok_iff convert_binary_not_like split: if_splits)

text \<open>C24. The conversion of expressions: it reaches exactly the expressions without \<open>LIKE\<close>, function calls and
  value lists, and reads the syntax tree of such an expression, integers in decimal notation included,
  back as that expression.\<close>

theorem convert_expr_fragment:
  "((\<exists>s. convert_expr s = Ok e) \<longleftrightarrow> supported e) \<and> (convert_expr (unparse e) = Ok e \<longleftrightarrow> supported e)"
  using convert_unparse convert_supported by blast

section \<open>Converted expressions at run time\<close>

definition no_execution_error :: "'a sql_result \<Rightarrow> bool" where
  "no_execution_error r \<longleftrightarrow> (\<forall>m. r \<noteq> Err (ExecutionError m))"

lemma no_execution_error_simps [simp]:
  "no_execution_error (Ok x)" "no_execution_error (Panic p)"
  "no_execution_error (Err e) \<longleftrightarrow> (\<forall>m. e \<noteq> ExecutionError m)"
  by (simp_all add: no_execution_error_def)

lemma no_execution_error_rbind:
  "no_execution_error r \<Longrightarrow> (\<And>x. no_execution_error (f x)) \<Longrightarrow> no_execution_error (rbind r f)"
  by (cases r) auto

lemma value_to_bool_no_error: "no_execution_error (value_to_bool v)"
  by (cases v) simp_all

lemma compare_values_no_error: "no_execution_error (compare_values a b f)"
  by (cases a; cases b) (simp_all add: compare_values_def)

lemma i64_range_no_error: "no_execution_error (i64_range msg x)"
  by (simp add: i64_range_def)

lemma binary_op_no_error: "op \<noteq> Like \<Longrightarrow> no_execution_error (binary_op rx op a b)"
  by (cases op; cases a; cases b)
    (auto simp: binary_op_def arithmetic_op_def i64_defs i64_range_no_error value_to_bool_no_error
      compare_values_no_error intro!: no_execution_error_rbind)

lemma unary_op_no_error: "no_execution_error (unary_op op v)"
  by (cases op; cases v)
    (auto simp: unary_op_def i64_neg_def i64_range_no_error intro!: no_execution_error_rbind)

lemmas no_error_intros = no_execution_error_rbind binary_op_no_error unary_op_no_error
  value_to_bool_no_error compare_values_no_error

lemma supported_no_error: "supported e \<Longrightarrow> no_execution_error (evaluate_expression rx ctx e)"
proof (induction e)
  case (ColumnRef c)
  then show ?case by (cases "ctx c") simp_all
qed (auto intro!: no_error_intros)

text \<open>The evaluator never reports an execution error on a converted expression: its branch for unsupported
  expressions cannot be reached from SQL text, and no \<open>LIKE\<close> pattern is ever compiled.\<close>

lemma converted_no_execution_error:
  assumes "convert_expr s = Ok e"
  shows "\<forall>m. evaluate_expression rx ctx e \<noteq> Err (ExecutionError m)"
  using supported_no_error [OF convert_supported [OF assms]] by (simp add: no_execution_error_def)

text \<open>The meaning of \<^verbatim>\<open>BETWEEN\<close> in terms of two comparisons.\<close>

definition between_reference :: "sp_expr \<Rightarrow> bool \<Rightarrow> sp_expr \<Rightarrow> sp_expr \<Rightarrow> sp_expr" where
  "between_reference e negated low high =
     (let both = SpBinaryOp (SpBinaryOp e SpGtEq low) SpAnd (SpBinaryOp e SpLtEq high)
      in if negated then SpUnaryOp SpUnaryNot both else both)"

lemma evaluate_between:
  "evaluate_expression rx ctx (Between e l h) = Ok v \<longleftrightarrow>
     evaluate_expression rx ctx (BinaryExpr (BinaryExpr e GtEq l) And (BinaryExpr e LtEq h)) = Ok v"
proof -
  define tb where "tb a = (value_to_bool a = Ok True)" for a
  have tb: "value_to_bool a = Ok (tb a)" for a
    by (cases a) (auto simp: tb_def)
  show ?thesis
    by (auto simp: binary_op_def rbind_Ok_iff tb)
qed

text \<open>C25. \<^verbatim>\<open>BETWEEN\<close> and \<^verbatim>\<open>NOT BETWEEN\<close> are equivalent to their definition by two comparisons: whenever one of
  the two converts and evaluates to a value, so does the other, to the same value.\<close>

theorem between_equiv:
  "rbind (convert_expr (SpBetween e negated low high)) (evaluate_expression rx ctx) = Ok v \<longleftrightarrow>
     rbind (convert_expr (between_reference e negated low high)) (evaluate_expression rx ctx) = Ok v"
  by (cases "convert_expr e"; cases "convert_expr low"; cases "convert_expr high"; cases negated)
    (simp_all add: between_reference_def Let_def rbind_Ok_iff evaluate_between del: evaluate_expression.simps(3,7))

end
