(* ===== verification/Engine_Log.thy ===== *)
theory Engine_Log
  imports Engine
begin

text \<open>
  What the operations of the storage engine write to the log.  \<open>engine_step\<close> is one call of a public
  operation of \<^verbatim>\<open>sabi-storage/src/engine.rs\<close>, with any arguments and any outcome; \<open>engine_reachable\<close>
  are the states of an engine that was opened on a page file and a log.
\<close>

inductive engine_step :: "'u ext_lib \<Rightarrow> 'u engine \<Rightarrow> 'u engine \<Rightarrow> bool" for L where
  engine_step_begin: "engine_begin L now ro e = (tx, e') \<Longrightarrow> engine_step L e e'"
| engine_step_commit: "engine_commit L t e = (res, e') \<Longrightarrow> engine_step L e e'"
| engine_step_abort: "engine_abort L t e = (res, e') \<Longrightarrow> engine_step L e e'"
| engine_step_insert: "engine_insert L n k v tx e = Some (res, e') \<Longrightarrow> engine_step L e e'"
| engine_step_delete: "engine_delete L n k tx e = Some (res, e') \<Longrightarrow> engine_step L e e'"

inductive engine_reachable :: "'u ext_lib \<Rightarrow> page_file \<Rightarrow> wal_file \<Rightarrow> 'u engine \<Rightarrow> bool" for L f w where
  engine_reach_open: "engine_new L f w = Ok e \<Longrightarrow> engine_reachable L f w e"
| engine_reach_step: "engine_reachable L f w e \<Longrightarrow> engine_step L e e' \<Longrightarrow> engine_reachable L f w e'"

inductive_cases engine_stepE: "engine_step L e e'"

section \<open>Operations that leave the log alone\<close>

definition keeps_wal :: "(btree, 'a, db_error) op \<Rightarrow> bool" where
  "keeps_wal m \<longleftrightarrow> op_rel (\<lambda>b b'. bt_wal b' = bt_wal b) m"

named_theorems wal_intros "operations of the index that do not write to the log"

lemma keeps_wal_sbind [wal_intros]: "keeps_wal m \<Longrightarrow> (\<And>x. keeps_wal (g x)) \<Longrightarrow> keeps_wal (sbind m g)"
  unfolding keeps_wal_def by (rule op_rel_sbind) (auto intro: transpI)

lemma keeps_wal_lift [wal_intros]: "keeps_wal (lift_result r)"
  by (simp add: keeps_wal_def op_rel_lift reflp_def)

lemma keeps_wal_pages [wal_intros]: "keeps_wal (on_pages m)"
  by (simp add: keeps_wal_def op_rel_def on_pages_def split: prod.splits)

lemma keeps_wal_split_leaf [wal_intros]: "keeps_wal (split_leaf crc p l)"
  unfolding split_leaf_def Let_def by (intro wal_intros)

lemma keeps_wal_split_internal [wal_intros]: "keeps_wal (split_internal crc p n)"
  unfolding split_internal_def Let_def by (intro wal_intros)

lemma keeps_wal_new_root [wal_intros]: "keeps_wal (new_root crc l k r)"
proof -
  have "keeps_wal (\<lambda>b. (Ok (), b\<lparr>bt_root := x\<rparr>))" for x by (simp add: keeps_wal_def op_rel_def)
  then show ?thesis unfolding new_root_def Let_def by (intro wal_intros)
qed

lemma keeps_walD: "keeps_wal m \<Longrightarrow> bt_wal (snd (m b)) = bt_wal b"
  by (simp add: keeps_wal_def op_rel_def)

lemma insert_parent_step_wal: "bt_wal (snd (insert_parent_step crc l k r b)) = bt_wal b"
  unfolding insert_parent_step_def
  by (rule keeps_walD) (auto intro!: wal_intros split: option.splits node.splits simp: Let_def)

lemma insert_into_leaf_wal: "bt_wal (snd (insert_into_leaf crc p k v b)) = bt_wal b"
  unfolding insert_into_leaf_def
  by (rule keeps_walD) (auto intro!: wal_intros split: node.splits simp: Let_def)

lemma insert_into_parent_wal:
  assumes "insert_into_parent crc l k r b = Some y"
  shows "bt_wal (snd y) = bt_wal b"
proof (rule insert_into_parent.raw_induct [where P = "\<lambda>crc l k r b y. bt_wal (snd y) = bt_wal b", OF _ assms])
  fix step crc l k r b y
  assume IH: "\<And>crc l k r b y. step crc l k r b = Some y \<Longrightarrow> bt_wal (snd y) = bt_wal b"
    and body: "(case insert_parent_step crc l k r b of (Ok None, b') \<Rightarrow> Some (Ok (), b')
      | (Ok (Some (left', k', right')), b') \<Rightarrow> step crc left' k' right' b'
      | (Err e, b') \<Rightarrow> Some (Err e, b') | (Panic p, b') \<Rightarrow> Some (Panic p, b')) = Some y"
  obtain res b' where st: "insert_parent_step crc l k r b = (res, b')" by fastforce
  then have w: "bt_wal b' = bt_wal b" using insert_parent_step_wal [of crc l k r b] by simp
  show "bt_wal (snd y) = bt_wal b"
  proof (cases "\<exists>q. res = Ok (Some q)")
    case True
    then obtain l' k' r' where "res = Ok (Some (l', k', r'))" by (metis prod_cases3)
    with body st have "step crc l' k' r' b' = Some y" by simp
    from IH [OF this] w show ?thesis by simp
  next
    case False
    with body st have "snd y = b'" by (cases res) (auto split: option.splits)
    with w show ?thesis by simp
  qed
qed

lemma btree_insert_wal:
  assumes "btree_insert L k v tx b = Some (res, b')"
  shows "bt_wal b' = bt_wal (logged_insert L k v tx b)"
proof -
  let ?b = "logged_insert L k v tx b"
  consider "b' = ?b" | leaf x where "insert_into_leaf (crc32 L) leaf k v ?b = (x, b')"
    | leaf x b'' l s r where "insert_into_leaf (crc32 L) leaf k v ?b = (x, b'')"
        "insert_into_parent (crc32 L) l s r b'' = Some (res, b')"
    using assms by (auto simp: btree_insert_def on_wal_log split: option.splits result.splits prod.splits)
  then show ?thesis
  proof cases
    case (2 leaf x)
    then show ?thesis using insert_into_leaf_wal [of "crc32 L" leaf k v ?b] by simp
  next
    case (3 leaf x b'' l s r)
    then show ?thesis
      using insert_into_leaf_wal [of "crc32 L" leaf k v ?b] insert_into_parent_wal [OF 3(2)] by simp
  qed simp
qed

section \<open>The log of an engine\<close>

definition data_record :: "'u wal_record \<Rightarrow> bool" where
  "data_record r \<longleftrightarrow> (case r of WalPut _ t _ _ \<Rightarrow> t = BTREE_TABLE_ID | WalDelete _ t _ \<Rightarrow> t = BTREE_TABLE_ID | _ \<Rightarrow> False)"

text \<open>One operation appends at most one record of a change, and syncs nothing.\<close>

definition log_extends :: "'u ext_lib \<Rightarrow> wal_file \<Rightarrow> wal_file \<Rightarrow> bool" where
  "log_extends L w w' \<longleftrightarrow> wal_synced w' = wal_synced w \<and>
     (\<exists>rs. list_all data_record rs \<and> wal_log w' = wal_log w @ concat (map (wal_frame L) rs))"

lemma log_extends_refl: "log_extends L w w"
  by (simp add: log_extends_def exI [of _ "[]"])

lemma log_extends_trans:
  assumes "log_extends L w1 w2" and "log_extends L w2 w3"
  shows "log_extends L w1 w3"
proof -
  obtain rs rs' where "list_all data_record rs" "wal_log w2 = wal_log w1 @ concat (map (wal_frame L) rs)"
      "list_all data_record rs'" "wal_log w3 = wal_log w2 @ concat (map (wal_frame L) rs')"
    using assms by (auto simp: log_extends_def)
  then have "list_all data_record (rs @ rs') \<and> wal_log w3 = wal_log w1 @ concat (map (wal_frame L) (rs @ rs'))" by simp
  with assms show ?thesis unfolding log_extends_def by metis
qed

lemma log_extends_one:
  "data_record r \<Longrightarrow> log_extends L w (w\<lparr>wal_log := wal_log w @ wal_frame L r\<rparr>)"
  by (auto simp: log_extends_def intro!: exI [of _ "[r]"])

abbreviation en_wal :: "'u engine \<Rightarrow> wal_file" where
  "en_wal e \<equiv> bt_wal (en_index e)"

definition keeps_log :: "('u engine, 'a, db_error) op \<Rightarrow> bool" where
  "keeps_log m \<longleftrightarrow> op_rel (\<lambda>e e'. en_wal e' = en_wal e) m"

lemma keeps_log_sbind [wal_intros]: "keeps_log m \<Longrightarrow> (\<And>x. keeps_log (g x)) \<Longrightarrow> keeps_log (sbind m g)"
  unfolding keeps_log_def by (rule op_rel_sbind) (auto intro: transpI)

lemma keeps_log_lift [wal_intros]: "keeps_log (lift_result r)"
  by (simp add: keeps_log_def op_rel_lift reflp_def)

lemma keeps_log_data [wal_intros]: "keeps_log (on_data m)"
  by (simp add: keeps_log_def op_rel_def on_data_def split: prod.splits)

lemma keeps_log_tx [wal_intros]: "keeps_log (on_tx m)"
  by (simp add: keeps_log_def op_rel_def on_tx_def split: prod.splits)

lemma keeps_log_tables: "(\<And>e. keeps_log (m e)) \<Longrightarrow> keeps_log (\<lambda>e. m e (e\<lparr>en_tables := T e\<rparr>))"
  by (simp add: keeps_log_def op_rel_def)

lemma keeps_log_flush [wal_intros]: "keeps_log (on_index (on_wal wal_flush))"
  by (simp add: keeps_log_def op_rel_def on_index_def on_wal_def wal_flush_def)

lemma keeps_logD: "keeps_log m \<Longrightarrow> m e = (r, e') \<Longrightarrow> en_wal e' = en_wal e"
  unfolding keeps_log_def by (drule op_relD)

lemma keeps_log_store_row: "keeps_log (engine_store_row L n k v tx)"
  unfolding engine_store_row_def Let_def
  by (rule keeps_log_sbind [OF keeps_log_data], rule keeps_log_tables, intro wal_intros)

lemma engine_insert_log:
  assumes "engine_insert L n k v tx e = Some (res, e')"
  shows "log_extends L (en_wal e) (en_wal e')"
proof -
  obtain x e1 where st: "engine_store_row L n k v tx e = (x, e1)" by fastforce
  have w: "en_wal e1 = en_wal e" by (rule keeps_logD [OF keeps_log_store_row st])
  show ?thesis
  proof (cases x)
    case (Ok pid)
    let ?k = "create_composite_key n k"
    obtain b where b: "btree_insert L ?k pid (t_tx_id tx) (en_index e1) = Some (res, b)" "e' = e1\<lparr>en_index := b\<rparr>"
      using assms st Ok by (auto simp: engine_insert_def)
    then show ?thesis
      using btree_insert_wal [OF b(1)] w log_extends_one [of "WalPut (t_tx_id tx) BTREE_TABLE_ID ?k (le64 pid)" L]
      by (simp add: logged_insert_def data_record_def)
  qed (use assms st w log_extends_refl in \<open>auto simp: engine_insert_def\<close>)
qed

lemma log_delete_extends:
  "on_index (on_wal (log_btree_delete L k t)) e = (res, e') \<Longrightarrow> log_extends L (en_wal e) (en_wal e')"
  using log_extends_one [of "WalDelete t BTREE_TABLE_ID k" L "en_wal e"]
  by (auto simp: on_index_def on_wal_def log_btree_delete_def wal_append_def is_commit_def data_record_def Let_def)

definition extends_log :: "'u ext_lib \<Rightarrow> ('u engine, 'a, db_error) op \<Rightarrow> bool" where
  "extends_log L m \<longleftrightarrow> (\<forall>e. log_extends L (en_wal e) (en_wal (snd (m e))))"

lemma extends_log_sbind: "keeps_log m \<Longrightarrow> (\<And>x. extends_log L (g x)) \<Longrightarrow> extends_log L (sbind m g)"
  unfolding extends_log_def keeps_log_def op_rel_def
  by (auto simp: sbind_def log_extends_refl split: prod.splits result.splits) (metis log_extends_refl snd_conv)+

lemma extends_logD: "extends_log L m \<Longrightarrow> log_extends L (en_wal e) (en_wal (snd (m e)))"
  by (simp add: extends_log_def)

lemma engine_delete_log:
  assumes "engine_delete L n k tx e = Some (res, e')"
  shows "log_extends L (en_wal e) (en_wal e')"
proof -
  have "extends_log L (on_index (on_wal (log_btree_delete L k (t_tx_id tx))))"
    unfolding extends_log_def by (metis log_delete_extends prod.collapse)
  note ext = this extends_log_sbind [OF keeps_log_lift] extends_log_sbind [OF keeps_log_data]
  have "log_extends L (en_wal e) (en_wal (snd (engine_delete_row L k tx found e)))" for found
    unfolding engine_delete_row_def Let_def by (rule extends_logD) (intro ext)
  then show ?thesis using assms by (auto simp: engine_delete_def) (metis snd_conv)
qed

lemma engine_commit_log: "keeps_log (engine_commit L t)"
  unfolding engine_commit_def by (intro wal_intros)

lemma engine_step_log:
  assumes "engine_step L e e'"
  shows "log_extends L (en_wal e) (en_wal e')"
  using assms
proof cases
  case (engine_step_begin now ro tx)
  then show ?thesis using log_extends_refl [of L "en_wal e"] by (auto simp: engine_begin_def split: prod.splits)
next
  case (engine_step_commit t res)
  from keeps_logD [OF engine_commit_log this] show ?thesis by (simp add: log_extends_refl)
next
  case (engine_step_abort t res)
  from keeps_logD [OF keeps_log_tx this [unfolded engine_abort_def]] show ?thesis by (simp add: log_extends_refl)
next
  case (engine_step_insert n k v tx res)
  then show ?thesis by (rule engine_insert_log)
next
  case (engine_step_delete n k tx res)
  then show ?thesis by (rule engine_delete_log)
qed

lemma engine_reachable_log: "engine_reachable L f w e \<Longrightarrow> log_extends L w (en_wal e)"
proof (induction rule: engine_reachable.induct)
  case (engine_reach_open e)
  then have "en_wal e = w"
    by (auto simp: engine_new_def btree_new_def rbind_Ok_iff split: prod.splits result.splits)
  then show ?case by (simp add: log_extends_refl)
next
  case (engine_reach_step e e')
  then show ?case by (blast intro: log_extends_trans engine_step_log)
qed

section \<open>What recovery can find\<close>

lemma fold_replay_records:
  "list_all data_record rs \<Longrightarrow> rs_committed (fold replay_step rs st) = rs_committed st"
  by (induction rs arbitrary: st) (auto simp: data_record_def replay_step_def Let_def split: wal_record.splits)

lemma log_extends_not_durable:
  assumes "log_extends L w w'"
  shows "\<exists>rs. wal_log w' = wal_log w @ concat (map (wal_frame L) rs) \<and> wal_synced w' = wal_synced w \<and>
     filter (replay_keep (rs_committed (fold replay_step rs replay_init))) rs = []"
proof -
  obtain rs where rs: "list_all data_record rs" "wal_log w' = wal_log w @ concat (map (wal_frame L) rs)"
      "wal_synced w' = wal_synced w"
    using assms by (auto simp: log_extends_def)
  have "rs_committed (fold replay_step rs replay_init) = {}"
    using fold_replay_records [OF rs(1)] by (simp add: replay_init_def)
  moreover have "\<not> replay_keep {} r" for r :: "'a wal_record" by (cases r) (simp_all add: replay_keep_def)
  ultimately show ?thesis using rs by auto
qed

text \<open>The log of an engine never makes a transaction durable.  In every reachable state the engine
  has appended only records of single changes: no begin, commit or abort record, whatever was
  committed.  The synced part of the log has not grown since the log was opened, and the filter of
  the replay, which keeps the records of committed transactions, would drop all of them.\<close>

lemma engine_log_not_durable:
  assumes "engine_reachable L f w e"
  shows "\<exists>rs. wal_log (bt_wal (en_index e)) = wal_log w @ concat (map (wal_frame L) rs) \<and>
     wal_synced (bt_wal (en_index e)) = wal_synced w \<and>
     filter (replay_keep (rs_committed (fold replay_step rs replay_init))) rs = []"
  by (rule log_extends_not_durable [OF engine_reachable_log [OF assms]])

end
