(* ===== verification/Sql_Shell.thy ===== *)
theory Sql_Shell
  imports Sql_Session Sql_Parser Engine_Log
begin

text \<open>
  The command-line program \<^verbatim>\<open>sabi-sql/src/bin/sabi-cli.rs\<close>: every line is parsed, planned and executed,
  and its result printed.  \<open>clock\<close> yields the identifiers of \<^verbatim>\<open>Uuid::now_v7\<close>, one for each executed
  statement.  The input is the sequence of outcomes of \<^verbatim>\<open>readline\<close>, the output the list of printed
  lines, without the debugging output of \<^verbatim>\<open>print!\<close>.  The history of the line editor is kept by the crate
  \<^verbatim>\<open>rustyline\<close>, a parameter (\<open>editor_lib\<close>).  The loop is written for any executor: \<open>exec\<close> is its method
  \<^verbatim>\<open>execute\<close>, and \<open>shell_main\<close> runs it with the executor of the program.
\<close>

section \<open>Texts\<close>

fun join :: "string \<Rightarrow> string list \<Rightarrow> string" where
  "join sep [] = []"
| "join sep [x] = x"
| "join sep (x # y # xs) = x @ sep @ join sep (y # xs)"

fun show_result :: "'u ext_lib \<Rightarrow> 'u query_result \<Rightarrow> string list" where
  "show_result L ResCreateTable = [''Table created'']"
| "show_result L (ResInsert n) = [''Inserted '' @ show_nat n @ '' row(s)'']"
| "show_result L (ResSelect columns rows) =
     [join '' | '' columns, replicate (length (join '' | '' columns)) CHR ''-''] @
     map (\<lambda>row. join '' | '' (map show_value row)) rows @
     [show_nat (length rows) @ '' row(s) returned'']"
| "show_result L (ResDelete n) = [''Deleted '' @ show_nat n @ '' row(s)'']"
| "show_result L (ResBeginTransaction t) = [''Transaction started: '' @ show_tx L t]"
| "show_result L ResCommit = [''Transaction committed'']"
| "show_result L ResRollback = [''Transaction rolled back'']"

definition help_lines :: "string list" where
  "help_lines =
     [''SabiDB Commands:'',
      ''  CREATE TABLE name (col1 TYPE, col2 TYPE, ...)'',
      ''  INSERT INTO table (col1, col2) VALUES (val1, val2), ...'',
      ''  SELECT col1, col2 FROM table WHERE condition'',
      ''  DELETE FROM table WHERE condition'',
      ''  BEGIN TRANSACTION'',
      ''  COMMIT'',
      ''  ROLLBACK'',
      ''  exit, quit - Exit the program'',
      ''  help - Show this help'',
      [],
      ''Examples:'',
      ''  CREATE TABLE users (id INTEGER, name TEXT, active BOOLEAN)'',
      ''  INSERT INTO users VALUES (1, '' @ quoted ''Alice'' @ '', true)'',
      ''  SELECT * FROM users WHERE id > 0'']"

text \<open>\<^verbatim>\<open>str::trim\<close> on UTF-8 bytes: the encodings of the characters with the property White_Space.\<close>

definition white_space :: "string list" where
  "white_space = map bytes_string
     ([[9], [10], [11], [12], [13], [32], [0xC2, 0x85], [0xC2, 0xA0], [0xE1, 0x9A, 0x80]] @
      map (\<lambda>b. [0xE2, 0x80, b]) [0x80, 0x81, 0x82, 0x83, 0x84, 0x85, 0x86, 0x87, 0x88, 0x89, 0x8A, 0xA8, 0xA9, 0xAF] @
      [[0xE2, 0x81, 0x9F], [0xE3, 0x80, 0x80]])"

definition strip_prefix :: "string list \<Rightarrow> string \<Rightarrow> string option" where
  "strip_prefix ws s =
     (case find (\<lambda>w. w \<noteq> [] \<and> take (length w) s = w) ws of None \<Rightarrow> None | Some w \<Rightarrow> Some (drop (length w) s))"

lemma strip_prefix_length: "strip_prefix ws s = Some t \<Longrightarrow> length t < length s"
  by (cases s) (auto simp: strip_prefix_def find_Some_iff split: option.splits)

function trim_start :: "string list \<Rightarrow> string \<Rightarrow> string" where
  "trim_start ws s = (case strip_prefix ws s of None \<Rightarrow> s | Some t \<Rightarrow> trim_start ws t)"
  by pat_completeness auto
termination
  by (relation "measure (\<lambda>(ws, s). length s)") (auto dest: strip_prefix_length)

declare trim_start.simps [simp del]

definition trim :: "string \<Rightarrow> string" where
  "trim s = rev (trim_start (map rev white_space) (rev (trim_start white_space s)))"

text \<open>\<^verbatim>\<open>to_lowercase\<close>, which is compared with ASCII words only; no other character is mapped to one of their
  letters alone.\<close>

definition lower_char :: "char \<Rightarrow> char" where
  "lower_char c = (let n = of_char c :: nat in if 65 \<le> n \<and> n \<le> 90 then char_of (n + 32) else c)"

section \<open>The program\<close>

text \<open>What the program uses of \<^verbatim>\<open>rustyline\<close>: creating the editor, and loading, extending and saving its
  history.  Each call may fail; the text of an error is its display.\<close>

record 'h editor_lib =
  ed_new :: "string + 'h"
  ed_load :: "'h \<Rightarrow> bool \<times> 'h"
  ed_add :: "string \<Rightarrow> 'h \<Rightarrow> string option \<times> 'h"
  ed_save :: "'h \<Rightarrow> string option"

record ('x, 'h) shell =
  sh_planner :: catalog
  sh_executor :: 'x
  sh_clock :: nat
  sh_out :: "string list"
  sh_history :: 'h

type_synonym ('u, 'x) exec = "'u \<Rightarrow> logical_plan \<Rightarrow> ('x, 'u query_result) sql_op"
type_synonym ('x, 'h) shell_op = "('x, 'h) shell \<Rightarrow> ((unit, string) result \<times> ('x, 'h) shell) option"

definition say :: "string list \<Rightarrow> ('x, 'h) shell \<Rightarrow> ('x, 'h) shell" where
  "say ls sh = sh\<lparr>sh_out := sh_out sh @ ls\<rparr>"

definition run_statement :: "'u ext_lib \<Rightarrow> ('u, 'x) exec \<Rightarrow> (nat \<Rightarrow> 'u) \<Rightarrow> statement \<Rightarrow> ('x, 'h) shell_op" where
  "run_statement L exec clock stmt sh =
     (case plan stmt (sh_planner sh) of
        (Err e, c) \<Rightarrow> Some (Err (''Plan error: '' @ show_sql_error e), sh\<lparr>sh_planner := c\<rparr>)
      | (Panic p, c) \<Rightarrow> Some (Panic p, sh\<lparr>sh_planner := c\<rparr>)
      | (Ok p, c) \<Rightarrow>
          (case exec (clock (sh_clock sh)) p (sh_executor sh) of
             None \<Rightarrow> None
           | Some (r, ex) \<Rightarrow>
               let sh = sh\<lparr>sh_planner := c, sh_executor := ex, sh_clock := sh_clock sh + 1\<rparr>
               in (case r of
                     Ok res \<Rightarrow> Some (Ok (), say (show_result L res) sh)
                   | Err e \<Rightarrow> Some (Ok (), say [''Error: '' @ show_sql_error e] sh)
                   | Panic p \<Rightarrow> Some (Panic p, sh))))"

fun run_statements :: "'u ext_lib \<Rightarrow> ('u, 'x) exec \<Rightarrow> (nat \<Rightarrow> 'u) \<Rightarrow> statement list \<Rightarrow> ('x, 'h) shell_op" where
  "run_statements L exec clock [] sh = Some (Ok (), sh)"
| "run_statements L exec clock (stmt # stmts) sh =
     (case run_statement L exec clock stmt sh of
        Some (Ok _, sh) \<Rightarrow> run_statements L exec clock stmts sh
      | r \<Rightarrow> r)"

definition execute_query ::
  "'u ext_lib \<Rightarrow> ('u, 'x) exec \<Rightarrow> sql_parser \<Rightarrow> (nat \<Rightarrow> 'u) \<Rightarrow> string \<Rightarrow> ('x, 'h) shell_op" where
  "execute_query L exec parse_sql clock sql sh =
     (case parse parse_sql sql of
        Err e \<Rightarrow> Some (Err (''Parse error: '' @ show_sql_error e), sh)
      | Panic p \<Rightarrow> Some (Panic p, sh)
      | Ok statements \<Rightarrow> run_statements L exec clock statements sh)"

datatype readline = Line string | Interrupted | Eof | ReadError string

text \<open>The end of \<^verbatim>\<open>main\<close> behind the loop.\<close>

definition leave :: "'h editor_lib \<Rightarrow> ('x, 'h) shell \<Rightarrow> (unit, string) result \<times> ('x, 'h) shell" where
  "leave H sh =
     (case ed_save H (sh_history sh) of
        Some e \<Rightarrow> (Err e, sh)
      | None \<Rightarrow> (Ok (), say [''Goodbye!''] sh))"

text \<open>The loop over the input.  A line that the history rejects and a failed query end the program with
  their error.  When the given input is used up, the program waits for the next line.\<close>

fun main_loop ::
  "'u ext_lib \<Rightarrow> ('u, 'x) exec \<Rightarrow> sql_parser \<Rightarrow> (nat \<Rightarrow> 'u) \<Rightarrow> 'h editor_lib \<Rightarrow> readline list \<Rightarrow> ('x, 'h) shell_op" where
  "main_loop L exec parse_sql clock H [] sh = Some (Ok (), sh)"
| "main_loop L exec parse_sql clock H (input # inputs) sh =
     (case input of
        Interrupted \<Rightarrow> Some (leave H (say [''CTRL-C''] sh))
      | Eof \<Rightarrow> Some (leave H (say [''CTRL-D''] sh))
      | ReadError debug \<Rightarrow> Some (leave H (say [''Error: '' @ debug] sh))
      | Line line \<Rightarrow>
          (case ed_add H line (sh_history sh) of
             (Some e, h) \<Rightarrow> Some (Err e, sh\<lparr>sh_history := h\<rparr>)
           | (None, h) \<Rightarrow>
               let sh = sh\<lparr>sh_history := h\<rparr>; trimmed = trim line; word = map lower_char trimmed in
               if trimmed = [] then main_loop L exec parse_sql clock H inputs sh
               else if word = ''exit'' \<or> word = ''quit'' then Some (leave H sh)
               else if word = ''help'' then main_loop L exec parse_sql clock H inputs (say help_lines sh)
               else
                 (case execute_query L exec parse_sql clock trimmed sh of
                    Some (Ok _, sh) \<Rightarrow> main_loop L exec parse_sql clock H inputs sh
                  | r \<Rightarrow> r)))"

definition banner :: "string list" where
  "banner =
     [''SabiDB - A Simple MVCC Database'', ''Version 0.1.0'',
      ''Type '' @ quoted ''help'' @ '' for help, '' @ quoted ''exit'' @ '' to quit'', []]"

definition shell_new :: "'x \<Rightarrow> 'h \<Rightarrow> ('x, 'h) shell" where
  "shell_new ex h = \<lparr>sh_planner = catalog_new, sh_executor = ex, sh_clock = 0, sh_out = banner, sh_history = h\<rparr>"

text \<open>\<^verbatim>\<open>main\<close> from the creation of the editor on: its outcome and what was printed.\<close>

definition run_shell ::
  "'u ext_lib \<Rightarrow> ('u, 'x) exec \<Rightarrow> sql_parser \<Rightarrow> (nat \<Rightarrow> 'u) \<Rightarrow> 'h editor_lib \<Rightarrow> readline list \<Rightarrow> 'x
     \<Rightarrow> ((unit, string) result \<times> string list) option" where
  "run_shell L exec parse_sql clock H inputs ex =
     (case ed_new H of
        Inl e \<Rightarrow> Some (Err e, banner)
      | Inr h \<Rightarrow>
          (case ed_load H h of
             (loaded, h) \<Rightarrow>
               let sh = shell_new ex h; sh = (if loaded then sh else say [''No history found, starting fresh''] sh)
               in map_option (\<lambda>(r, sh). (r, sh_out sh)) (main_loop L exec parse_sql clock H inputs sh)))"

text \<open>\<^verbatim>\<open>main\<close>, on the contents of the data file and the log.\<close>

definition shell_main ::
  "'u ext_lib \<Rightarrow> regex \<Rightarrow> sql_parser \<Rightarrow> (nat \<Rightarrow> 'u) \<Rightarrow> 'h editor_lib \<Rightarrow> bytes \<Rightarrow> wal_file \<Rightarrow> readline list
     \<Rightarrow> ((unit, string) result \<times> string list) option" where
  "shell_main L rx parse_sql clock H data log inputs =
     (case engine_new L (page_file_open data) (wal_writer_open log) of
        Err e \<Rightarrow> Some (Err (show_db_error e), banner)
      | Panic p \<Rightarrow> Some (Panic p, banner)
      | Ok e \<Rightarrow> run_shell L (execute L rx) parse_sql clock H inputs (executor_new e catalog_new))"

section \<open>Invariants of the program\<close>

text \<open>What one statement keeps, the whole program keeps.\<close>

definition plain_create :: "statement \<Rightarrow> bool" where
  "plain_create stmt \<longleftrightarrow> (case stmt of StCreateTable c \<Rightarrow> \<not> ct_if_not_exists c | _ \<Rightarrow> True)"

lemma convert_plain_create: "convert_statement s = Ok stmt \<Longrightarrow> plain_create stmt"
  by (cases s) (auto simp: rbind_Ok_iff parse_create_table_def plain_create_def)

lemma parse_plain_create: "parse parse_sql sql = Ok stmts \<Longrightarrow> stmt \<in> set stmts \<Longrightarrow> plain_create stmt"
  by (auto simp: parse_def traverse_Ok_iff list_all2_conv_all_nth in_set_conv_nth
      split: sum.splits dest!: convert_plain_create)

lemma leave_simps: "leave H sh = (r, sh') \<Longrightarrow> sh_planner sh' = sh_planner sh \<and> sh_executor sh' = sh_executor sh"
  by (auto simp: leave_def say_def split: option.splits)

lemma say_simps [simp]: "sh_planner (say ls sh) = sh_planner sh" "sh_executor (say ls sh) = sh_executor sh"
  by (simp_all add: say_def)

lemma run_statement_cases:
  assumes "run_statement L exec clock stmt sh = Some (r, sh')" and "plan stmt (sh_planner sh) = (q, c)"
  shows "sh_planner sh' = c \<and>
     (case q of Ok p \<Rightarrow> \<exists>res. exec (clock (sh_clock sh)) p (sh_executor sh) = Some (res, sh_executor sh')
      | _ \<Rightarrow> sh_executor sh' = sh_executor sh)"
  using assms
  by (cases q) (auto simp: run_statement_def Let_def split: option.splits prod.splits result.splits)

locale shell_invariant =
  fixes L :: "'u ext_lib" and exec :: "('u, 'x) exec" and clock :: "nat \<Rightarrow> 'u" and P :: "catalog \<Rightarrow> 'x \<Rightarrow> bool"
  assumes statement_keeps: "plan stmt c = (q, c') \<Longrightarrow> P c ex \<Longrightarrow> plain_create stmt \<Longrightarrow>
    (case q of Ok p \<Rightarrow> \<exists>res. exec now p ex = Some (res, ex') | _ \<Rightarrow> ex' = ex) \<Longrightarrow> P c' ex'"
begin

abbreviation holds :: "('x, 'h) shell \<Rightarrow> bool" where
  "holds sh \<equiv> P (sh_planner sh) (sh_executor sh)"

lemma statement_keeps_holds:
  assumes "holds sh" and "plain_create stmt" and "run_statement L exec clock stmt sh = Some (r, sh')"
  shows "holds sh'"
proof -
  obtain q c where pl: "plan stmt (sh_planner sh) = (q, c)" by fastforce
  note st = run_statement_cases [OF assms(3) pl]
  show ?thesis using statement_keeps [OF pl assms(1,2) conjunct2 [OF st]] st by simp
qed

lemma statements_keep:
  "holds sh \<Longrightarrow> \<forall>stmt \<in> set stmts. plain_create stmt \<Longrightarrow>
     run_statements L exec clock stmts sh = Some (r, sh') \<Longrightarrow> holds sh'"
proof (induction stmts arbitrary: sh)
  case (Cons stmt stmts)
  obtain q sh1 where q: "run_statement L exec clock stmt sh = Some (q, sh1)"
    using Cons.prems(3) by (auto split: option.splits)
  have "holds sh1" by (rule statement_keeps_holds [OF Cons.prems(1) _ q]) (use Cons.prems(2) in simp)
  with Cons.prems q Cons.IH [of sh1] show ?case by (cases q) auto
qed simp

lemma query_keeps:
  assumes "holds sh" and "execute_query L exec parse_sql clock sql sh = Some (r, sh')"
  shows "holds sh'"
proof (cases "parse parse_sql sql")
  case (Ok stmts)
  with parse_plain_create have "\<forall>stmt \<in> set stmts. plain_create stmt" by blast
  from statements_keep [OF assms(1) this] assms(2) Ok show ?thesis by (simp add: execute_query_def)
qed (use assms in \<open>simp_all add: execute_query_def\<close>)

lemma main_loop_keeps:
  "holds sh \<Longrightarrow> main_loop L exec parse_sql clock H inputs sh = Some (r, sh') \<Longrightarrow> holds sh'"
proof (induction inputs arbitrary: sh)
  case (Cons input inputs)
  show ?case
  proof (cases input)
    case (Line line)
    obtain x h where add: "ed_add H line (sh_history sh) = (x, h)" by fastforce
    let ?sh = "sh\<lparr>sh_history := h\<rparr>"
    let ?q = "execute_query L exec parse_sql clock (trim line) ?sh"
    have hold: "holds ?sh" "holds (say help_lines ?sh)" using Cons.prems(1) by simp_all
    consider "sh' = ?sh" | "main_loop L exec parse_sql clock H inputs ?sh = Some (r, sh')"
      | "main_loop L exec parse_sql clock H inputs (say help_lines ?sh) = Some (r, sh')"
      | "leave H ?sh = (r, sh')" | "?q = Some (r, sh')"
      | q sh1 where "?q = Some (q, sh1)" "main_loop L exec parse_sql clock H inputs sh1 = Some (r, sh')"
      using Cons.prems(2) Line add by (auto simp: Let_def split: if_splits option.splits prod.splits result.splits)
    then show ?thesis
    proof cases
      case 2
      from Cons.IH [OF hold(1) this] show ?thesis .
    next
      case 3
      from Cons.IH [OF hold(2) this] show ?thesis .
    next
      case 5
      from query_keeps [OF hold(1) this] show ?thesis .
    next
      case (6 q sh1)
      from Cons.IH [OF query_keeps [OF hold(1) 6(1)] 6(2)] show ?thesis .
    qed (use hold in \<open>auto dest: leave_simps\<close>)
  qed (use Cons.prems in \<open>auto dest: leave_simps\<close>)
qed simp

end

section \<open>Catalogs\<close>

text \<open>Data statements keep the catalog of the executor and lose no table in memory.\<close>

definition grows_tables :: "'u engine \<Rightarrow> 'u engine \<Rightarrow> bool" where
  "grows_tables e e' \<longleftrightarrow> dom (en_tables e) \<subseteq> dom (en_tables e')"

lemma grows_tables_order: "reflp grows_tables" "transp grows_tables"
  by (auto simp: reflp_def transp_def grows_tables_def)

lemmas grows_intros = op_rel_lift [OF grows_tables_order(1)] op_rel_sbind [OF grows_tables_order(2)]

lemma grows_data: "op_rel grows_tables (on_data m)"
  by (simp add: op_rel_def grows_tables_def on_data_def split: prod.splits)

lemma grows_index: "op_rel grows_tables (on_index m)"
  by (simp add: op_rel_def grows_tables_def on_index_def split: prod.splits)

lemma grows_tx: "op_rel grows_tables (on_tx m)"
  by (simp add: op_rel_def grows_tables_def on_tx_def split: prod.splits)

lemma grows_put:
  assumes "\<And>e. op_rel grows_tables (m e)"
  shows "op_rel grows_tables (\<lambda>e. m e (e\<lparr>en_tables := (en_tables e)(n \<mapsto> t e)\<rparr>))"
  unfolding op_rel_def
proof
  fix e
  have "grows_tables e (e\<lparr>en_tables := (en_tables e)(n \<mapsto> t e)\<rparr>)" by (auto simp: grows_tables_def)
  from transpD [OF grows_tables_order(2) this op_rel_snd [OF assms]]
  show "grows_tables e (snd (m e (e\<lparr>en_tables := (en_tables e)(n \<mapsto> t e)\<rparr>)))" .
qed

lemma store_row_grows: "op_rel grows_tables (engine_store_row L n k v tx)"
  unfolding engine_store_row_def Let_def
  by (rule grows_intros(2) [OF grows_data], rule grows_put, intro grows_intros grows_data)

lemma engine_insert_grows:
  assumes "engine_insert L n k v tx e = Some (r, e')"
  shows "grows_tables e e'"
proof -
  obtain x e1 where st: "engine_store_row L n k v tx e = (x, e1)" by fastforce
  have "grows_tables e e1" by (rule op_relD [OF store_row_grows st])
  with assms st show ?thesis by (cases x) (auto simp: engine_insert_def grows_tables_def)
qed

lemma engine_delete_grows:
  assumes "engine_delete L n k tx e = Some (r, e')"
  shows "grows_tables e e'"
proof -
  have "grows_tables e (snd (engine_delete_row L k tx found e))" for found
    unfolding engine_delete_row_def Let_def
    by (rule op_rel_snd) (intro grows_intros grows_data grows_index)
  then show ?thesis using assms by (auto simp: engine_delete_def) (metis snd_conv)
qed

lemma commit_grows: "op_rel grows_tables (engine_commit L t)"
  unfolding engine_commit_def by (intro grows_intros grows_tx grows_index)

lemma abort_grows: "op_rel grows_tables (engine_abort L t)"
  unfolding engine_abort_def by (rule grows_tx)

lemmas engine_commit_grows = op_relD [OF commit_grows]
lemmas engine_abort_grows = op_relD [OF abort_grows]

lemma engine_begin_grows: "engine_begin L now ro e = (tx, e') \<Longrightarrow> grows_tables e e'"
  by (auto simp: engine_begin_def grows_tables_def split: prod.splits)

definition catalog_frame :: "'u executor \<Rightarrow> 'u executor \<Rightarrow> bool" where
  "catalog_frame ex ex' \<longleftrightarrow>
     ex_catalog ex' = ex_catalog ex \<and> grows_tables (ex_storage ex) (ex_storage ex')"

interpretation catalogs: executor_frame L catalog_frame for L
  by unfold_locales
    (auto simp: catalog_frame_def reflpD [OF grows_tables_order(1)] dest: engine_insert_grows engine_delete_grows
      engine_commit_grows engine_begin_grows transpD [OF grows_tables_order(2)])

lemma catalog_commit: "catalogs.framed (execute_commit L)"
  unfolding execute_commit_def
  by (intro catalogs.framed_obind catalogs.framed_storage)
    (auto intro!: catalogs.framedI simp: take_transaction_def catalog_frame_def reflpD [OF grows_tables_order(1)]
      dest: engine_commit_grows)

lemma catalog_rollback: "catalogs.framed (execute_rollback L)"
  unfolding execute_rollback_def
  by (intro catalogs.framed_obind catalogs.framed_storage)
    (auto intro!: catalogs.framedI simp: take_transaction_def catalog_frame_def reflpD [OF grows_tables_order(1)]
      dest: engine_abort_grows)

lemma catalog_begin: "catalogs.framed (execute_begin L now)"
  by (rule catalogs.framedI)
    (auto simp: execute_begin_def catalog_frame_def reflpD [OF grows_tables_order(1)] dest: engine_begin_grows
      split: if_splits prod.splits)

fun creates_table :: "logical_plan \<Rightarrow> bool" where
  "creates_table (CreateTable schema b) = True"
| "creates_table (Filter p e) = creates_table p"
| "creates_table (Limit p n k) = creates_table p"
| "creates_table _ = False"

lemma execute_catalog:
  "\<not> creates_table p \<Longrightarrow> catalogs.framed (execute L rx now p)"
  by (induction p)
    (simp_all add: catalogs.framed_obind catalogs.framed_olift catalogs.framed_execute_insert
      catalogs.framed_execute_scan catalogs.framed_execute_delete catalog_begin catalog_commit catalog_rollback)

text \<open>The invariant of the program: planner and executor have the same catalog, every table is registered under its
  own name with the key columns it was declared with, and exists in the engine; the session is consistent.\<close>

definition registered :: "'u engine \<Rightarrow> string \<Rightarrow> table_schema \<Rightarrow> bool" where
  "registered e n s \<longleftrightarrow>
     ts_name s = n \<and> ts_primary_key s = Some (map cd_name (filter cd_primary_key (ts_columns s))) \<and>
     n \<in> dom (en_tables e)"

definition consistent :: "catalog \<Rightarrow> 'u executor \<Rightarrow> bool" where
  "consistent c ex \<longleftrightarrow>
     c = ex_catalog ex \<and> session_inv ex \<and> (\<forall>n s. c n = Some s \<longrightarrow> registered (ex_storage ex) n s)"

lemma registered_grows: "registered e n s \<Longrightarrow> grows_tables e e' \<Longrightarrow> registered e' n s"
  unfolding registered_def grows_tables_def by blast

lemma consistent_frame:
  "consistent c ex \<Longrightarrow> catalog_frame ex ex' \<Longrightarrow> session_inv ex' \<Longrightarrow> consistent c ex'"
  unfolding consistent_def catalog_frame_def using registered_grows by metis

lemma execute_create_plain:
  "execute_create_table schema False ex = Some (Ok ResCreateTable,
     ex\<lparr>ex_storage := (ex_storage ex)\<lparr>en_tables := (en_tables (ex_storage ex))(ts_name schema \<mapsto> mvcc_new)\<rparr>,
        ex_catalog := add_table schema (ex_catalog ex)\<rparr>)"
  by (simp add: execute_create_table_def Let_def)

lemma consistent_create:
  assumes "consistent c ex" and "execute_create_table (create_schema create) False ex = Some (r, ex')" and "session_inv ex'"
  shows "consistent (add_table (create_schema create) c) ex'"
proof -
  let ?s = "create_schema create" and ?e = "ex_storage ex"
  let ?e' = "?e\<lparr>en_tables := (en_tables ?e)(ts_name ?s \<mapsto> mvcc_new)\<rparr>"
  have ex': "ex_storage ex' = ?e'" "ex_catalog ex' = add_table ?s (ex_catalog ex)"
    using assms(2) by (auto simp: execute_create_plain)
  have "grows_tables ?e ?e'" by (auto simp: grows_tables_def)
  then have "registered ?e' n s" if "c n = Some s" for n s
    using assms(1) that registered_grows by (metis consistent_def)
  moreover have "registered ?e' (ts_name ?s) ?s" by (simp add: registered_def create_schema_def)
  ultimately show ?thesis using assms(1,3) ex' by (auto simp: consistent_def add_table_def)
qed

lemma plan_catalog:
  assumes "plan stmt c = (r, c')"
  shows "(c' = c \<and> (\<forall>p. r = Ok p \<longrightarrow> \<not> creates_table p)) \<or>
     (\<exists>create. stmt = StCreateTable create \<and> c' = add_table (create_schema create) c \<and>
        r = Ok (CreateTable (create_schema create) (ct_if_not_exists create)))"
  using assms
  by (cases stmt) (auto simp: plan_create_table_def plan_insert_def plan_select_def plan_delete_def rbind_Ok_iff Let_def
      split: if_splits table_ref.splits option.splits)

lemma statement_consistent:
  assumes pl: "plan stmt c = (q, c')" and inv: "consistent c ex" and plain: "plain_create stmt"
    and run: "case q of Ok p \<Rightarrow> \<exists>res. execute L rx now p ex = Some (res, ex') | _ \<Rightarrow> ex' = ex"
  shows "consistent c' ex'"
proof -
  note cat = plan_catalog [OF pl]
  show ?thesis
  proof (cases q)
    case (Ok p)
    then obtain res where ex: "execute L rx now p ex = Some (res, ex')" using run by auto
    have s: "session_inv ex'" using execute_keeps_inv [OF ex] inv by (simp add: consistent_def)
    from cat show ?thesis
    proof (elim disjE conjE exE)
      assume c: "c' = c" and "\<forall>p. q = Ok p \<longrightarrow> \<not> creates_table p"
      then have "catalog_frame ex ex'" using Ok catalogs.framedD [OF execute_catalog ex] by simp
      from consistent_frame [OF inv this s] c show ?thesis by simp
    next
      fix create
      assume "stmt = StCreateTable create" and c: "c' = add_table (create_schema create) c"
        and "q = Ok (CreateTable (create_schema create) (ct_if_not_exists create))"
      with Ok ex plain have "execute_create_table (create_schema create) False ex = Some (res, ex')"
        by (auto simp: plain_create_def)
      from consistent_create [OF inv this s] c show ?thesis by simp
    qed
  qed (use run cat inv in auto)
qed

interpretation shell: shell_invariant L "execute L rx" clock consistent for L rx clock
  by unfold_locales (rule statement_consistent)

lemma shell_new_inv: "consistent (sh_planner (shell_new (executor_new e catalog_new) h))
    (sh_executor (shell_new (executor_new e catalog_new) h))"
  by (simp add: shell_new_def consistent_def executor_new_def session_inv_def catalog_new_def)

text \<open>C20. Whatever is typed into the program, and whatever fails, the catalogs of planner and executor stay equal,
  every table in them is registered under its own name with its declared key columns and exists in the engine, and
  an open transaction is active.\<close>

theorem shell_consistent:
  assumes "main_loop L (execute L rx) parse_sql clock H inputs (shell_new (executor_new e catalog_new) h) = Some (r, sh)"
  shows "sh_planner sh = ex_catalog (sh_executor sh) \<and> session_inv (sh_executor sh) \<and>
     (\<forall>n s. sh_planner sh n = Some s \<longrightarrow> registered (ex_storage (sh_executor sh)) n s)"
  using shell.main_loop_keeps [OF shell_new_inv assms] by (simp add: consistent_def)

definition sample_create :: sp_statement where
  "sample_create = SpCreateTable [SpIdent ''t'']
     [\<lparr>spc_name = ''id'', spc_data_type = SpInt, spc_options = [SpPrimaryKey]\<rparr>]"

lemma trim_sample: "trim ''c'' = ''c''"
  by (simp add: trim_def trim_start.simps strip_prefix_def white_space_def bytes_string_def char_of_def)

text \<open>A history that keeps every line.\<close>

definition sample_editor :: "string list editor_lib" where
  "sample_editor = \<lparr>ed_new = Inr [], ed_load = (\<lambda>h. (False, h)), ed_add = (\<lambda>line h. (None, h @ [line])), ed_save = (\<lambda>h. None)\<rparr>"

lemma sample_shell_run:
  "\<exists>sh. main_loop sample_lib (execute sample_lib (\<lambda>p. Inl p)) (\<lambda>s. Inr [sample_create]) of_nat sample_editor [Line ''c'']
       (shell_new (executor_new e catalog_new) []) = Some (Ok (), sh) \<and> sh_planner sh ''t'' \<noteq> None"
  by (simp add: trim_sample lower_char_def Let_def execute_query_def parse_def sample_create_def parse_create_table_def
      object_name_to_string_def convert_column_def run_statement_def plan_create_table_def shell_new_def catalog_new_def
      table_exists_def execute_create_table_def add_table_def create_schema_def sample_editor_def)

theorem shell_consistent_witness:
  "\<exists>(sh :: (128 word executor, string list) shell) s. sh_planner sh ''t'' = Some s \<and> registered (ex_storage (sh_executor sh)) ''t'' s"
proof -
  obtain e :: "128 word engine" where "engine_holds sample_lib e (BLeaf 1 [])" using sample_engine by blast
  obtain sh where sh: "main_loop sample_lib (execute sample_lib (\<lambda>p. Inl p)) (\<lambda>s. Inr [sample_create]) of_nat sample_editor
      [Line ''c''] (shell_new (executor_new e catalog_new) []) = Some (Ok (), sh)" "sh_planner sh ''t'' \<noteq> None"
    using sample_shell_run by blast
  then obtain s where "sh_planner sh ''t'' = Some s" by blast
  with shell_consistent [OF sh(1)] show ?thesis by blast
qed

section \<open>The log\<close>

text \<open>Every statement appends only records of single changes to the log and syncs nothing.\<close>

definition log_frame :: "'u ext_lib \<Rightarrow> 'u executor \<Rightarrow> 'u executor \<Rightarrow> bool" where
  "log_frame L ex ex' \<longleftrightarrow> log_extends L (en_wal (ex_storage ex)) (en_wal (ex_storage ex'))"

interpretation logs: executor_frame L "log_frame L" for L
proof unfold_locales
  fix ex1 ex2 ex3 :: "'a executor"
  show "log_frame L ex1 ex2 \<Longrightarrow> log_frame L ex2 ex3 \<Longrightarrow> log_frame L ex1 ex3"
    unfolding log_frame_def by (rule log_extends_trans)
qed (auto simp: log_frame_def log_extends_refl intro!: engine_step_log intro: engine_step.intros)

lemma log_create: "logs.framed L (execute_create_table schema b)"
  by (rule logs.framedI) (auto simp: execute_create_table_def log_frame_def log_extends_refl Let_def split: if_splits)

lemma log_begin: "logs.framed L (execute_begin L now)"
  by (rule logs.framedI)
    (auto simp: execute_begin_def log_frame_def log_extends_refl intro!: engine_step_log
      intro: engine_step.intros split: if_splits prod.splits)

lemma log_take: "logs.framed L (take_transaction msg)"
  by (rule logs.framedI) (auto simp: take_transaction_def log_frame_def log_extends_refl)

lemma log_commit: "logs.framed L (execute_commit L)"
  unfolding execute_commit_def
  by (intro logs.framed_obind logs.framed_storage log_take)
    (auto intro!: logs.framedI engine_step_log intro: engine_step.intros simp: log_frame_def log_extends_refl)

lemma log_rollback: "logs.framed L (execute_rollback L)"
  unfolding execute_rollback_def
  by (intro logs.framed_obind logs.framed_storage log_take)
    (auto intro!: logs.framedI engine_step_log intro: engine_step.intros simp: log_frame_def log_extends_refl)

lemma execute_log: "execute L rx now p ex = Some (r, ex') \<Longrightarrow> log_frame L ex ex'"
  by (rule logs.framedD [OF logs.framed_execute [OF log_create log_begin log_commit log_rollback]])

definition log_from :: "'u ext_lib \<Rightarrow> wal_file \<Rightarrow> catalog \<Rightarrow> 'u executor \<Rightarrow> bool" where
  "log_from L w c ex \<longleftrightarrow> log_extends L w (en_wal (ex_storage ex))"

interpretation shell_log: shell_invariant L "execute L rx" clock "log_from L w" for L rx clock w
proof unfold_locales
  fix stmt c q c' ex now ex'
  assume P: "log_from L w c ex" and run: "case q of Ok p \<Rightarrow> \<exists>res. execute L rx now p ex = Some (res, ex') | _ \<Rightarrow> ex' = ex"
  show "log_from L w c' ex'"
  proof (cases q)
    case (Ok p)
    then obtain res where "execute L rx now p ex = Some (res, ex')" using run by auto
    from execute_log [OF this] P log_extends_trans show ?thesis unfolding log_frame_def log_from_def by blast
  qed (use run P in \<open>simp_all add: log_from_def\<close>)
qed

text \<open>C19. No SQL statement is ever durable.  After any input to the program, started on a freshly opened engine, the log
  has grown only by records of single changes, nothing of it has been synced, and recovery would drop all of it,
  whatever was committed.\<close>

theorem shell_not_durable:
  assumes "engine_new L f w = Ok e" and "main_loop L (execute L rx) parse_sql clock H inputs (shell_new (executor_new e catalog_new) h) = Some (r, sh)"
  shows "\<exists>rs. wal_log (bt_wal (en_index (ex_storage (sh_executor sh)))) = wal_log w @ concat (map (wal_frame L) rs) \<and>
     wal_synced (bt_wal (en_index (ex_storage (sh_executor sh)))) = wal_synced w \<and>
     filter (replay_keep (rs_committed (fold replay_step rs replay_init))) rs = []"
proof -
  have "log_extends L w (en_wal e)"
    by (rule engine_reachable_log [OF engine_reach_open [OF assms(1)]])
  then have "log_from L w (sh_planner (shell_new (executor_new e catalog_new) h))
      (sh_executor (shell_new (executor_new e catalog_new) h))"
    by (simp add: log_from_def shell_new_def executor_new_def)
  from shell_log.main_loop_keeps [OF this assms(2)]
  show ?thesis unfolding log_from_def by (rule log_extends_not_durable)
qed

theorem shell_not_durable_witness:
  "\<exists>(sh :: (128 word executor, string list) shell) rs. sh_planner sh ''t'' \<noteq> None \<and>
     wal_log (bt_wal (en_index (ex_storage (sh_executor sh)))) = wal_log sample_log @ concat (map (wal_frame sample_lib) rs) \<and>
     wal_synced (bt_wal (en_index (ex_storage (sh_executor sh)))) = wal_synced sample_log"
proof -
  obtain e where e: "engine_new sample_lib sample_file sample_log = Ok e" using sample_engine by blast
  obtain sh where sh: "main_loop sample_lib (execute sample_lib (\<lambda>p. Inl p)) (\<lambda>s. Inr [sample_create]) of_nat sample_editor
      [Line ''c''] (shell_new (executor_new e catalog_new) []) = Some (Ok (), sh)" "sh_planner sh ''t'' \<noteq> None"
    using sample_shell_run by blast
  with shell_not_durable [OF e sh(1)] show ?thesis by blast
qed

end
