(* ===== verification/Simulation.thy ===== *)
theory Simulation
  imports Main
begin

text \<open>
  Runs of operations, and what it means that a component implements a specification: whatever
  sequence of operations is applied, as long as the specification allows each of them, the component
  returns, and its answers are those of the specification.
\<close>

text \<open>A step of the component may fail to return (\<open>None\<close>); a step of the specification always answers.\<close>

fun run_ops :: "('op \<Rightarrow> 'c \<Rightarrow> ('out \<times> 'c) option) \<Rightarrow> 'op list \<Rightarrow> 'c \<Rightarrow> ('out list \<times> 'c) option" where
  "run_ops step [] c = Some ([], c)"
| "run_ops step (op # ops) c =
     (case step op c of
        None \<Rightarrow> None
      | Some (out, c') \<Rightarrow> map_option (\<lambda>(outs, c''). (out # outs, c'')) (run_ops step ops c'))"

fun run_spec :: "('op \<Rightarrow> 'a \<Rightarrow> 'out \<times> 'a) \<Rightarrow> 'op list \<Rightarrow> 'a \<Rightarrow> 'out list \<times> 'a" where
  "run_spec step [] a = ([], a)"
| "run_spec step (op # ops) a =
     (case step op a of (out, a') \<Rightarrow> case run_spec step ops a' of (outs, a'') \<Rightarrow> (out # outs, a''))"

text \<open>Every operation of a run is allowed in the state it meets.\<close>

fun allowed_run :: "('op \<Rightarrow> 'a \<Rightarrow> bool) \<Rightarrow> ('op \<Rightarrow> 'a \<Rightarrow> 'out \<times> 'a) \<Rightarrow> 'op list \<Rightarrow> 'a \<Rightarrow> bool" where
  "allowed_run ok step [] a \<longleftrightarrow> True"
| "allowed_run ok step (op # ops) a \<longleftrightarrow> ok op a \<and> allowed_run ok step ops (snd (step op a))"

lemma run_spec_append:
  "run_spec step (ops @ ops') a =
     (let (outs, a') = run_spec step ops a; (outs', a'') = run_spec step ops' a' in (outs @ outs', a''))"
  by (induction ops arbitrary: a) (auto simp: Let_def split: prod.splits)

lemma snd_run_spec_Cons: "snd (run_spec step (op # ops) a) = snd (run_spec step ops (snd (step op a)))"
  by (simp split: prod.splits)

lemma allowed_run_append:
  "allowed_run ok step (ops @ ops') a \<longleftrightarrow>
     allowed_run ok step ops a \<and> allowed_run ok step ops' (snd (run_spec step ops a))"
  by (induction ops arbitrary: a) (auto split: prod.splits)

locale simulation =
  fixes cstep :: "'op \<Rightarrow> 'c \<Rightarrow> ('out \<times> 'c) option"
    and astep :: "'op \<Rightarrow> 'a \<Rightarrow> 'out \<times> 'a"
    and rel :: "'c \<Rightarrow> 'a \<Rightarrow> bool"
    and ok :: "'op \<Rightarrow> 'a \<Rightarrow> bool"
  assumes step: "rel c a \<Longrightarrow> ok op a \<Longrightarrow> astep op a = (out, a') \<Longrightarrow>
      \<exists>c'. cstep op c = Some (out, c') \<and> rel c' a'"
begin

lemma run:
  "rel c a \<Longrightarrow> allowed_run ok astep ops a \<Longrightarrow>
   \<exists>c'. run_ops cstep ops c = Some (fst (run_spec astep ops a), c') \<and> rel c' (snd (run_spec astep ops a))"
proof (induction ops arbitrary: c a)
  case Nil
  then show ?case by simp
next
  case (Cons op ops)
  obtain out a' where a': "astep op a = (out, a')" by fastforce
  obtain c' where c': "cstep op c = Some (out, c')" "rel c' a'"
    using step [OF Cons.prems(1) _ a'] Cons.prems(2) by auto
  from Cons.IH [OF c'(2)] Cons.prems(2) a' obtain c'' where
    "run_ops cstep ops c' = Some (fst (run_spec astep ops a'), c'')" "rel c'' (snd (run_spec astep ops a'))"
    by auto
  then show ?case using a' c'(1) by (auto split: prod.splits)
qed

end

end
