(* ===== verification/Engine_Store.thy ===== *)
theory Engine_Store
  imports Engine_Rows Simulation
begin

text \<open>
  What the storage engine of \<^verbatim>\<open>sabi-storage/src/engine.rs\<close> promises as a whole.  The specification
  (\<open>row_store\<close>) has no pages, no tree and no encoding: it is a list of rows ordered by composite key,
  beside the versioned tables in memory and the transaction manager.  The engine implements it for
  every sequence of operations that fits into one leaf of the index.
\<close>

section \<open>The specification\<close>

record 'u row_store =
  st_rows :: "(bytes \<times> 'u version_chain) list"
  st_tables :: "string \<rightharpoonup> 'u mvcc_table"
  st_tx :: "'u tx_manager"

definition store_new :: "'u ext_lib \<Rightarrow> 'u row_store" where
  "store_new L = \<lparr>st_rows = [], st_tables = Map.empty, st_tx = tm_new L\<rparr>"

text \<open>A row enters behind the rows with the same key.\<close>

definition add_row :: "bytes \<Rightarrow> 'v \<Rightarrow> (bytes \<times> 'v) list \<Rightarrow> (bytes \<times> 'v) list" where
  "add_row ck v rows = takeWhile (\<lambda>r. fst r \<le> ck) rows @ (ck, v) # dropWhile (\<lambda>r. fst r \<le> ck) rows"

fun update_first :: "bytes \<Rightarrow> ('v \<Rightarrow> 'v) \<Rightarrow> (bytes \<times> 'v) list \<Rightarrow> (bytes \<times> 'v) list" where
  "update_first ck g [] = []"
| "update_first ck g ((ck', v) # rows) = (if ck' = ck then (ck, g v) # rows else (ck', v) # update_first ck g rows)"

definition store_chain :: "string \<Rightarrow> bytes \<Rightarrow> bytes \<Rightarrow> 'u transaction \<Rightarrow> 'u row_store \<Rightarrow> 'u version_chain" where
  "store_chain n k v tx s = new_chain v tx
     (case st_tables s n of None \<Rightarrow> [] | Some t \<Rightarrow> (case mt_rows t k of None \<Rightarrow> [] | Some vs \<Rightarrow> vs))"

datatype 'u store_op =
    OpBegin 'u bool
  | OpCommit "'u tx_id"
  | OpAbort "'u tx_id"
  | OpCreate string
  | OpInsert string bytes bytes "'u transaction"
  | OpGet string bytes "'u transaction"
  | OpDelete string bytes "'u transaction"
  | OpScan string bytes bytes "'u transaction"

datatype 'u store_out =
    OutTx "'u transaction"
  | OutDone "unit db_result"
  | OutValue "bytes option db_result"
  | OutRows "(bytes \<times> bytes) list db_result"

fun store_step :: "'u ext_lib \<Rightarrow> 'u store_op \<Rightarrow> 'u row_store \<Rightarrow> 'u store_out \<times> 'u row_store" where
  "store_step L (OpBegin now ro) s = (case tm_begin L now ro (st_tx s) of (tx, m) \<Rightarrow> (OutTx tx, s\<lparr>st_tx := m\<rparr>))"
| "store_step L (OpCommit t) s = (case tm_commit L t (st_tx s) of (r, m) \<Rightarrow> (OutDone r, s\<lparr>st_tx := m\<rparr>))"
| "store_step L (OpAbort t) s = (case tm_abort L t (st_tx s) of (r, m) \<Rightarrow> (OutDone r, s\<lparr>st_tx := m\<rparr>))"
| "store_step L (OpCreate n) s = (OutDone (Ok ()), s\<lparr>st_tables := (st_tables s)(n \<mapsto> mvcc_new)\<rparr>)"
| "store_step L (OpInsert n k v tx) s =
     (OutDone (Ok ()),
      s\<lparr>st_rows := add_row (create_composite_key n k) (store_chain n k v tx s) (st_rows s),
        st_tables := (st_tables s)(n \<mapsto>
          mvcc_insert k v tx (case st_tables s n of None \<Rightarrow> mvcc_new | Some t \<Rightarrow> t))\<rparr>)"
| "store_step L (OpGet n k tx) s =
     (OutValue (Ok (case map_of (st_rows s) (create_composite_key n k) of
        None \<Rightarrow> None | Some vs \<Rightarrow> visible_value L vs tx)), s)"
| "store_step L (OpDelete n k tx) s =
     (case map_of (st_rows s) (create_composite_key n k) of
        None \<Rightarrow> (OutDone (Err (NotFound ''Key not found'')), s)
      | Some vs \<Rightarrow> (OutDone (Ok ()),
          s\<lparr>st_rows := update_first (create_composite_key n k) (marked_chain L tx) (st_rows s)\<rparr>))"
| "store_step L (OpScan n lo hi tx) s =
     (OutRows (Ok (List.map_filter (\<lambda>(ck, vs).
        if create_composite_key n lo \<le> ck \<and> ck \<le> create_composite_key n hi
        then map_option (\<lambda>v. (drop (Suc (length (string_bytes n))) ck, v)) (scan_value L vs tx)
        else None) (st_rows s))), s)"

text \<open>Room for the operation: the index is one leaf with at most 128 entries that fit in a page, and every
  chain of versions fits in a page of its own.  Table names have no zero byte.\<close>

fun store_room :: "'u ext_lib \<Rightarrow> 'u store_op \<Rightarrow> 'u row_store \<Rightarrow> bool" where
  "store_room L (OpInsert n k v tx) s \<longleftrightarrow>
     length (st_rows s) < MAX_KEYS \<and> versions_fit L (store_chain n k v tx s) \<and>
     30 + length (create_composite_key n k) + sum_list (map (\<lambda>r. 10 + length (fst r)) (st_rows s)) \<le> MAX_PAYLOAD"
| "store_room L (OpDelete n k tx) s \<longleftrightarrow>
     (case map_of (st_rows s) (create_composite_key n k) of
        None \<Rightarrow> True | Some vs \<Rightarrow> versions_fit L (marked_chain L tx vs))"
| "store_room L (OpScan n lo hi tx) s \<longleftrightarrow> table_name_ok n"
| "store_room L _ s \<longleftrightarrow> True"

section \<open>The engine as an implementation\<close>

definition out_done :: "(unit db_result \<times> 'e) \<Rightarrow> 'u store_out \<times> 'e" where
  "out_done = (\<lambda>(r, e). (OutDone r, e))"

fun engine_op :: "'u ext_lib \<Rightarrow> 'u store_op \<Rightarrow> 'u engine \<Rightarrow> ('u store_out \<times> 'u engine) option" where
  "engine_op L (OpBegin now ro) e = (case engine_begin L now ro e of (tx, e) \<Rightarrow> Some (OutTx tx, e))"
| "engine_op L (OpCommit t) e = Some (out_done (engine_commit L t e))"
| "engine_op L (OpAbort t) e = Some (out_done (engine_abort L t e))"
| "engine_op L (OpCreate n) e = Some (OutDone (Ok ()), e\<lparr>en_tables := (en_tables e)(n \<mapsto> mvcc_new)\<rparr>)"
| "engine_op L (OpInsert n k v tx) e = map_option out_done (engine_insert L n k v tx e)"
| "engine_op L (OpGet n k tx) e = map_option (\<lambda>r. (OutValue r, e)) (engine_get L n k tx e)"
| "engine_op L (OpDelete n k tx) e = map_option out_done (engine_delete L n k tx e)"
| "engine_op L (OpScan n lo hi tx) e = map_option (\<lambda>r. (OutRows r, e)) (engine_range_scan L n lo hi tx e)"

text \<open>The rows of the specification lie in the pages that the entries of the index point to.\<close>

definition rows_stored :: "'u ext_lib \<Rightarrow> page_file \<Rightarrow> (bytes \<times> page_id) list \<Rightarrow> (bytes \<times> 'u version_chain) list \<Rightarrow> bool" where
  "rows_stored L f = list_all2 (\<lambda>(ck, pid) (ck', vs). ck = ck' \<and> row_stored L f pid vs)"

definition store_rel :: "'u ext_lib \<Rightarrow> 'u engine \<Rightarrow> 'u row_store \<Rightarrow> bool" where
  "store_rel L e s \<longleftrightarrow>
     en_tables e = st_tables s \<and> en_tx e = st_tx s \<and>
     page_count (bt_pages (en_index e)) + MAX_KEYS < MAX_PAGES + length (st_rows s) \<and>
     (\<exists>p es. engine_holds L e (BLeaf p es) \<and> distinct (map snd es) \<and>
        rows_stored L (bt_pages (en_index e)) es (st_rows s))"

lemma rows_stored_keys: "rows_stored L f es rows \<Longrightarrow> map fst es = map fst rows"
  unfolding rows_stored_def by (induction rule: list_all2_induct) auto

lemma rows_stored_map_of:
  "rows_stored L f es rows \<Longrightarrow>
   rel_option (row_stored L f) (map_of es ck) (map_of rows ck)"
  unfolding rows_stored_def by (induction rule: list_all2_induct) auto

lemma rows_stored_frame:
  assumes "rows_stored L f es rows" and "\<And>ck q. (ck, q) \<in> set es \<Longrightarrow> read_page (crc32 L) f' q = read_page (crc32 L) f q"
  shows "rows_stored L f' es rows"
  using assms(1) unfolding rows_stored_def
  by (rule list.rel_mono_strong) (use assms(2) in \<open>force simp: row_stored_def\<close>)

lemma add_row_take_drop:
  "add_row ck v rows = take (find_child (map fst rows) ck) rows @ (ck, v) # drop (find_child (map fst rows) ck) rows"
proof -
  have "find_child (map fst rows) ck = length (takeWhile (\<lambda>r. fst r \<le> ck) rows)"
    by (induction rows) (auto simp: find_child_def split: option.splits)
  then show ?thesis unfolding add_row_def by (simp flip: takeWhile_eq_take dropWhile_eq_drop)
qed

lemma rows_stored_add:
  assumes "rows_stored L f es rows" and "row_stored L f pid vs"
  shows "rows_stored L f (insert_entry ck pid es) (add_row ck vs rows)"
  using assms rows_stored_keys [OF assms(1)]
  by (simp add: rows_stored_def insert_entry_def add_row_take_drop Let_def list_all2_appendI)

lemma rows_stored_update:
  assumes "rows_stored L f es rows" and "distinct (map snd es)" and "map_of es ck = Some pid"
    and "\<And>ck q. (ck, q) \<in> set es \<Longrightarrow> q \<noteq> pid \<Longrightarrow> read_page (crc32 L) f' q = read_page (crc32 L) f q"
    and "map_of rows ck = Some vs" and "row_stored L f' pid (g vs)"
  shows "rows_stored L f' es (update_first ck g rows)"
  using assms unfolding rows_stored_def
proof (induction rule: list_all2_induct)
  case (Cons x xs y ys)
  obtain k q where x: "x = (k, q)" by fastforce
  with Cons.hyps obtain ws where y: "y = (k, ws)" "row_stored L f q ws" by (cases y) auto
  show ?case
  proof (cases "k = ck")
    case True
    with Cons.prems x have q: "q = pid" "pid \<notin> snd ` set xs" by auto
    have "rows_stored L f' xs ys"
      by (rule rows_stored_frame [of L f]) (use Cons.hyps Cons.prems q x in \<open>force simp: rows_stored_def\<close>)+
    then show ?thesis using True x y q Cons.prems by (simp add: rows_stored_def)
  next
    case False
    have "(ck, pid) \<in> set xs" using False x Cons.prems(2) by (auto dest: map_of_SomeD)
    then have "q \<noteq> pid" using Cons.prems(1) x by force
    then have "row_stored L f' q ws" using Cons.prems(3) [of k q] x y(2) unfolding row_stored_def by simp
    moreover have "list_all2 (\<lambda>(ck, pid) (ck', vs). ck = ck' \<and> row_stored L f' pid vs) xs (update_first ck g ys)"
      by (rule Cons.IH) (use Cons.prems False x y in auto)
    ultimately show ?thesis using False x y by simp
  qed
qed simp

section \<open>One lemma per operation\<close>

lemma store_relE:
  assumes "store_rel L e s"
  obtains p es where "engine_holds L e (BLeaf p es)" "distinct (map snd es)" "rows_stored L (bt_pages (en_index e)) es (st_rows s)"
    "en_tables e = st_tables s" "en_tx e = st_tx s"
    "page_count (bt_pages (en_index e)) + MAX_KEYS < MAX_PAGES + length (st_rows s)"
  using assms by (auto simp: store_rel_def)

lemma length_put_entries_keys:
  "length (concat (map put_entry es)) = sum_list (map (\<lambda>k. 10 + length k) (map fst es))"
  by (induction es) (auto simp: length_put_entry)

lemma distinct_insert_entry:
  "distinct (map snd (insert_entry k v es)) \<longleftrightarrow> v \<notin> snd ` set es \<and> distinct (map snd es)"
proof -
  let ?i = "find_child (map fst es) k"
  have "distinct (map snd (take ?i es @ (k, v) # drop ?i es)) \<longleftrightarrow>
      v \<notin> snd ` set (take ?i es @ drop ?i es) \<and> distinct (map snd (take ?i es @ drop ?i es))"
    unfolding set_append by (auto simp del: append_take_drop_id)
  then show ?thesis by (simp add: insert_entry_def Let_def)
qed

lemma store_chain_memory:
  "en_tables e = st_tables s \<Longrightarrow> store_chain n k v tx s = new_chain v tx (memory_chain e n k)"
  by (simp add: store_chain_def memory_chain_def memory_table_def mvcc_new_def split: option.splits)

lemma store_insert_step:
  assumes L: "uuid_laws L" and r: "store_rel L e s" and room: "store_room L (OpInsert n k v tx) s"
  shows "\<exists>e'. engine_insert L n k v tx e = Some (Ok (), e') \<and> store_rel L e' (snd (store_step L (OpInsert n k v tx) s))"
proof -
  let ?ck = "create_composite_key n k" and ?pid = "of_nat (page_count (bt_pages (en_index e))) :: page_id"
  obtain p es where h: "engine_holds L e (BLeaf p es)" "distinct (map snd es)"
      "rows_stored L (bt_pages (en_index e)) es (st_rows s)" and tab: "en_tables e = st_tables s" "en_tx e = st_tx s"
    and cnt: "page_count (bt_pages (en_index e)) + MAX_KEYS < MAX_PAGES + length (st_rows s)"
    by (rule store_relE [OF r])
  have keys: "map fst es = map fst (st_rows s)" by (rule rows_stored_keys [OF h(3)])
  have len: "length es = length (st_rows s)" using h(3) by (simp add: rows_stored_def list_all2_lengthD)
  have "has_room ?ck (BLeaf p es)"
    using room len by (simp add: has_room_def length_put_entries_keys keys comp_def)
  moreover have "versions_fit L (new_chain v tx (memory_chain e n k))"
    using room store_chain_memory [OF tab(1), of n k v tx] by simp
  moreover have cm: "page_count (bt_pages (en_index e)) < MAX_PAGES" using cnt room by simp
  ultimately obtain e' where e': "engine_insert L n k v tx e = Some (Ok (), e')"
      "engine_holds L e' (BLeaf p (insert_entry ?ck ?pid es))"
      "en_tables e' = (en_tables e)(n \<mapsto> mvcc_insert k v tx (memory_table e n))"
      "page_count (bt_pages (en_index e')) = Suc (page_count (bt_pages (en_index e)))" "en_tx e' = en_tx e"
      "row_stored L (bt_pages (en_index e')) ?pid (new_chain v tx (memory_chain e n k))"
      "\<And>ck q. (ck, q) \<in> set es \<Longrightarrow>
        read_page (crc32 L) (bt_pages (en_index e')) q = read_page (crc32 L) (bt_pages (en_index e)) q"
    using engine_insert_effect [OF L h(1) _ _ _ refl, of v tx n k] by auto
  have inv: "store_inv (bt_pages (en_index e))" using h(1) by (simp add: engine_holds_def btree_holds_def)
  have "\<forall>(ck, q) \<in> set es. unat q < page_count (bt_pages (en_index e))" using h(1) by (auto simp: engine_holds_def)
  then have "?pid \<notin> snd ` set es" using data_pages.unat_count [OF inv cm] by fastforce
  then have "distinct (map snd (insert_entry ?ck ?pid es))" using h(2) by (simp add: distinct_insert_entry)
  moreover have "rows_stored L (bt_pages (en_index e')) (insert_entry ?ck ?pid es)
      (add_row ?ck (new_chain v tx (memory_chain e n k)) (st_rows s))"
    by (rule rows_stored_add [OF rows_stored_frame [OF h(3) e'(7)] e'(6)])
  moreover have "length (add_row ?ck c rows) = Suc (length rows)" for c and rows :: "(bytes \<times> 'a version_chain) list"
    by (simp add: add_row_take_drop)
  ultimately have "store_rel L e' (snd (store_step L (OpInsert n k v tx) s))"
    using e'(2-5) tab cnt by (auto simp: store_rel_def store_chain_memory [OF tab(1)] memory_table_def)
  with e'(1) show ?thesis by blast
qed

lemma store_get_step:
  assumes "store_rel L e s"
  shows "engine_get L n k tx e = Some (Ok (case map_of (st_rows s) (create_composite_key n k) of
    None \<Rightarrow> None | Some vs \<Rightarrow> visible_value L vs tx))"
proof -
  obtain p es where h: "engine_holds L e (BLeaf p es)" "rows_stored L (bt_pages (en_index e)) es (st_rows s)"
    by (rule store_relE [OF assms])
  have "rel_option (row_stored L (bt_pages (en_index e))) (map_of es (create_composite_key n k))
      (map_of (st_rows s) (create_composite_key n k))"
    by (rule rows_stored_map_of [OF h(2)])
  then show ?thesis
    by (cases rule: option.rel_cases) (simp_all add: engine_get_holds [OF h(1)] row_stored_value, simp add: row_value_def)
qed

lemma store_delete_step:
  assumes L: "uuid_laws L" and r: "store_rel L e s" and room: "store_room L (OpDelete n k tx) s"
    and st: "store_step L (OpDelete n k tx) s = (OutDone res, s')"
  shows "\<exists>e'. engine_delete L n k tx e = Some (res, e') \<and> store_rel L e' s'"
proof -
  let ?ck = "create_composite_key n k"
  obtain p es where h: "engine_holds L e (BLeaf p es)" "distinct (map snd es)"
      "rows_stored L (bt_pages (en_index e)) es (st_rows s)" and tab: "en_tables e = st_tables s" "en_tx e = st_tx s"
    and cnt: "page_count (bt_pages (en_index e)) + MAX_KEYS < MAX_PAGES + length (st_rows s)"
    by (rule store_relE [OF r])
  have "rel_option (row_stored L (bt_pages (en_index e))) (map_of es ?ck) (map_of (st_rows s) ?ck)"
    by (rule rows_stored_map_of [OF h(3)])
  then show ?thesis
  proof (cases rule: option.rel_cases)
    case None
    then show ?thesis using st r engine_delete_absent [OF h(1)] by auto
  next
    case (Some pid vs)
    have len: "length (update_first ck g rows) = length rows" for ck g and rows :: "(bytes \<times> 'a version_chain) list"
      by (induction ck g rows rule: update_first.induct) auto
    obtain e' where e': "engine_delete L n k tx e = Some (Ok (), e')" "engine_holds L e' (BLeaf p es)"
        "en_tables e' = en_tables e" "en_tx e' = en_tx e"
        "page_count (bt_pages (en_index e')) = page_count (bt_pages (en_index e))"
        "row_stored L (bt_pages (en_index e')) pid (marked_chain L tx vs)"
        "\<And>ck q. (ck, q) \<in> set es \<Longrightarrow> q \<noteq> pid \<Longrightarrow>
          read_page (crc32 L) (bt_pages (en_index e')) q = read_page (crc32 L) (bt_pages (en_index e)) q"
      using engine_delete_present [OF L h(1), of n k pid vs tx] Some room by auto
    have "rows_stored L (bt_pages (en_index e')) es (update_first ?ck (marked_chain L tx) (st_rows s))"
      by (rule rows_stored_update [where g = "marked_chain L tx", OF h(3,2) Some(1) e'(7) Some(2) e'(6)])
    then have "store_rel L e' (s\<lparr>st_rows := update_first ?ck (marked_chain L tx) (st_rows s)\<rparr>)"
      using e'(2-5) h(2) tab cnt len by (auto simp: store_rel_def)
    with e'(1) st Some(2) show ?thesis by auto
  qed
qed

text \<open>A scan of stored rows reads each page of the range and keeps the visible rows.\<close>

lemma scan_rows_stored:
  assumes n: "table_name_ok n" and "rows_stored L f es rows"
  shows "scan_rows L f tx (filter (in_range (create_composite_key n lo) (create_composite_key n hi)) es) =
    Ok (List.map_filter (\<lambda>(ck, vs).
      if create_composite_key n lo \<le> ck \<and> ck \<le> create_composite_key n hi
      then map_option (\<lambda>v. (drop (Suc (length (string_bytes n))) ck, v)) (scan_value L vs tx) else None) rows)"
  using assms(2) unfolding rows_stored_def
proof (induction rule: list_all2_induct)
  case (Cons x xs y ys)
  obtain ck pid vs where xy: "x = (ck, pid)" "y = (ck, vs)" "row_stored L f pid vs"
    using Cons.hyps by (cases x; cases y) auto
  show ?case
  proof (cases "create_composite_key n lo \<le> ck \<and> ck \<le> create_composite_key n hi")
    case True
    then obtain k where k: "ck = create_composite_key n k" using composite_interval by blast
    then have "drop (Suc (length (string_bytes n))) ck = k" by (simp add: create_composite_key_def)
    with k True xy Cons.IH composite_extract [OF n, of k] show ?thesis
      by (auto simp: in_range_def row_stored_def List.map_filter_def split: option.splits)
  next
    case False
    with xy Cons.IH show ?thesis by (auto simp: in_range_def List.map_filter_def)
  qed
qed (simp add: List.map_filter_def)

lemma store_scan_step:
  assumes "store_rel L e s" and n: "table_name_ok n"
  shows "map_option (\<lambda>r. (OutRows r, e)) (engine_range_scan L n lo hi tx e) =
    Some (fst (store_step L (OpScan n lo hi tx) s), e)"
proof -
  obtain p es where h: "engine_holds L e (BLeaf p es)" "rows_stored L (bt_pages (en_index e)) es (st_rows s)"
    by (rule store_relE [OF assms(1)])
  have "btree_holds (crc32 L) (en_index e) (BLeaf p es)" using h(1) by (simp add: engine_holds_def)
  from btree_range_holds [OF this] show ?thesis
    by (simp add: engine_range_scan_def en_pages_eq [OF h(1)] scan_rows_stored [OF n h(2)])
qed

lemma store_rel_frame:
  assumes "store_rel L e s" and "en_index e' = en_index e" and "en_free e' = en_free e"
    and "en_tables e' = st_tables s'" and "en_tx e' = st_tx s'" and "st_rows s' = st_rows s"
  shows "store_rel L e' s'"
  using assms by (auto simp: store_rel_def engine_holds_def)

text \<open>Flushing the log at the commit changes nothing in the model.\<close>

lemma engine_commit_tx:
  "tm_commit L t (en_tx e) = (res, m) \<Longrightarrow> engine_commit L t e = (res, e\<lparr>en_tx := m\<rparr>)"
  by (cases res) (simp_all add: engine_commit_def sbind_def on_tx_def on_index_def on_wal_def wal_flush_def)

interpretation row_engine: simulation "engine_op L" "store_step L" "\<lambda>e s. uuid_laws L \<and> store_rel L e s" "store_room L" for L
proof
  fix e :: "'a engine" and s s' :: "'a row_store" and op out
  assume "uuid_laws L \<and> store_rel L e s" and ok: "store_room L op s" and st: "store_step L op s = (out, s')"
  then have L: "uuid_laws L" and r: "store_rel L e s" by auto
  have tx: "en_tx e = st_tx s" and tab: "en_tables e = st_tables s" using r by (simp_all add: store_rel_def)
  have "\<exists>e'. engine_op L op e = Some (out, e') \<and> store_rel L e' s'"
  proof (cases op)
    case (OpBegin now ro)
    then show ?thesis using st r tx tab
      by (auto simp: engine_begin_def split: prod.splits intro!: store_rel_frame [OF r])
  next
    case (OpCommit t)
    obtain res m where m: "tm_commit L t (st_tx s) = (res, m)" by fastforce
    then have "engine_commit L t e = (res, e\<lparr>en_tx := m\<rparr>)" using tx by (simp add: engine_commit_tx)
    then show ?thesis using OpCommit st m tab by (auto simp: out_done_def intro!: store_rel_frame [OF r])
  next
    case (OpAbort t)
    then show ?thesis using st tx tab
      by (auto simp: out_done_def engine_abort_def on_tx_def split: prod.splits intro!: store_rel_frame [OF r])
  next
    case (OpCreate n)
    then show ?thesis using st tx tab by (auto intro!: store_rel_frame [OF r])
  next
    case (OpInsert n k v tx)
    with store_insert_step [OF L r, of n k v tx] ok st show ?thesis by (auto simp: out_done_def)
  next
    case (OpGet n k tx)
    with store_get_step [OF r, of n k tx] r st show ?thesis by auto
  next
    case (OpDelete n k tx)
    then obtain res where "out = OutDone res" using st by (auto split: option.splits)
    with store_delete_step [OF L r] OpDelete ok st show ?thesis by (fastforce simp: out_done_def)
  next
    case (OpScan n lo hi tx)
    with store_scan_step [OF r, of n lo hi tx] ok r st show ?thesis by auto
  qed
  with L show "\<exists>e'. engine_op L op e = Some (out, e') \<and> uuid_laws L \<and> store_rel L e' s'" by blast
qed

section \<open>Runs from a new engine\<close>

lemma store_rel_new:
  assumes "store_inv f" and "page_count f + MAX_KEYS + 1 < MAX_PAGES"
  shows "\<exists>e. engine_new L f w = Ok e \<and> store_rel L e (store_new L)"
proof -
  obtain e where e: "engine_new L f w = Ok e" "engine_holds L e (BLeaf (of_nat (page_count f)) [])"
      "en_tables e = Map.empty" "page_count (bt_pages (en_index e)) = Suc (page_count f)"
    using engine_new_holds [OF assms(1), of L w] assms(2) by auto
  have "en_tx e = tm_new L" using e(1) by (auto simp: engine_new_def rbind_Ok_iff)
  then have "store_rel L e (store_new L)"
    using e(2-4) assms(2) by (auto simp: store_rel_def store_new_def rows_stored_def)
  with e(1) show ?thesis by blast
qed

text \<open>C2. The storage engine implements its specification.  On a new engine, every sequence of
  transactions, table creations, insertions, lookups, deletions and range scans that fits into one leaf
  of the index returns, and all its answers are those of the specification, in which rows are kept in
  key order with their versions: nothing of the pages, the tree, the encodings and the checksums
  shows through.\<close>

theorem engine_implements_store:
  assumes "uuid_laws L" and "store_inv f" and "page_count f + MAX_KEYS + 1 < MAX_PAGES"
    and "allowed_run (store_room L) (store_step L) ops (store_new L)"
  shows "\<exists>e e'. engine_new L f w = Ok e \<and>
     run_ops (engine_op L) ops e = Some (fst (run_spec (store_step L) ops (store_new L)), e')"
proof -
  obtain e where e: "engine_new L f w = Ok e" "store_rel L e (store_new L)"
    using store_rel_new [OF assms(2,3)] by blast
  from row_engine.run [of L e "store_new L" ops] e assms(1,4) show ?thesis by blast
qed

definition sample_ops :: "128 word store_op list" where
  "sample_ops =
    [OpInsert ''t'' [1] [42] (sample_tx 2 1), OpGet ''t'' [1] (sample_tx 9 8),
     OpInsert ''t'' [1] [43] (sample_tx 3 2), OpGet ''t'' [1] (sample_tx 9 8),
     OpScan ''t'' [] [7] (sample_tx 9 8), OpDelete ''t'' [2] (sample_tx 5 4),
     OpDelete ''t'' [1] (sample_tx 5 4), OpGet ''t'' [1] (sample_tx 9 8)]"

lemmas sample_run_simps =
  store_new_def add_row_def store_chain_def new_chain_def mvcc_new_def mvcc_insert_def create_composite_key_def
  string_bytes_def List.map_filter_def marked_chain_def is_visible_key sample_tx_def sample_key
  versions_fit_def length_put_version [OF sample_lib_laws] length_put_deleted [OF sample_lib_laws]
  MAX_KEYS_def MAX_PAYLOAD_def table_name_ok_def

lemma sample_run_allowed: "allowed_run (store_room sample_lib) (store_step sample_lib) sample_ops (store_new sample_lib)"
  by (simp add: sample_ops_def sample_run_simps)

lemma sample_run_outputs:
  "fst (run_spec (store_step sample_lib) sample_ops (store_new sample_lib)) =
    [OutDone (Ok ()), OutValue (Ok (Some [42])), OutDone (Ok ()), OutValue (Ok (Some [42])),
     OutRows (Ok [([1], [42]), ([1], [43])]), OutDone (Err (NotFound ''Key not found'')), OutDone (Ok ()),
     OutValue (Ok None)]"
  by (simp add: sample_ops_def sample_run_simps)

lemma sample_file_room: "page_count sample_file + MAX_KEYS + 1 < MAX_PAGES"
  using sample_file_wf(2) by (simp add: MAX_PAGES_def MAX_KEYS_def)

theorem engine_implements_store_witness:
  "\<exists>e e'. engine_new sample_lib sample_file sample_log = Ok e \<and>
     run_ops (engine_op sample_lib) sample_ops e = Some
       ([OutDone (Ok ()), OutValue (Ok (Some [42])), OutDone (Ok ()), OutValue (Ok (Some [42])),
         OutRows (Ok [([1], [42]), ([1], [43])]), OutDone (Err (NotFound ''Key not found'')), OutDone (Ok ()),
         OutValue (Ok None)], e')"
  using engine_implements_store [OF sample_lib_laws sample_file_inv sample_file_room sample_run_allowed, of sample_log]
    sample_run_outputs by simp

end
