(* ===== verification/Sql_Store.thy ===== *)
theory Sql_Store
  imports Sql_Session Engine_Store
begin

text \<open>
  What the plan executor of \<^verbatim>\<open>sabi-sql/src/executor/mod.rs\<close> promises as a whole.  The specification of a
  plan works on the row store of the engine's specification: it lists the operations on rows that the plan
  performs and says what the client gets.  The executor on the engine implements it, so what \<^verbatim>\<open>INSERT\<close>,
  \<^verbatim>\<open>SELECT\<close> and \<^verbatim>\<open>DELETE\<close> do to a table without a primary key is read off the specification.
\<close>

section \<open>The specification\<close>

record 'u sql_state =
  sq_store :: "'u row_store"
  sq_catalog :: catalog
  sq_tx :: "'u transaction option"
  sq_auto :: bool

definition sql_new :: "'u ext_lib \<Rightarrow> catalog \<Rightarrow> 'u sql_state" where
  "sql_new L c = \<lparr>sq_store = store_new L, sq_catalog = c, sq_tx = None, sq_auto = True\<rparr>"

text \<open>The results of a list of computations before the first one that fails.\<close>

fun collect :: "('a \<Rightarrow> ('b, 'e) result) \<Rightarrow> 'a list \<Rightarrow> 'b list \<times> (unit, 'e) result" where
  "collect f [] = ([], Ok ())"
| "collect f (x # xs) =
     (case f x of
        Ok y \<Rightarrow> (case collect f xs of (ys, q) \<Rightarrow> (y # ys, q))
      | Err e \<Rightarrow> ([], Err e)
      | Panic p \<Rightarrow> ([], Panic p))"

definition sql_begin :: "'u ext_lib \<Rightarrow> 'u \<Rightarrow> 'u sql_state \<Rightarrow> 'u transaction \<times> 'u sql_state" where
  "sql_begin L now s =
     (case sq_tx s of
        Some tx \<Rightarrow> (tx, s)
      | None \<Rightarrow> (case tm_begin L now True (st_tx (sq_store s)) of
          (tx, m) \<Rightarrow> (tx, s\<lparr>sq_store := (sq_store s)\<lparr>st_tx := m\<rparr>\<rparr>)))"

text \<open>The end of a transaction: with the answer \<open>r\<close>, or the error of the transaction manager.\<close>

fun answer :: "(unit, 'e) result \<Rightarrow> 'a \<Rightarrow> ('a, 'e) result" where
  "answer (Ok _) r = Ok r"
| "answer (Err e) r = Err e"
| "answer (Panic p) r = Panic p"

definition sql_finish :: "'u ext_lib \<Rightarrow> 'u transaction \<Rightarrow> 'a \<Rightarrow> ('u sql_state, 'a, sql_error) op" where
  "sql_finish L tx r s =
     (if sq_auto s
      then (case tm_commit L (t_tx_id tx) (st_tx (sq_store s)) of
        (q, m) \<Rightarrow> (answer (map_err Storage q) r,
          s\<lparr>sq_store := (sq_store s)\<lparr>st_tx := m\<rparr>, sq_tx := (if q = Ok () then None else sq_tx s)\<rparr>))
      else (Ok r, s))"

text \<open>A data statement: operations on rows, and then the commit if no row failed.\<close>

definition sql_data ::
  "'u ext_lib \<Rightarrow> 'u transaction \<Rightarrow> 'u store_op list \<Rightarrow> (unit, sql_error) result \<Rightarrow> 'a \<Rightarrow> ('u sql_state, 'a, sql_error) op" where
  "sql_data L tx ops q r s =
     (let s' = s\<lparr>sq_store := snd (run_spec (store_step L) ops (sq_store s))\<rparr> in
      if q = Ok () then sql_finish L tx r s' else (answer q r, s'))"

text \<open>The values of the rows that a full scan of the table finds: those under the empty key.\<close>

definition table_values :: "'u ext_lib \<Rightarrow> string \<Rightarrow> 'u transaction \<Rightarrow> 'u row_store \<Rightarrow> bytes list" where
  "table_values L n tx st =
     List.map_filter (\<lambda>(ck, vs). if ck = create_composite_key n [] then scan_value L vs tx else None) (st_rows st)"

definition encode_row :: "regex \<Rightarrow> table_schema \<Rightarrow> string list option \<Rightarrow> expr list \<Rightarrow> (bytes \<times> bytes) sql_result" where
  "encode_row rx schema columns vals =
     rbind (build_row_key rx schema columns vals) (\<lambda>k. rbind (serialize_row rx schema columns vals) (\<lambda>row. Ok (k, row)))"

definition row_matches :: "regex \<Rightarrow> expr option \<Rightarrow> table_schema \<Rightarrow> bytes \<Rightarrow> bool sql_result" where
  "row_matches rx flt schema v =
     rbind (deserialize_row schema v) (include_row rx (map cd_name (ts_columns schema)) flt)"

definition insert_script :: "string \<Rightarrow> 'u transaction \<Rightarrow> (bytes \<times> bytes) list \<Rightarrow> 'u store_op list" where
  "insert_script n tx = map (\<lambda>(k, v). OpInsert n k v tx)"

definition delete_script :: "string \<Rightarrow> 'u transaction \<Rightarrow> bool list \<Rightarrow> 'u store_op list" where
  "delete_script n tx bs = replicate (length (filter (\<lambda>b. b) bs)) (OpDelete n [] tx)"

fun plan_spec :: "'u ext_lib \<Rightarrow> regex \<Rightarrow> 'u \<Rightarrow> logical_plan \<Rightarrow> ('u sql_state, 'u query_result, sql_error) op" where
  "plan_spec L rx now (CreateTable schema if_not_exists) s =
     (Ok ResCreateTable,
      if if_not_exists \<and> st_tables (sq_store s) (ts_name schema) \<noteq> None then s
      else s\<lparr>sq_store := snd (store_step L (OpCreate (ts_name schema)) (sq_store s)),
             sq_catalog := add_table schema (sq_catalog s)\<rparr>)"
| "plan_spec L rx now (Insert n columns vals schema) s =
     (case sql_begin L now s of (tx, s1) \<Rightarrow>
      case collect (encode_row rx schema columns) vals of (kvs, q) \<Rightarrow>
        sql_data L tx (insert_script n tx kvs) q (ResInsert (length vals)) s1)"
| "plan_spec L rx now (Scan n columns flt schema) s =
     (case sql_begin L now s of (tx, s1) \<Rightarrow>
        (rbind (select_rows rx schema columns flt (map (Pair []) (table_values L n tx (sq_store s1))))
           (\<lambda>rows. Ok (ResSelect columns rows)), s1))"
| "plan_spec L rx now (Delete n flt schema) s =
     (case sql_begin L now s of (tx, s1) \<Rightarrow>
      case collect (row_matches rx flt schema) (table_values L n tx (sq_store s1)) of (bs, q) \<Rightarrow>
        sql_data L tx (delete_script n tx bs) q (ResDelete (length (filter (\<lambda>b. b) bs))) s1)"
| "plan_spec L rx now (Filter input predicate) s =
     (case plan_spec L rx now input s of (r, s') \<Rightarrow> (rbind r (execute_filter rx predicate), s'))"
| "plan_spec L rx now (Limit input limit offset) s =
     (case plan_spec L rx now input s of (r, s') \<Rightarrow> (rbind r (execute_limit limit offset), s'))"
| "plan_spec L rx now BeginTransaction s =
     (if sq_tx s \<noteq> None then (Err (ExecutionError ''Transaction already in progress''), s)
      else (case tm_begin L now False (st_tx (sq_store s)) of
        (tx, m) \<Rightarrow> (Ok (ResBeginTransaction (t_tx_id tx)),
          s\<lparr>sq_store := (sq_store s)\<lparr>st_tx := m\<rparr>, sq_tx := Some tx, sq_auto := False\<rparr>)))"
| "plan_spec L rx now Commit s =
     (case sq_tx s of
        None \<Rightarrow> (Err (ExecutionError ''No transaction to commit''), s)
      | Some tx \<Rightarrow> (case tm_commit L (t_tx_id tx) (st_tx (sq_store s)) of
          (q, m) \<Rightarrow> (answer (map_err Storage q) ResCommit,
            s\<lparr>sq_store := (sq_store s)\<lparr>st_tx := m\<rparr>, sq_tx := None, sq_auto := sq_auto s \<or> q = Ok ()\<rparr>)))"
| "plan_spec L rx now Rollback s =
     (case sq_tx s of
        None \<Rightarrow> (Err (ExecutionError ''No transaction to rollback''), s)
      | Some tx \<Rightarrow> (case tm_abort L (t_tx_id tx) (st_tx (sq_store s)) of
          (q, m) \<Rightarrow> (answer (map_err Storage q) ResRollback,
            s\<lparr>sq_store := (sq_store s)\<lparr>st_tx := m\<rparr>, sq_tx := None, sq_auto := sq_auto s \<or> q = Ok ()\<rparr>)))"
| "plan_spec L rx now (Project input columns expressions) s =
     (Err (ExecutionError ''Unsupported plan node''), s)"

text \<open>The plan has room when the engine has room for each of its operations on rows.\<close>

fun plan_room :: "'u ext_lib \<Rightarrow> regex \<Rightarrow> 'u \<Rightarrow> logical_plan \<Rightarrow> 'u sql_state \<Rightarrow> bool" where
  "plan_room L rx now (Insert n columns vals schema) s \<longleftrightarrow>
     (case sql_begin L now s of (tx, s1) \<Rightarrow>
        allowed_run (store_room L) (store_step L)
          (insert_script n tx (fst (collect (encode_row rx schema columns) vals))) (sq_store s1))"
| "plan_room L rx now (Scan n columns flt schema) s \<longleftrightarrow> table_name_ok n"
| "plan_room L rx now (Delete n flt schema) s \<longleftrightarrow> table_name_ok n \<and>
     (case sql_begin L now s of (tx, s1) \<Rightarrow>
        allowed_run (store_room L) (store_step L)
          (delete_script n tx (fst (collect (row_matches rx flt schema) (table_values L n tx (sq_store s1))))) (sq_store s1))"
| "plan_room L rx now (Filter input predicate) s \<longleftrightarrow> plan_room L rx now input s"
| "plan_room L rx now (Limit input limit offset) s \<longleftrightarrow> plan_room L rx now input s"
| "plan_room L rx now _ s \<longleftrightarrow> True"

section \<open>The executor as an implementation\<close>

definition exec_rel :: "'u ext_lib \<Rightarrow> 'u executor \<Rightarrow> 'u sql_state \<Rightarrow> bool" where
  "exec_rel L ex s \<longleftrightarrow>
     store_rel L (ex_storage ex) (sq_store s) \<and> ex_catalog ex = sq_catalog s \<and>
     ex_current_transaction ex = sq_tx s \<and> ex_auto_commit ex = sq_auto s"

lemma exec_rel_store:
  "exec_rel L ex s \<Longrightarrow> store_rel L e st \<Longrightarrow> exec_rel L (ex\<lparr>ex_storage := e\<rparr>) (s\<lparr>sq_store := st\<rparr>)"
  by (simp add: exec_rel_def)

lemma store_rel_tx:
  "store_rel L e st \<Longrightarrow> store_rel L (e\<lparr>en_tx := m\<rparr>) (st\<lparr>st_tx := m\<rparr>)"
  by (rule store_rel_frame) (auto simp: store_rel_def)

lemma exec_relD:
  assumes "exec_rel L ex s"
  shows "store_rel L (ex_storage ex) (sq_store s)" "ex_current_transaction ex = sq_tx s" "ex_auto_commit ex = sq_auto s"
    "ex_catalog ex = sq_catalog s" "en_tx (ex_storage ex) = st_tx (sq_store s)" "en_tables (ex_storage ex) = st_tables (sq_store s)"
  using assms by (auto simp: exec_rel_def store_rel_def)

lemma begin_rel:
  assumes "exec_rel L ex s" and "sql_begin L now s = (tx, s1)"
  shows "\<exists>ex1. begin_transaction L now ex = Some (Ok tx, ex1) \<and> exec_rel L ex1 s1"
  using assms exec_relD [OF assms(1)]
  by (auto simp: begin_transaction_def sql_begin_def engine_begin_def
      split: option.splits prod.splits intro: exec_rel_store store_rel_tx)

lemma finish_rel:
  assumes "exec_rel L ex s" and "sql_finish L tx r s = (out, s')"
  shows "\<exists>ex'. obind (finish_statement L tx) (\<lambda>_. olift (Ok r)) ex = Some (out, ex') \<and> exec_rel L ex' s'"
proof (cases "sq_auto s")
  case True
  note r = exec_relD [OF assms(1)]
  obtain q m where q: "tm_commit L (t_tx_id tx) (st_tx (sq_store s)) = (q, m)" by fastforce
  then have "engine_commit L (t_tx_id tx) (ex_storage ex) = (q, (ex_storage ex)\<lparr>en_tx := m\<rparr>)"
    using r(5) by (simp add: engine_commit_tx)
  with True assms(2) q r store_rel_tx [OF r(1), of m] show ?thesis
    by (cases q) (auto simp: sql_finish_def finish_statement_def obind_def on_storage_def olift_def exec_rel_def)
next
  case False
  with assms show ?thesis by (auto simp: sql_finish_def finish_statement_def obind_def olift_def exec_rel_def)
qed

lemma scan_all_rel:
  assumes "exec_rel L ex s" and "table_name_ok n"
  shows "scan_all L n tx ex = Some (Ok (map (Pair []) (table_values L n tx (sq_store s))), ex)"
proof -
  let ?ck = "create_composite_key n []"
  have "(\<lambda>(ck, vs). if ?ck \<le> ck \<and> ck \<le> ?ck
        then map_option (\<lambda>v. (drop (Suc (length (string_bytes n))) ck, v)) (scan_value L vs tx) else None) =
      (\<lambda>x. map_option (Pair []) (case x of (ck, vs) \<Rightarrow> if ck = ?ck then scan_value L vs tx else None))"
    by (auto simp: fun_eq_iff create_composite_key_def dest: order.antisym)
  moreover have "List.map_filter (\<lambda>x. map_option g (f x)) rows = map g (List.map_filter f rows)"
    for g :: "bytes \<Rightarrow> bytes \<times> bytes" and f and rows :: "(bytes \<times> 'a version_chain) list"
    by (induction rows) (auto simp: map_filter_simps split: option.splits)
  ultimately have "fst (store_step L (OpScan n [] [] tx) (sq_store s)) =
      OutRows (Ok (map (Pair []) (table_values L n tx (sq_store s))))"
    by (simp add: table_values_def)
  with store_scan_step [OF exec_relD(1) [OF assms(1)] assms(2), of "[]" "[]" tx] show ?thesis
    by (auto simp: scan_all_def on_storage_def)
qed

text \<open>The rows of an \<^verbatim>\<open>INSERT\<close> are stored one by one, up to the first that cannot be encoded.\<close>

lemma insert_rows_rel:
  assumes L: "uuid_laws L"
  shows "exec_rel L ex s \<Longrightarrow> collect (encode_row rx schema columns) vals = (kvs, q) \<Longrightarrow>
    allowed_run (store_room L) (store_step L) (insert_script n tx kvs) (sq_store s) \<Longrightarrow>
    \<exists>ex'. insert_rows L rx n columns schema tx vals k ex = Some (answer q (k + length vals), ex') \<and>
      exec_rel L ex' (s\<lparr>sq_store := snd (run_spec (store_step L) (insert_script n tx kvs) (sq_store s))\<rparr>)"
proof (induction vals arbitrary: ex s kvs k)
  case Nil
  then show ?case by (auto simp: insert_script_def olift_def)
next
  case (Cons row vals)
  show ?case
  proof (cases "encode_row rx schema columns row")
    case (Ok kv)
    then obtain key v where kv: "build_row_key rx schema columns row = Ok key"
        "serialize_row rx schema columns row = Ok v" "kv = (key, v)"
      by (auto simp: encode_row_def rbind_Ok_iff)
    obtain kvs' where kvs': "collect (encode_row rx schema columns) vals = (kvs', q)" "kvs = kv # kvs'"
      using Cons.prems(2) Ok by (auto split: prod.splits)
    let ?st = "snd (store_step L (OpInsert n key v tx) (sq_store s))"
    have room: "store_room L (OpInsert n key v tx) (sq_store s)"
        "allowed_run (store_room L) (store_step L) (insert_script n tx kvs') ?st"
      using Cons.prems(3) kv(3) kvs'(2) by (simp_all add: insert_script_def)
    obtain e' where e': "engine_insert L n key v tx (ex_storage ex) = Some (Ok (), e')" "store_rel L e' ?st"
      using store_insert_step [OF L exec_relD(1) [OF Cons.prems(1)] room(1)] by blast
    from Cons.IH [OF exec_rel_store [OF Cons.prems(1) e'(2)] kvs'(1), of "k + 1"] room(2) obtain ex' where
      "insert_rows L rx n columns schema tx vals (k + 1) (ex\<lparr>ex_storage := e'\<rparr>) = Some (answer q (k + 1 + length vals), ex')"
      "exec_rel L ex' (s\<lparr>sq_store := snd (run_spec (store_step L) (insert_script n tx kvs') ?st)\<rparr>)"
      by auto
    then show ?thesis using kv kvs'(2) e'(1)
      by (simp add: obind_def olift_def on_storage_def insert_script_def snd_run_spec_Cons del: run_spec.simps)
  next
    case (Err x2)
    with Cons.prems show ?thesis
      by (cases "build_row_key rx schema columns row"; cases "serialize_row rx schema columns row")
        (auto simp: encode_row_def obind_def olift_def insert_script_def)
  next
    case (Panic x3)
    with Cons.prems show ?thesis
      by (cases "build_row_key rx schema columns row"; cases "serialize_row rx schema columns row")
        (auto simp: encode_row_def obind_def olift_def insert_script_def)
  qed
qed

text \<open>Every row that a \<^verbatim>\<open>DELETE\<close> found has the empty key, so each call of the engine marks the first entry.\<close>

lemma map_of_update_first: "map_of (update_first ck g rows) ck = map_option g (map_of rows ck)"
  by (induction ck g rows rule: update_first.induct) auto

lemma delete_row_rel:
  assumes L: "uuid_laws L" and rel: "exec_rel L ex s"
    and vs: "map_of (st_rows (sq_store s)) (create_composite_key n []) \<noteq> None"
    and room: "store_room L (OpDelete n [] tx) (sq_store s)"
  shows "\<exists>e'. engine_delete L n [] tx (ex_storage ex) = Some (Ok (), e') \<and>
      exec_rel L (ex\<lparr>ex_storage := e'\<rparr>) (s\<lparr>sq_store := snd (store_step L (OpDelete n [] tx) (sq_store s))\<rparr>) \<and>
      map_of (st_rows (snd (store_step L (OpDelete n [] tx) (sq_store s)))) (create_composite_key n []) \<noteq> None"
proof -
  let ?st = "snd (store_step L (OpDelete n [] tx) (sq_store s))"
  have st: "store_step L (OpDelete n [] tx) (sq_store s) = (OutDone (Ok ()), ?st)" using vs by auto
  obtain e' where e': "engine_delete L n [] tx (ex_storage ex) = Some (Ok (), e')" "store_rel L e' ?st"
    using store_delete_step [OF L exec_relD(1) [OF rel] room st] by blast
  have "map_of (st_rows ?st) (create_composite_key n []) \<noteq> None" using vs by (auto simp: map_of_update_first)
  with e' exec_rel_store [OF rel e'(2)] show ?thesis by blast
qed

lemma delete_rows_rel:
  assumes L: "uuid_laws L"
  shows "exec_rel L ex s \<Longrightarrow> collect (row_matches rx flt schema) values = (bs, q) \<Longrightarrow>
    values = [] \<or> map_of (st_rows (sq_store s)) (create_composite_key n []) \<noteq> None \<Longrightarrow>
    allowed_run (store_room L) (store_step L) (delete_script n tx bs) (sq_store s) \<Longrightarrow>
    \<exists>ex'. delete_rows L rx n flt schema tx (map (Pair []) values) k ex =
        Some (answer q (k + length (filter (\<lambda>b. b) bs)), ex') \<and>
      exec_rel L ex' (s\<lparr>sq_store := snd (run_spec (store_step L) (delete_script n tx bs) (sq_store s))\<rparr>)"
proof (induction "values" arbitrary: ex s bs k)
  case Nil
  then show ?case by (auto simp: delete_script_def olift_def)
next
  case (Cons v "values")
  let ?ck = "create_composite_key n []"
  obtain vs where vs: "map_of (st_rows (sq_store s)) ?ck = Some vs" using Cons.prems(3) by auto
  show ?case
  proof (cases "row_matches rx flt schema v")
    case (Ok b)
    then obtain row where row: "deserialize_row schema v = Ok row"
        "include_row rx (map cd_name (ts_columns schema)) flt row = Ok b"
      by (auto simp: row_matches_def rbind_Ok_iff)
    obtain bs' where bs': "collect (row_matches rx flt schema) values = (bs', q)" "bs = b # bs'"
      using Cons.prems(2) Ok by (auto split: prod.splits)
    show ?thesis
    proof (cases b)
      case False
      with Cons.IH [OF Cons.prems(1) bs'(1), of k] Cons.prems(3,4) bs'(2) row vs show ?thesis
        by (simp add: obind_def olift_def delete_script_def)
    next
      case True
      let ?st = "snd (store_step L (OpDelete n [] tx) (sq_store s))"
      have room: "store_room L (OpDelete n [] tx) (sq_store s)"
          "allowed_run (store_room L) (store_step L) (delete_script n tx bs') ?st"
        using Cons.prems(4) bs'(2) True by (simp_all add: delete_script_def)
      obtain e' where e': "engine_delete L n [] tx (ex_storage ex) = Some (Ok (), e')"
          "exec_rel L (ex\<lparr>ex_storage := e'\<rparr>) (s\<lparr>sq_store := ?st\<rparr>)" "map_of (st_rows ?st) ?ck \<noteq> None"
        using delete_row_rel [OF L Cons.prems(1) _ room(1)] vs by blast
      from e'(3) Cons.IH [OF e'(2) bs'(1), of "k + 1"] room(2) obtain ex' where
        "delete_rows L rx n flt schema tx (map (Pair []) values) (k + 1) (ex\<lparr>ex_storage := e'\<rparr>) =
          Some (answer q (k + 1 + length (filter (\<lambda>b. b) bs')), ex')"
        "exec_rel L ex' (s\<lparr>sq_store := snd (run_spec (store_step L) (delete_script n tx bs') ?st)\<rparr>)"
        by (auto simp del: store_step.simps)
      then show ?thesis using row True bs'(2) e'(1)
        by (simp add: obind_def olift_def on_storage_def delete_script_def snd_run_spec_Cons del: store_step.simps run_spec.simps)
    qed
  next
    case (Err x2)
    with Cons.prems show ?thesis
      by (cases "deserialize_row schema v"; simp add: row_matches_def)
        (auto simp: obind_def olift_def delete_script_def)
  next
    case (Panic x3)
    with Cons.prems show ?thesis
      by (cases "deserialize_row schema v"; simp add: row_matches_def)
        (auto simp: obind_def olift_def delete_script_def)
  qed
qed

lemma table_values_present:
  "table_values L n tx st \<noteq> [] \<Longrightarrow> map_of (st_rows st) (create_composite_key n []) \<noteq> None"
  by (auto simp: table_values_def List.map_filter_def filter_empty_conv map_of_eq_None_iff
      split: if_splits intro: rev_image_eqI)

section \<open>One lemma per kind of statement\<close>

text \<open>The rows of a data statement, then its commit.\<close>

lemma data_rel:
  assumes run: "m ex = Some (answer q k, ex1)"
    and rel: "exec_rel L ex1 (s\<lparr>sq_store := snd (run_spec (store_step L) ops (sq_store s))\<rparr>)"
    and spec: "sql_data L tx ops q (g k) s = (out, s')"
  shows "\<exists>ex'. obind m (\<lambda>k. obind (finish_statement L tx) (\<lambda>_. olift (Ok (g k)))) ex = Some (out, ex') \<and> exec_rel L ex' s'"
proof (cases q)
  case (Ok u)
  then show ?thesis using run finish_rel [OF rel, of tx "g k" out s'] spec
    by (simp add: obind_def sql_data_def Let_def)
qed (use assms in \<open>auto simp: obind_def sql_data_def Let_def\<close>)

lemma insert_rel:
  assumes "uuid_laws L" and "exec_rel L ex s" and "plan_room L rx now (Insert n columns vals schema) s"
    and "plan_spec L rx now (Insert n columns vals schema) s = (out, s')"
  shows "\<exists>ex'. execute L rx now (Insert n columns vals schema) ex = Some (out, ex') \<and> exec_rel L ex' s'"
proof -
  obtain tx s1 where b: "sql_begin L now s = (tx, s1)" by fastforce
  obtain kvs q where c: "collect (encode_row rx schema columns) vals = (kvs, q)" by fastforce
  obtain ex1 where ex1: "begin_transaction L now ex = Some (Ok tx, ex1)" "exec_rel L ex1 s1"
    using begin_rel [OF assms(2) b] by blast
  have "allowed_run (store_room L) (store_step L) (insert_script n tx kvs) (sq_store s1)"
    using assms(3) b c by simp
  from insert_rows_rel [OF assms(1) ex1(2) c this, of 0] obtain ex2 where
    "insert_rows L rx n columns schema tx vals 0 ex1 = Some (answer q (length vals), ex2)"
    "exec_rel L ex2 (s1\<lparr>sq_store := snd (run_spec (store_step L) (insert_script n tx kvs) (sq_store s1))\<rparr>)"
    by auto
  from data_rel [where g = ResInsert and m = "insert_rows L rx n columns schema tx vals 0", OF this, of tx out s'] assms(4) b c ex1(1) show ?thesis
    by (simp add: execute_insert_def obind_def)
qed

lemma delete_rel:
  assumes "uuid_laws L" and "exec_rel L ex s" and "plan_room L rx now (Delete n flt schema) s"
    and "plan_spec L rx now (Delete n flt schema) s = (out, s')"
  shows "\<exists>ex'. execute L rx now (Delete n flt schema) ex = Some (out, ex') \<and> exec_rel L ex' s'"
proof -
  obtain tx s1 where b: "sql_begin L now s = (tx, s1)" by fastforce
  let ?vs = "table_values L n tx (sq_store s1)"
  obtain bs q where c: "collect (row_matches rx flt schema) ?vs = (bs, q)" by fastforce
  obtain ex1 where ex1: "begin_transaction L now ex = Some (Ok tx, ex1)" "exec_rel L ex1 s1"
    using begin_rel [OF assms(2) b] by blast
  have room: "table_name_ok n" "allowed_run (store_room L) (store_step L) (delete_script n tx bs) (sq_store s1)"
    using assms(3) b c by simp_all
  have "?vs = [] \<or> map_of (st_rows (sq_store s1)) (create_composite_key n []) \<noteq> None"
    using table_values_present by blast
  from delete_rows_rel [OF assms(1) ex1(2) c this room(2), of 0] obtain ex2 where
    "delete_rows L rx n flt schema tx (map (Pair []) ?vs) 0 ex1 = Some (answer q (length (filter (\<lambda>b. b) bs)), ex2)"
    "exec_rel L ex2 (s1\<lparr>sq_store := snd (run_spec (store_step L) (delete_script n tx bs) (sq_store s1))\<rparr>)"
    by auto
  from data_rel [where g = ResDelete and m = "delete_rows L rx n flt schema tx (map (Pair []) ?vs) 0", OF this, of tx out s']
    assms(4) b c ex1(1) scan_all_rel [OF ex1(2) room(1), of tx]
  show ?thesis by (simp add: execute_delete_def obind_def)
qed

lemma scan_rel:
  assumes "exec_rel L ex s" and "table_name_ok n" and "plan_spec L rx now (Scan n columns flt schema) s = (out, s')"
  shows "\<exists>ex'. execute L rx now (Scan n columns flt schema) ex = Some (out, ex') \<and> exec_rel L ex' s'"
proof -
  obtain tx s1 where b: "sql_begin L now s = (tx, s1)" by fastforce
  obtain ex1 where ex1: "begin_transaction L now ex = Some (Ok tx, ex1)" "exec_rel L ex1 s1"
    using begin_rel [OF assms(1) b] by blast
  let ?r = "select_rows rx schema columns flt (map (Pair []) (table_values L n tx (sq_store s1)))"
  show ?thesis using assms(3) b ex1 scan_all_rel [OF ex1(2) assms(2), of tx]
    by (cases ?r) (auto simp: execute_scan_def obind_def olift_def)
qed

lemma transaction_rel:
  assumes "exec_rel L ex s" and "p = BeginTransaction \<or> p = Commit \<or> p = Rollback" and "plan_spec L rx now p s = (out, s')"
  shows "\<exists>ex'. execute L rx now p ex = Some (out, ex') \<and> exec_rel L ex' s'"
proof -
  note r = exec_relD [OF assms(1)]
  show ?thesis
  proof (cases "sq_tx s")
    case None
    with assms r show ?thesis
      by (auto simp: execute_begin_def execute_commit_def execute_rollback_def take_transaction_def obind_def
          engine_begin_def exec_rel_def store_rel_tx [OF r(1)] split: prod.splits)
  next
    case (Some tx)
    obtain q m where q: "tm_commit L (t_tx_id tx) (st_tx (sq_store s)) = (q, m)" by fastforce
    obtain q' m' where q': "tm_abort L (t_tx_id tx) (st_tx (sq_store s)) = (q', m')" by fastforce
    have "engine_commit L (t_tx_id tx) (ex_storage ex) = (q, (ex_storage ex)\<lparr>en_tx := m\<rparr>)"
      "engine_abort L (t_tx_id tx) (ex_storage ex) = (q', (ex_storage ex)\<lparr>en_tx := m'\<rparr>)"
      using q q' r(5) by (simp_all add: engine_commit_tx engine_abort_def on_tx_def)
    with Some assms(2,3) q q' r store_rel_tx [OF r(1)] show ?thesis
      by (cases q; cases q') (auto simp: execute_begin_def execute_commit_def execute_rollback_def take_transaction_def
          obind_def on_storage_def exec_rel_def)
  qed
qed

lemma create_rel:
  assumes "exec_rel L ex s" and "plan_spec L rx now (CreateTable schema b) s = (out, s')"
  shows "\<exists>ex'. execute L rx now (CreateTable schema b) ex = Some (out, ex') \<and> exec_rel L ex' s'"
proof -
  note r = exec_relD [OF assms(1)]
  have "store_rel L ((ex_storage ex)\<lparr>en_tables := T\<rparr>) ((sq_store s)\<lparr>st_tables := T\<rparr>)" for T
    by (rule store_rel_frame [OF r(1)]) (simp_all add: r)
  with assms r show ?thesis by (auto simp: execute_create_table_def exec_rel_def Let_def)
qed

lemma plan_rel:
  assumes L: "uuid_laws L"
  shows "exec_rel L ex s \<Longrightarrow> plan_room L rx now p s \<Longrightarrow> plan_spec L rx now p s = (out, s') \<Longrightarrow>
    \<exists>ex'. execute L rx now p ex = Some (out, ex') \<and> exec_rel L ex' s'"
proof (induction p arbitrary: out s')
  case (Filter p predicate)
  obtain r s1 where "plan_spec L rx now p s = (r, s1)" by fastforce
  with Filter.IH [OF Filter.prems(1) _ this] Filter.prems show ?case by (cases r) (auto simp: obind_def olift_def)
next
  case (Limit p limit offset)
  obtain r s1 where "plan_spec L rx now p s = (r, s1)" by fastforce
  with Limit.IH [OF Limit.prems(1) _ this] Limit.prems show ?case by (cases r) (auto simp: obind_def olift_def)
next
  case (Insert n columns vals schema)
  from insert_rel [OF L Insert.prems] show ?case .
next
  case (Delete n flt schema)
  from delete_rel [OF L Delete.prems] show ?case .
next
  case (Scan n columns flt schema)
  then show ?case by (intro scan_rel) simp_all
next
  case (CreateTable schema b)
  then show ?case by (intro create_rel)
next
  case (Project p columns expressions)
  then show ?case by (simp add: olift_def)
qed (rule transaction_rel; simp)+

interpretation sql_executor: simulation "\<lambda>(now, p). execute L rx now p" "\<lambda>(now, p). plan_spec L rx now p"
  "\<lambda>ex s. uuid_laws L \<and> exec_rel L ex s" "\<lambda>(now, p). plan_room L rx now p" for L rx
  by unfold_locales (auto intro: plan_rel)

lemma exec_rel_new:
  assumes "store_inv f" and "page_count f + MAX_KEYS + 1 < MAX_PAGES"
  shows "\<exists>e. engine_new L f w = Ok e \<and> exec_rel L (executor_new e c) (sql_new L c)"
  using store_rel_new [OF assms, of L w] by (auto simp: exec_rel_def executor_new_def sql_new_def)

text \<open>C3. The executor of plans implements its specification.  On a new database, every sequence of plans
  that the engine has room for returns, and every answer is the one of the specification, errors included: the
  rows of an \<^verbatim>\<open>INSERT\<close> are added up to the first that cannot be encoded, a \<^verbatim>\<open>SELECT\<close> shows the visible rows
  under the empty key, a \<^verbatim>\<open>DELETE\<close> marks the first entry under that key once for each row that matches, and a
  data statement that fails leaves its transaction open.\<close>

theorem executor_implements_spec:
  assumes "uuid_laws L" and "store_inv f" and "page_count f + MAX_KEYS + 1 < MAX_PAGES"
    and "allowed_run (\<lambda>(now, p). plan_room L rx now p) (\<lambda>(now, p). plan_spec L rx now p) plans (sql_new L c)"
  shows "\<exists>e ex'. engine_new L f w = Ok e \<and>
     run_ops (\<lambda>(now, p). execute L rx now p) plans (executor_new e c) =
       Some (fst (run_spec (\<lambda>(now, p). plan_spec L rx now p) plans (sql_new L c)), ex')"
proof -
  obtain e where e: "engine_new L f w = Ok e" "exec_rel L (executor_new e c) (sql_new L c)"
    using exec_rel_new [OF assms(2,3)] by blast
  with sql_executor.run [of L "executor_new e c" "sql_new L c" rx plans] assms(1,4) show ?thesis by blast
qed

definition flag_schema :: table_schema where
  "flag_schema = \<lparr>ts_name = ''flags'',
     ts_columns = [\<lparr>cd_name = ''on'', cd_data_type = BooleanType, cd_nullable = True, cd_primary_key = False\<rparr>],
     ts_primary_key = Some []\<rparr>"

text \<open>A transaction whose second row has the wrong type, so its third is not reached, a rollback without a
  transaction, a deletion, and a selection.\<close>

definition sample_plans :: "(128 word \<times> logical_plan) list" where
  "sample_plans =
    [(5, BeginTransaction),
     (0, Insert ''flags'' None [[Literal (VBoolean True)], [Literal (VInteger 1)], [Literal VNull]] flag_schema),
     (0, Commit), (6, Rollback), (7, Scan ''flags'' [] None flag_schema), (8, Delete ''flags'' None flag_schema),
     (9, Limit (Scan ''flags'' [] None flag_schema) 1 0)]"

lemmas sample_plan_simps =
  sample_run_simps sql_new_def sql_begin_def sql_data_def sql_finish_def tm_new_def tm_begin_def tm_commit_def
  grow_registry_def table_values_def encode_row_def insert_script_def delete_script_def row_matches_def
  build_row_key_def serialize_row_def find_column_def type_check_def flag_schema_def deserialize_row_def
  read_value_def select_row_def include_row_def

lemma sample_clock:
  "tx_key sample_lib (TxId 5) \<le> tx_key sample_lib (TxId 7)" "tx_key sample_lib (TxId 5) \<le> tx_key sample_lib (TxId 8)"
  by (simp_all add: tx_key_def extract_timestamp_def sample_lib_def)

lemma sample_plans_outputs:
  "fst (run_spec (\<lambda>(now, p). plan_spec sample_lib (\<lambda>p. Inl p) now p) sample_plans (sql_new sample_lib c)) =
    [Ok (ResBeginTransaction (TxId 5)), Err (TypeError ''BOOLEAN'' ''INTEGER''), Ok ResCommit,
     Err (ExecutionError ''No transaction to rollback''), Ok (ResSelect [] [[VBoolean True]]), Ok (ResDelete 1),
     Ok (ResSelect [] [])]"
  by (simp add: sample_plans_def sample_plan_simps sample_clock Let_def)

lemma sample_plans_allowed:
  "allowed_run (\<lambda>(now, p). plan_room sample_lib (\<lambda>p. Inl p) now p) (\<lambda>(now, p). plan_spec sample_lib (\<lambda>p. Inl p) now p)
     sample_plans (sql_new sample_lib c)"
  by (simp add: sample_plans_def sample_plan_simps sample_clock Let_def)

theorem executor_implements_spec_witness:
  "\<exists>e ex'. engine_new sample_lib sample_file sample_log = Ok e \<and>
     run_ops (\<lambda>(now, p). execute sample_lib (\<lambda>p. Inl p) now p) sample_plans (executor_new e catalog_new) =
       Some ([Ok (ResBeginTransaction (TxId 5)), Err (TypeError ''BOOLEAN'' ''INTEGER''), Ok ResCommit,
         Err (ExecutionError ''No transaction to rollback''), Ok (ResSelect [] [[VBoolean True]]), Ok (ResDelete 1),
         Ok (ResSelect [] [])], ex')"
  using executor_implements_spec [OF sample_lib_laws sample_file_inv sample_file_room sample_plans_allowed,
      of sample_log catalog_new] unfolding sample_plans_outputs .

end
