(* ===== verification/Shell_Store.thy ===== *)
theory Shell_Store
  imports Sql_Shell Sql_Store
begin

text \<open>
  The whole program, from the lines that are typed to the lines that are printed.  The loop of the shell does
  not depend on how plans are executed; so it prints the same when the executor on the engine is replaced by
  the specification of plans, which knows no pages, no tree and no log.
\<close>

section \<open>Shells with related executors\<close>

locale shell_simulation =
  fixes exec :: "('u, 'x) exec" and spec :: "('u, 's) exec" and R :: "'x \<Rightarrow> 's \<Rightarrow> bool"
  assumes exec_step: "R x s \<Longrightarrow> spec now p s = Some (r, s') \<Longrightarrow> \<exists>x'. exec now p x = Some (r, x') \<and> R x' s'"
begin

definition related :: "('x, 'h) shell \<Rightarrow> ('s, 'h) shell \<Rightarrow> bool" where
  "related sh ss \<longleftrightarrow> R (sh_executor sh) (sh_executor ss) \<and> sh_planner sh = sh_planner ss \<and>
     sh_clock sh = sh_clock ss \<and> sh_out sh = sh_out ss \<and> sh_history sh = sh_history ss"

lemma related_say: "related sh ss \<Longrightarrow> related (say ls sh) (say ls ss)"
  by (simp add: related_def say_def)

lemma related_history: "related sh ss \<Longrightarrow> related (sh\<lparr>sh_history := h\<rparr>) (ss\<lparr>sh_history := h\<rparr>)"
  by (simp add: related_def)

lemma statement_related:
  assumes "related sh ss" and "run_statement L spec clock stmt ss = Some (r, ss')"
  shows "\<exists>sh'. run_statement L exec clock stmt sh = Some (r, sh') \<and> related sh' ss'"
proof -
  obtain q c where pl: "plan stmt (sh_planner ss) = (q, c)" by fastforce
  show ?thesis
  proof (cases q)
    case (Ok p)
    obtain res s where s: "spec (clock (sh_clock ss)) p (sh_executor ss) = Some (res, s)"
      using assms(2) pl Ok by (auto simp: run_statement_def split: option.splits)
    obtain x where "exec (clock (sh_clock ss)) p (sh_executor sh) = Some (res, x)" "R x s"
      using exec_step [OF _ s] assms(1) by (auto simp: related_def)
    with assms pl Ok s show ?thesis
      by (cases res) (auto simp: run_statement_def related_def say_def Let_def)
  qed (use assms pl in \<open>auto simp: run_statement_def related_def\<close>)
qed

lemma statements_related:
  "related sh ss \<Longrightarrow> run_statements L spec clock stmts ss = Some (r, ss') \<Longrightarrow>
   \<exists>sh'. run_statements L exec clock stmts sh = Some (r, sh') \<and> related sh' ss'"
proof (induction stmts arbitrary: sh ss)
  case (Cons stmt stmts)
  obtain q ss1 where q: "run_statement L spec clock stmt ss = Some (q, ss1)"
    using Cons.prems(2) by (auto split: option.splits)
  obtain sh1 where sh1: "run_statement L exec clock stmt sh = Some (q, sh1)" "related sh1 ss1"
    using statement_related [OF Cons.prems(1) q] by blast
  show ?case
  proof (cases q)
    case (Ok u)
    then show ?thesis using Cons.IH [OF sh1(2)] Cons.prems(2) q sh1(1) by simp
  qed (use Cons.prems(2) q sh1 in auto)
qed simp

lemma query_related:
  assumes "related sh ss" and "execute_query L spec parse_sql clock sql ss = Some (r, ss')"
  shows "\<exists>sh'. execute_query L exec parse_sql clock sql sh = Some (r, sh') \<and> related sh' ss'"
  using assms statements_related [OF assms(1)]
  by (cases "parse parse_sql sql") (auto simp: execute_query_def)

lemma leave_related:
  assumes "related sh ss" and "leave H ss = (r, ss')"
  shows "\<exists>sh'. leave H sh = (r, sh') \<and> related sh' ss'"
  using assms related_say [OF assms(1)] by (auto simp: leave_def related_def split: option.splits)

lemma main_loop_related:
  "related sh ss \<Longrightarrow> main_loop L spec parse_sql clock H inputs ss = Some (r, ss') \<Longrightarrow>
   \<exists>sh'. main_loop L exec parse_sql clock H inputs sh = Some (r, sh') \<and> related sh' ss'"
proof (induction inputs arbitrary: sh ss)
  case (Cons input inputs)
  note say = leave_related [OF related_say [OF Cons.prems(1)]]
  show ?case
  proof (cases input)
    case (Line line)
    obtain x h where add: "ed_add H line (sh_history ss) = (x, h)" by fastforce
    let ?sh = "sh\<lparr>sh_history := h\<rparr>" and ?ss = "ss\<lparr>sh_history := h\<rparr>"
    have rel: "related ?sh ?ss" by (rule related_history [OF Cons.prems(1)])
    have add': "ed_add H line (sh_history sh) = (x, h)" using add Cons.prems(1) by (simp add: related_def)
    let ?word = "map lower_char (trim line)"
    consider e where "x = Some e" | "x = None" "trim line = []"
      | "x = None" "trim line \<noteq> []" "?word = ''exit'' \<or> ?word = ''quit''"
      | "x = None" "trim line \<noteq> []" "?word = ''help''"
      | "x = None" "trim line \<noteq> []" "?word \<noteq> ''exit''" "?word \<noteq> ''quit''" "?word \<noteq> ''help''"
      by (cases x) auto
    then show ?thesis
    proof cases
      case 5
      obtain q ss1 where q: "execute_query L spec parse_sql clock (trim line) ?ss = Some (q, ss1)"
        using Cons.prems(2) Line add 5 by (auto simp: Let_def split: option.splits)
      obtain sh1 where sh1: "execute_query L exec parse_sql clock (trim line) ?sh = Some (q, sh1)" "related sh1 ss1"
        using query_related [OF rel q] by blast
      show ?thesis using Cons.IH [OF sh1(2)] Cons.prems(2) Line add add' 5 q sh1 by (cases q) (auto simp: Let_def)
    qed (use Cons.prems(2) Line add add' rel Cons.IH [OF rel] Cons.IH [OF related_say [OF rel]] leave_related [OF rel]
        in \<open>auto simp: Let_def\<close>)
  qed (use Cons.prems(2) say in auto)
qed simp

lemma run_shell_related:
  assumes "R x s" and "run_shell L spec parse_sql clock H inputs s = Some (r, out)"
  shows "run_shell L exec parse_sql clock H inputs x = Some (r, out)"
proof (cases "ed_new H")
  case (Inr h0)
  obtain loaded h where load: "ed_load H h0 = (loaded, h)" by fastforce
  let ?start = "\<lambda>sh. if loaded then sh else say [''No history found, starting fresh''] sh"
  obtain ss where ss: "main_loop L spec parse_sql clock H inputs (?start (shell_new s h)) = Some (r, ss)" "out = sh_out ss"
    using assms(2) Inr load by (auto simp: run_shell_def Let_def)
  have "related (?start (shell_new x h)) (?start (shell_new s h))"
    using assms(1) by (simp add: related_def shell_new_def say_def)
  from main_loop_related [OF this ss(1)] Inr load ss(2) show ?thesis by (auto simp: run_shell_def related_def Let_def)
qed (use assms(2) in \<open>simp add: run_shell_def\<close>)

end

section \<open>The program and its specification\<close>

text \<open>The specification of plans, where the engine has room for them.\<close>

definition spec_exec :: "'u ext_lib \<Rightarrow> regex \<Rightarrow> ('u, 'u sql_state) exec" where
  "spec_exec L rx now p s = (if plan_room L rx now p s then Some (plan_spec L rx now p s) else None)"

interpretation program: shell_simulation "execute L rx" "spec_exec L rx" "\<lambda>ex s. uuid_laws L \<and> exec_rel L ex s" for L rx
  by unfold_locales (auto simp: spec_exec_def intro: plan_rel split: if_splits)

text \<open>C1. The program implements its specification, from the lines typed to the lines printed.  Whatever is
  typed, if the shell of the specification answers (that is, if the engine has room for all plans), then the
  program ends or waits for input with the same outcome and has printed the same lines.  This holds for every
  data file of whole pages and every log that the program is started on, and what is printed does not depend on
  them: nothing survives a restart.\<close>

theorem shell_implements_spec:
  assumes "uuid_laws L" and "store_inv (page_file_open data)"
    and "page_count (page_file_open data) + MAX_KEYS + 1 < MAX_PAGES"
    and "run_shell L (spec_exec L rx) parse_sql clock H inputs (sql_new L catalog_new) = Some (r, out)"
  shows "shell_main L rx parse_sql clock H data log inputs = Some (r, out)"
proof -
  obtain e where e: "engine_new L (page_file_open data) (wal_writer_open log) = Ok e"
      "exec_rel L (executor_new e catalog_new) (sql_new L catalog_new)"
    using exec_rel_new [OF assms(2,3)] by blast
  from program.run_shell_related [of L "executor_new e catalog_new", OF _ assms(4)] e assms(1) show ?thesis
    by (simp add: shell_main_def)
qed

text \<open>A session, with the syntax trees of its lines.\<close>

definition sample_parser :: sql_parser where
  "sample_parser s =
     (if s = ''CREATE TABLE flags (f BOOLEAN)'' then
        Inr [SpCreateTable [SpIdent ''flags''] [\<lparr>spc_name = ''f'', spc_data_type = SpBool, spc_options = []\<rparr>]]
      else if s = ''INSERT INTO flags VALUES (true), (NULL)'' then
        Inr [SpInsert (SpTableName [SpIdent ''flags'']) []
          (Some \<lparr>spq_body = SpValues [[SpValue (SpBoolean True)], [SpValue SpNull]],
             spq_order_by = None, spq_limit_clause = None\<rparr>)]
      else if s = ''SELECT f FROM flags'' then
        Inr [SpQuery \<lparr>spq_body = SpSelect \<lparr>sps_distinct = False, sps_projection = [SpUnnamedExpr (SpIdentifier ''f'')],
          sps_from = [SpTable [SpIdent ''flags''] None], sps_selection = None\<rparr>, spq_order_by = None, spq_limit_clause = None\<rparr>]
      else Inl ''sql parser error'')"

definition sample_inputs :: "readline list" where
  "sample_inputs =
     [Line ''CREATE TABLE flags (f BOOLEAN)'', Line '' '', Line ''INSERT INTO flags VALUES (true), (NULL)'',
      Line ''SELECT f FROM flags'', Line ''EXIT'']"

lemma sample_parse:
  "parse sample_parser ''CREATE TABLE flags (f BOOLEAN)'' = Ok [StCreateTable \<lparr>ct_table_name = ''flags'',
     ct_columns = [\<lparr>cd_name = ''f'', cd_data_type = BooleanType, cd_nullable = True, cd_primary_key = False\<rparr>],
     ct_if_not_exists = False\<rparr>]"
  "parse sample_parser ''INSERT INTO flags VALUES (true), (NULL)'' = Ok [StInsert \<lparr>in_table_name = ''flags'',
     in_columns = None, in_values = [[Literal (VBoolean True)], [Literal VNull]]\<rparr>]"
  "parse sample_parser ''SELECT f FROM flags'' = Ok [StSelect \<lparr>sel_distinct = False,
     sel_columns = [SelectExpr (ColumnRef ''f'') None], sel_from = Table ''flags'' None,
     sel_where_clause = None, sel_order_by = [], sel_limit = None, sel_offset = None\<rparr>]"
  by (simp_all add: parse_def sample_parser_def parse_create_table_def parse_insert_def parse_select_def
      parse_order_by_def parse_limit_def convert_column_def object_name_to_string_def traverse_option_def)

lemma sample_trim:
  "trim ''CREATE TABLE flags (f BOOLEAN)'' = ''CREATE TABLE flags (f BOOLEAN)''" "trim '' '' = []"
  "trim ''INSERT INTO flags VALUES (true), (NULL)'' = ''INSERT INTO flags VALUES (true), (NULL)''"
  "trim ''SELECT f FROM flags'' = ''SELECT f FROM flags''" "trim ''EXIT'' = ''EXIT''"
  by (simp_all add: trim_def trim_start.simps strip_prefix_def white_space_def bytes_string_def char_of_def bit_0)

lemma sample_lower:
  "lower_char CHR ''C'' = CHR ''c''" "lower_char CHR ''E'' = CHR ''e''" "lower_char CHR ''I'' = CHR ''i''"
  "lower_char CHR ''S'' = CHR ''s''" "lower_char CHR ''T'' = CHR ''t''" "lower_char CHR ''X'' = CHR ''x''"
  by (simp_all add: lower_char_def char_of_def bit_0)

lemma sample_digit: "show_nat 2 = ''2''" "show_nat (Suc (Suc 0)) = ''2''"
  by (simp_all add: show_nat.simps char_of_def bit_0)

definition flags_schema :: table_schema where
  "flags_schema = \<lparr>ts_name = ''flags'',
     ts_columns = [\<lparr>cd_name = ''f'', cd_data_type = BooleanType, cd_nullable = True, cd_primary_key = False\<rparr>],
     ts_primary_key = Some []\<rparr>"

lemma sample_answers:
  "\<exists>s1 s2 s3. spec_exec sample_lib (\<lambda>p. Inl p) 5 (CreateTable flags_schema False) (sql_new sample_lib catalog_new) =
       Some (Ok ResCreateTable, s1) \<and>
     spec_exec sample_lib (\<lambda>p. Inl p) 6 (Insert ''flags'' None [[Literal (VBoolean True)], [Literal VNull]] flags_schema) s1 =
       Some (Ok (ResInsert 2), s2) \<and>
     spec_exec sample_lib (\<lambda>p. Inl p) 7 (Scan ''flags'' [''f''] None flags_schema) s2 =
       Some (Ok (ResSelect [''f''] [[VBoolean True], [VNull]]), s3)"
  by (simp add: spec_exec_def flags_schema_def sample_plan_simps sample_clock Let_def)

lemma sample_plan:
  "plan (StCreateTable \<lparr>ct_table_name = ''flags'',
     ct_columns = [\<lparr>cd_name = ''f'', cd_data_type = BooleanType, cd_nullable = True, cd_primary_key = False\<rparr>],
     ct_if_not_exists = False\<rparr>) catalog_new = (Ok (CreateTable flags_schema False), [''flags'' \<mapsto> flags_schema])"
  "plan (StInsert \<lparr>in_table_name = ''flags'',
     in_columns = None, in_values = [[Literal (VBoolean True)], [Literal VNull]]\<rparr>) [''flags'' \<mapsto> flags_schema] =
     (Ok (Insert ''flags'' None [[Literal (VBoolean True)], [Literal VNull]] flags_schema), [''flags'' \<mapsto> flags_schema])"
  "plan (StSelect \<lparr>sel_distinct = False,
     sel_columns = [SelectExpr (ColumnRef ''f'') None], sel_from = Table ''flags'' None,
     sel_where_clause = None, sel_order_by = [], sel_limit = None, sel_offset = None\<rparr>) [''flags'' \<mapsto> flags_schema] =
     (Ok (Scan ''flags'' [''f''] None flags_schema), [''flags'' \<mapsto> flags_schema])"
  by (simp_all add: plan_create_table_def plan_insert_def plan_select_def table_exists_def add_table_def create_schema_def
      catalog_new_def flags_schema_def get_table_def Let_def)

lemma sample_session:
  "run_shell sample_lib (spec_exec sample_lib (\<lambda>p. Inl p)) sample_parser (\<lambda>n. of_nat (n + 5)) sample_editor sample_inputs
     (sql_new sample_lib catalog_new) =
   Some (Ok (), banner @ [''No history found, starting fresh'', ''Table created'', ''Inserted 2 row(s)'',
     ''f'', ''-'', ''true'', ''NULL'', ''2 row(s) returned'', ''Goodbye!''])"
proof -
  obtain s1 s2 s3 where s: "spec_exec sample_lib (\<lambda>p. Inl p) 5 (CreateTable flags_schema False) (sql_new sample_lib catalog_new) =
       Some (Ok ResCreateTable, s1)"
     "spec_exec sample_lib (\<lambda>p. Inl p) 6 (Insert ''flags'' None [[Literal (VBoolean True)], [Literal VNull]] flags_schema) s1 =
       Some (Ok (ResInsert 2), s2)"
     "spec_exec sample_lib (\<lambda>p. Inl p) 7 (Scan ''flags'' [''f''] None flags_schema) s2 =
       Some (Ok (ResSelect [''f''] [[VBoolean True], [VNull]]), s3)"
    using sample_answers by blast
  show ?thesis
    by (simp add: s run_shell_def sample_editor_def sample_inputs_def shell_new_def sample_trim sample_lower
      say_def leave_def execute_query_def sample_parse run_statement_def sample_plan Let_def sample_digit
      del: plan.simps)
qed

theorem shell_implements_spec_witness:
  "shell_main sample_lib (\<lambda>p. Inl p) sample_parser (\<lambda>n. of_nat (n + 5)) sample_editor []
     \<lparr>wal_log = [], wal_synced = 0\<rparr> sample_inputs =
   Some (Ok (), banner @ [''No history found, starting fresh'', ''Table created'', ''Inserted 2 row(s)'',
     ''f'', ''-'', ''true'', ''NULL'', ''2 row(s) returned'', ''Goodbye!''])"
  by (rule shell_implements_spec [OF sample_lib_laws _ _ sample_session])
    (simp_all add: store_inv_def wf_page_file_def page_count_def page_file_open_def MAX_KEYS_def MAX_PAGES_def)

end
