(* ===== verification/Sql_Keyless.thy ===== *)
theory Sql_Keyless
  imports Sql_Store
begin

text \<open>
  Tables without a primary key, from the statement to the pages and back.  The planner gives such a table an
  empty list of key columns, so all its rows have the empty key, the one that full scans look for.  What was
  inserted is selected in the order of insertion; a deletion of all rows removes the first one only.
\<close>

section \<open>The rows of a fresh table\<close>

text \<open>The chain of versions after the values were inserted under one key by one transaction, newest first,
  and the rows: each page has the versions up to its own.\<close>

definition versions_of :: "'u tx_id \<Rightarrow> bytes list \<Rightarrow> 'u version_chain" where
  "versions_of t vs = map (\<lambda>v. \<lparr>rv_created_by = t, rv_deleted_by = None, rv_value = v\<rparr>) (rev vs)"

definition keyless_rows :: "string \<Rightarrow> 'u tx_id \<Rightarrow> bytes list \<Rightarrow> (bytes \<times> 'u version_chain) list" where
  "keyless_rows n t vs = map (\<lambda>i. (create_composite_key n [], versions_of t (take (Suc i) vs))) [0..<length vs]"

lemma keyless_rows_snoc:
  "keyless_rows n t (vs @ [v]) = keyless_rows n t vs @ [(create_composite_key n [], versions_of t (vs @ [v]))]"
  by (simp add: keyless_rows_def)

lemma add_row_same_key: "\<forall>r \<in> set rows. fst r = ck \<Longrightarrow> add_row ck v rows = rows @ [(ck, v)]"
  by (simp add: add_row_def takeWhile_eq_all_conv [THEN iffD2] dropWhile_eq_Nil_conv [THEN iffD2])

lemma keyless_keys: "r \<in> set (keyless_rows n t vs) \<Longrightarrow> fst r = create_composite_key n []"
  by (auto simp: keyless_rows_def)

lemma versions_of_snoc: "versions_of (t_tx_id tx) (vs @ [v]) = new_chain v tx (versions_of (t_tx_id tx) vs)"
  by (simp add: versions_of_def new_chain_def)

text \<open>The state after insertions into a table that nothing was inserted into before.\<close>

definition keyless_table :: "string \<Rightarrow> 'u tx_id \<Rightarrow> bytes list \<Rightarrow> 'u row_store \<Rightarrow> bool" where
  "keyless_table n t vs s \<longleftrightarrow> st_rows s = keyless_rows n t vs \<and>
     (case st_tables s n of None \<Rightarrow> [] | Some T \<Rightarrow> (case mt_rows T [] of None \<Rightarrow> [] | Some c \<Rightarrow> c)) = versions_of t vs"

lemma keyless_insert:
  assumes "keyless_table n (t_tx_id tx) vs s"
  shows "keyless_table n (t_tx_id tx) (vs @ [v]) (snd (store_step L (OpInsert n [] v tx) s))"
  using assms add_row_same_key [of "st_rows s" "create_composite_key n []"] keyless_keys [of _ n "t_tx_id tx" vs]
  by (auto simp: keyless_table_def store_chain_def keyless_rows_snoc versions_of_snoc mvcc_insert_def mvcc_new_def new_chain_def
      split: option.splits)

lemma keyless_inserts:
  assumes "keyless_table n (t_tx_id tx) [] s"
  shows "keyless_table n (t_tx_id tx) vs (snd (run_spec (store_step L) (insert_script n tx (map (Pair []) vs)) s)) \<and>
    st_tx (snd (run_spec (store_step L) (insert_script n tx (map (Pair []) vs)) s)) = st_tx s"
proof (induction vs rule: rev_induct)
  case Nil
  show ?case using assms by (simp add: insert_script_def)
next
  case (snoc v vs)
  then show ?case using keyless_insert [of n tx vs _ v L]
    by (simp add: insert_script_def run_spec_append Let_def split_def del: store_step.simps) simp
qed

text \<open>There is room while the versions fit into a page and the entries into a leaf.\<close>

definition keyless_room :: "string \<Rightarrow> bytes list \<Rightarrow> bool" where
  "keyless_room n vs \<longleftrightarrow> length vs \<le> MAX_KEYS \<and>
     4 + sum_list (map (\<lambda>v. 21 + length v) vs) \<le> MAX_PAYLOAD \<and>
     20 + length vs * (11 + length (string_bytes n)) \<le> MAX_PAYLOAD"

lemma keyless_room_snoc: "keyless_room n (vs @ [v]) \<Longrightarrow> keyless_room n vs"
  by (simp add: keyless_room_def)

lemma versions_of_fit:
  assumes "uuid_laws L"
  shows "versions_fit L (versions_of t vs) \<longleftrightarrow> 4 + sum_list (map (\<lambda>v. 21 + length v) vs) \<le> MAX_PAYLOAD"
proof -
  have "length (concat (map (put_version L) (versions_of t vs))) = sum_list (map (\<lambda>v. 21 + length v) vs)"
    by (induction vs) (simp_all add: versions_of_def length_put_version [OF assms] length_put_deleted [OF assms])
  then show ?thesis by (simp add: versions_fit_def)
qed

lemma keyless_allowed:
  assumes L: "uuid_laws L" and s: "keyless_table n (t_tx_id tx) [] s"
  shows "keyless_room n vs \<Longrightarrow>
    allowed_run (store_room L) (store_step L) (insert_script n tx (map (Pair []) vs)) s"
proof (induction vs rule: rev_induct)
  case Nil
  show ?case by (simp add: insert_script_def)
next
  case (snoc v vs)
  let ?s = "snd (run_spec (store_step L) (insert_script n tx (map (Pair []) vs)) s)"
  have k: "keyless_table n (t_tx_id tx) vs ?s" using keyless_inserts [OF s] by blast
  have "sum_list (map (\<lambda>r. 10 + length (fst r)) (st_rows ?s)) = length vs * (11 + length (string_bytes n))"
    using k by (simp add: keyless_table_def keyless_rows_def create_composite_key_def comp_def sum_list_triv)
  moreover have "versions_fit L (store_chain n [] v tx ?s)"
    using k snoc.prems versions_of_fit [OF L, of "t_tx_id tx" "vs @ [v]"]
    by (simp add: keyless_table_def store_chain_def versions_of_snoc keyless_room_def)
  moreover have "length (st_rows ?s) = length vs" using k by (simp add: keyless_table_def keyless_rows_def)
  ultimately have "store_room L (OpInsert n [] v tx) ?s"
    using snoc.prems by (simp add: keyless_room_def create_composite_key_def)
  with snoc show ?case by (simp add: insert_script_def allowed_run_append keyless_room_snoc)
qed

section \<open>What statements see of it\<close>

lemma versions_of_visible:
  assumes "tx_le L t (t_snapshot_tx tx)" and "i < length vs"
  shows "scan_value L (versions_of t (take (Suc i) vs)) tx = Some (vs ! i)"
  using assms by (simp add: versions_of_def take_Suc_conv_app_nth is_visible_def)

lemma map_filter_Some: "(\<And>x. x \<in> set xs \<Longrightarrow> f x = Some (g x)) \<Longrightarrow> List.map_filter f xs = map g xs"
  by (induction xs) (simp_all add: map_filter_simps)

lemma keyless_values:
  assumes "st_rows s = keyless_rows n t vs" and "tx_le L t (t_snapshot_tx tx)"
  shows "table_values L n tx s = vs"
proof -
  let ?f = "\<lambda>(ck, c). if ck = create_composite_key n [] then scan_value L c tx else None"
  have "table_values L n tx s =
      List.map_filter (\<lambda>i. ?f (create_composite_key n [], versions_of t (take (Suc i) vs))) [0..<length vs]"
    by (simp add: table_values_def assms(1) keyless_rows_def List.map_filter_def filter_map comp_def)
  also have "\<dots> = map ((!) vs) [0..<length vs]"
    by (rule map_filter_Some) (use versions_of_visible [OF assms(2)] in simp)
  finally show ?thesis by (simp add: map_nth)
qed

text \<open>Deletions under the empty key mark the first row only, however many there are.\<close>

lemma keyless_rows_Cons: "\<exists>rest. keyless_rows n t (v # vs) = (create_composite_key n [], versions_of t [v]) # rest"
  by (simp add: keyless_rows_def upt_conv_Cons del: upt_Suc)

lemma marked_single: "marked_chain L tx (marked_chain L tx [x]) = marked_chain L tx [x]"
  by (auto simp: marked_chain_def)

lemma deletes_marked:
  assumes "st_rows s = (create_composite_key n [], c) # rest" and "marked_chain L tx c = c" and "versions_fit L c"
  shows "snd (run_spec (store_step L) (replicate k (OpDelete n [] tx)) s) = s \<and>
    allowed_run (store_room L) (store_step L) (replicate k (OpDelete n [] tx)) s"
proof (induction k)
  case (Suc k)
  have "snd (store_step L (OpDelete n [] tx) s) = s" using assms by simp
  with Suc assms show ?case by (simp add: snd_run_spec_Cons del: run_spec.simps store_step.simps)
qed simp

lemma deletes_first:
  assumes "st_rows s = (create_composite_key n [], [x]) # rest" and "versions_fit L (marked_chain L tx [x])"
  shows "snd (run_spec (store_step L) (replicate (Suc k) (OpDelete n [] tx)) s) =
      s\<lparr>st_rows := (create_composite_key n [], marked_chain L tx [x]) # rest\<rparr> \<and>
    allowed_run (store_room L) (store_step L) (replicate (Suc k) (OpDelete n [] tx)) s"
proof -
  let ?s = "s\<lparr>st_rows := (create_composite_key n [], marked_chain L tx [x]) # rest\<rparr>"
  have "snd (store_step L (OpDelete n [] tx) s) = ?s" using assms(1) by simp
  moreover have "store_room L (OpDelete n [] tx) s" using assms by simp
  ultimately show ?thesis
    using deletes_marked [of ?s n "marked_chain L tx [x]" rest L tx k] assms(2) marked_single [of L tx x]
    by (simp add: snd_run_spec_Cons del: run_spec.simps store_step.simps)
qed

lemma table_values_Cons:
  "table_values L n tx (s\<lparr>st_rows := (create_composite_key n [], c) # rest\<rparr>) =
     (case scan_value L c tx of None \<Rightarrow> [] | Some v \<Rightarrow> [v]) @ table_values L n tx (s\<lparr>st_rows := rest\<rparr>)"
  by (simp add: table_values_def map_filter_simps split: option.splits)

section \<open>The transactions of consecutive statements\<close>

text \<open>The next transaction takes the identifier \<open>t\<close> as its snapshot.\<close>

definition tm_after :: "'u \<Rightarrow> 'u tx_manager \<Rightarrow> bool" where
  "tm_after t m \<longleftrightarrow> 1 < unat (tm_next_tx m) \<and> unat (tm_next_tx m) \<le> length (tm_registry m) \<and>
     tm_registry m ! (unat (tm_next_tx m) - 1) = Some (TxId t)"

lemma tm_after_snapshot:
  assumes "tm_after t m" and "tm_begin L t' ro m = (tx, m')"
  shows "t_snapshot_tx tx = TxId t"
  using assms by (auto simp: tm_after_def tm_begin_def Let_def grow_registry_def nth_append word_less_nat_alt)

lemma tm_begin_end:
  assumes "tm_begin L t ro m = (tx, m')" and "1 \<le> unat (tm_next_tx m)" and "unat (tm_next_tx m) < 2 ^ 64 - 1"
  shows "\<exists>m''. tm_commit L (TxId t) m' = (Ok (), m'') \<and> tm_after t m'' \<and> unat (tm_next_tx m'') = Suc (unat (tm_next_tx m))"
    and "\<exists>m''. tm_abort L (TxId t) m' = (Ok (), m'') \<and> tm_after t m''"
proof -
  have "unat (tm_next_tx m + 1) = Suc (unat (tm_next_tx m))"
    using assms(3) by (simp add: unat_word_ariths)
  with assms show "\<exists>m''. tm_commit L (TxId t) m' = (Ok (), m'') \<and> tm_after t m'' \<and> unat (tm_next_tx m'') = Suc (unat (tm_next_tx m))"
    and "\<exists>m''. tm_abort L (TxId t) m' = (Ok (), m'') \<and> tm_after t m''"
    by (auto simp: tm_after_def tm_begin_def tm_commit_def tm_abort_def Let_def grow_registry_def nth_list_update)
qed

text \<open>Between statements outside an explicit transaction.\<close>

definition sql_idle :: "'u sql_state \<Rightarrow> bool" where
  "sql_idle s \<longleftrightarrow> sq_tx s = None \<and> sq_auto s \<and>
     1 \<le> unat (tm_next_tx (st_tx (sq_store s))) \<and> unat (tm_next_tx (st_tx (sq_store s))) < 2 ^ 64 - 1"

lemma idle_begin:
  assumes "sql_idle s"
  obtains tx m where "sql_begin L t s = (tx, s\<lparr>sq_store := (sq_store s)\<lparr>st_tx := m\<rparr>\<rparr>)"
    "tm_begin L t True (st_tx (sq_store s)) = (tx, m)" "t_tx_id tx = TxId t"
proof -
  obtain tx m where m: "tm_begin L t True (st_tx (sq_store s)) = (tx, m)" by fastforce
  then have "t_tx_id tx = TxId t" by (auto simp: tm_begin_def Let_def)
  with m assms that show ?thesis by (simp add: sql_begin_def sql_idle_def)
qed

lemma idle_data:
  assumes "sql_idle s" and b: "tm_begin L t True (st_tx (sq_store s)) = (tx, m)" "t_tx_id tx = TxId t"
    and ops: "st_tx (snd (run_spec (store_step L) ops ((sq_store s)\<lparr>st_tx := m\<rparr>))) = m"
  shows "\<exists>m'. tm_after t m' \<and> unat (tm_next_tx m') = Suc (unat (tm_next_tx (st_tx (sq_store s)))) \<and>
    sql_data L tx ops (Ok ()) r (s\<lparr>sq_store := (sq_store s)\<lparr>st_tx := m\<rparr>\<rparr>) =
      (Ok r, s\<lparr>sq_store := (snd (run_spec (store_step L) ops ((sq_store s)\<lparr>st_tx := m\<rparr>)))\<lparr>st_tx := m'\<rparr>\<rparr>)"
proof -
  obtain m' where m': "tm_commit L (TxId t) m = (Ok (), m')" "tm_after t m'"
      "unat (tm_next_tx m') = Suc (unat (tm_next_tx (st_tx (sq_store s))))"
    using tm_begin_end(1) [OF b(1)] assms(1) by (auto simp: sql_idle_def)
  with assms show ?thesis by (intro exI [of _ m']) (simp add: sql_data_def sql_finish_def sql_idle_def)
qed

section \<open>Statements on a table without a primary key\<close>

definition row_bytes :: "sql_value list \<Rightarrow> bytes" where
  "row_bytes r = concat (map to_bytes r)"

text \<open>Rows that their encoding preserves, by the round trip of rows.\<close>

definition storable :: "table_schema \<Rightarrow> sql_value list \<Rightarrow> bool" where
  "storable schema r \<longleftrightarrow> list_all2 fits (ts_columns schema) r \<and>
     (\<forall>v \<in> set r. value_ok v) \<and> (\<forall>v \<in> set (butlast r). \<not> is_boolean v)"

definition keyless :: "table_schema \<Rightarrow> bool" where
  "keyless schema \<longleftrightarrow> ts_primary_key schema = Some [] \<and> distinct (map cd_name (ts_columns schema))"

lemma encode_storable:
  assumes "keyless schema" and "storable schema r"
  shows "encode_row rx schema None (map Literal r) = Ok ([], row_bytes r)"
  using serialize_columns_literals [of schema r 0 rx] assms
  by (simp add: encode_row_def build_row_key_def serialize_row_def keyless_def storable_def row_bytes_def)

lemma decode_storable: "storable schema r \<Longrightarrow> deserialize_row schema (row_bytes r) = Ok r"
  using deserialize_from_rows [of r "[]"] list_all2_lengthD [of fits "ts_columns schema" r]
  by (simp add: storable_def deserialize_row_def row_bytes_def)

lemma collect_Ok: "(\<And>x. x \<in> set xs \<Longrightarrow> f x = Ok (g x)) \<Longrightarrow> collect f xs = (map g xs, Ok ())"
  by (induction xs) auto

lemma collect_storable:
  assumes "keyless schema" and "\<forall>r \<in> set rows. storable schema r"
  shows "collect (encode_row rx schema None) (map (map Literal) rows) = (map (Pair []) (map row_bytes rows), Ok ())"
  using assms(2) encode_storable [OF assms(1)] by (induction rows) auto

lemma select_storable:
  "\<forall>r \<in> set rows. storable schema r \<Longrightarrow>
   select_rows rx schema [] None (map (Pair k) (map row_bytes rows)) = Ok rows"
  by (induction rows) (auto simp: decode_storable select_row_def include_row_def)

lemma keyless_insert_plan:
  assumes L: "uuid_laws L" and idle: "sql_idle s" and new: "keyless_table n (TxId t) [] (sq_store s)"
    and schema: "keyless schema" "\<forall>r \<in> set rows. storable schema r" and room: "keyless_room n (map row_bytes rows)"
  shows "plan_room L rx t (Insert n None (map (map Literal) rows) schema) s \<and>
    (\<exists>s'. plan_spec L rx t (Insert n None (map (map Literal) rows) schema) s = (Ok (ResInsert (length rows)), s') \<and>
       st_rows (sq_store s') = keyless_rows n (TxId t) (map row_bytes rows) \<and> sq_tx s' = None \<and> sq_auto s' \<and>
       tm_after t (st_tx (sq_store s')) \<and>
       unat (tm_next_tx (st_tx (sq_store s'))) = Suc (unat (tm_next_tx (st_tx (sq_store s)))))"
proof -
  let ?vs = "map row_bytes rows"
  obtain tx m where b: "sql_begin L t s = (tx, s\<lparr>sq_store := (sq_store s)\<lparr>st_tx := m\<rparr>\<rparr>)"
      "tm_begin L t True (st_tx (sq_store s)) = (tx, m)" "t_tx_id tx = TxId t"
    by (rule idle_begin [OF idle])
  have c: "collect (encode_row rx schema None) (map (map Literal) rows) = (map (Pair []) ?vs, Ok ())"
    by (rule collect_storable [OF schema])
  have new': "keyless_table n (t_tx_id tx) [] ((sq_store s)\<lparr>st_tx := m\<rparr>)" using new b(3) by (simp add: keyless_table_def)
  note ins = keyless_inserts [OF new', of ?vs L]
  then obtain m' where "tm_after t m'" "unat (tm_next_tx m') = Suc (unat (tm_next_tx (st_tx (sq_store s))))"
    "sql_data L tx (insert_script n tx (map (Pair []) ?vs)) (Ok ()) (ResInsert (length rows)) (s\<lparr>sq_store := (sq_store s)\<lparr>st_tx := m\<rparr>\<rparr>) =
      (Ok (ResInsert (length rows) :: 'a query_result),
       s\<lparr>sq_store := (snd (run_spec (store_step L) (insert_script n tx (map (Pair []) ?vs)) ((sq_store s)\<lparr>st_tx := m\<rparr>)))\<lparr>st_tx := m'\<rparr>\<rparr>)"
    using idle_data [OF idle b(2,3), of "insert_script n tx (map (Pair []) ?vs)" "ResInsert (length rows)"] by auto
  with b(1,3) c ins idle keyless_allowed [OF L new' room] show ?thesis
    by (auto simp: keyless_table_def sql_idle_def simp del: map_map)
qed

lemma keyless_scan_plan:
  assumes "sq_tx s = None" and "tm_after t (st_tx (sq_store s))" and "\<forall>r \<in> set rows. storable schema r"
    and "\<And>tx. t_snapshot_tx tx = TxId t \<Longrightarrow> table_values L n tx (sq_store s) = map row_bytes rows"
  shows "fst (plan_spec L rx t' (Scan n [] None schema) s) = Ok (ResSelect [] rows)"
proof -
  obtain tx m where m: "tm_begin L t' True (st_tx (sq_store s)) = (tx, m)" by fastforce
  have "t_snapshot_tx tx = TxId t" by (rule tm_after_snapshot [OF assms(2) m])
  from assms(4) [OF this] have "table_values L n tx ((sq_store s)\<lparr>st_tx := m\<rparr>) = map row_bytes rows"
    by (simp add: table_values_def)
  with m assms(1) select_storable [OF assms(3)] show ?thesis by (simp add: sql_begin_def del: map_map)
qed

lemma tx_le_refl [simp]: "tx_le L t t"
  by (simp add: tx_le_key)

lemma first_deleted_values:
  assumes "keyless_rows n t (v # vs) = (create_composite_key n [], [x]) # rest"
    and "tx_le L t (t_snapshot_tx tx)" and "tx_le L d (t_snapshot_tx tx)"
  shows "table_values L n tx (s\<lparr>st_rows := (create_composite_key n [], [x\<lparr>rv_deleted_by := Some d\<rparr>]) # rest\<rparr>) = vs"
proof -
  let ?s = "s\<lparr>st_rows := keyless_rows n t (v # vs)\<rparr>"
  have x: "x = \<lparr>rv_created_by = t, rv_deleted_by = None, rv_value = v\<rparr>"
    using keyless_rows_Cons [of n t v vs] assms(1) by (auto simp: versions_of_def)
  have vis: "scan_value L [x] tx = Some v" "scan_value L [x\<lparr>rv_deleted_by := Some d\<rparr>] tx = None"
    using assms(2,3) by (simp_all add: is_visible_def x)
  have "table_values L n tx ?s = v # vs" by (rule keyless_values [where t = t]) (simp_all add: assms(2))
  then have "table_values L n tx (s\<lparr>st_rows := rest\<rparr>) = vs" unfolding assms(1) table_values_Cons vis by simp
  then show ?thesis unfolding table_values_Cons vis by simp
qed

text \<open>Deleting everything marks the first row, once for each row of the table.\<close>

lemma keyless_delete_plan:
  assumes L: "uuid_laws L" and idle: "sql_idle s" and after: "tm_after t1 (st_tx (sq_store s))"
    and rows: "st_rows (sq_store s) = keyless_rows n (TxId t1) (map row_bytes (r # rows))"
    and n: "table_name_ok n" and store: "\<forall>r' \<in> set (r # rows). storable schema r'"
    and fit: "41 + length (row_bytes r) \<le> MAX_PAYLOAD" and clock: "tx_le L (TxId t1) (TxId t2)"
  shows "plan_room L rx t2 (Delete n None schema) s \<and>
    (\<exists>s'. plan_spec L rx t2 (Delete n None schema) s = (Ok (ResDelete (Suc (length rows))), s') \<and>
       sq_tx s' = None \<and> tm_after t2 (st_tx (sq_store s')) \<and>
       (\<forall>tx. t_snapshot_tx tx = TxId t2 \<longrightarrow> table_values L n tx (sq_store s') = map row_bytes rows))"
proof -
  let ?ck = "create_composite_key n []" and ?vs = "map row_bytes (r # rows)"
  let ?x = "\<lparr>rv_created_by = TxId t1, rv_deleted_by = None, rv_value = row_bytes r\<rparr>"
  obtain tx m where b: "sql_begin L t2 s = (tx, s\<lparr>sq_store := (sq_store s)\<lparr>st_tx := m\<rparr>\<rparr>)"
      "tm_begin L t2 True (st_tx (sq_store s)) = (tx, m)" "t_tx_id tx = TxId t2"
    by (rule idle_begin [OF idle])
  let ?st = "(sq_store s)\<lparr>st_tx := m\<rparr>"
  have snap: "t_snapshot_tx tx = TxId t1" by (rule tm_after_snapshot [OF after b(2)])
  have "table_values L n tx ?st = ?vs"
    by (rule keyless_values [where t = "TxId t1"]) (simp_all add: rows snap)
  moreover have "collect (row_matches rx None schema) ?vs = (map (\<lambda>_. True) ?vs, Ok ())"
    using store by (intro collect_Ok) (auto simp: row_matches_def decode_storable include_row_def)
  ultimately have c: "collect (row_matches rx None schema) (table_values L n tx ?st) = (map (\<lambda>_. True) ?vs, Ok ())"
    by simp
  have script: "delete_script n tx (map (\<lambda>_. True) ?vs) = replicate (Suc (length rows)) (OpDelete n [] tx)"
    by (simp add: delete_script_def comp_def)
  obtain rest where rest: "keyless_rows n (TxId t1) ?vs = (?ck, [?x]) # rest"
    using keyless_rows_Cons [of n "TxId t1" "row_bytes r"] by (auto simp: versions_of_def)
  have mk: "marked_chain L tx [?x] = [?x\<lparr>rv_deleted_by := Some (TxId t2)\<rparr>]"
    using snap b(3) by (simp add: marked_chain_def is_visible_def)
  then have "versions_fit L (marked_chain L tx [?x])"
    using fit by (simp add: versions_fit_def length_put_version [OF L] length_put_deleted [OF L])
  note del = deletes_first [of ?st n ?x rest L tx "length rows", OF _ this]
  have run: "snd (run_spec (store_step L) (replicate (Suc (length rows)) (OpDelete n [] tx)) ?st) =
      ?st\<lparr>st_rows := (?ck, marked_chain L tx [?x]) # rest\<rparr>"
      "allowed_run (store_room L) (store_step L) (replicate (Suc (length rows)) (OpDelete n [] tx)) ?st"
    using del rows rest by simp_all
  let ?st' = "?st\<lparr>st_rows := (?ck, marked_chain L tx [?x]) # rest\<rparr>"
  obtain m' where m': "tm_after t2 m'" "sql_data L tx (replicate (Suc (length rows)) (OpDelete n [] tx)) (Ok ())
      (ResDelete (Suc (length rows)) :: 'a query_result) (s\<lparr>sq_store := ?st\<rparr>) =
    (Ok (ResDelete (Suc (length rows))), s\<lparr>sq_store := ?st'\<lparr>st_tx := m'\<rparr>\<rparr>)"
    using idle_data [OF idle b(2,3), of "replicate (Suc (length rows)) (OpDelete n [] tx)"
        "ResDelete (Suc (length rows)) :: 'a query_result"] run(1) by auto
  have "table_values L n tx' (?st'\<lparr>st_tx := m'\<rparr>) = map row_bytes rows" if "t_snapshot_tx tx' = TxId t2" for tx'
    using first_deleted_values [of n "TxId t1" "row_bytes r" "map row_bytes rows" "?x" rest L tx' "TxId t2" ?st] rest mk that clock
    by (simp add: table_values_def)
  moreover have "plan_spec L rx t2 (Delete n None schema) s =
      (Ok (ResDelete (Suc (length rows))), s\<lparr>sq_store := ?st'\<lparr>st_tx := m'\<rparr>\<rparr>)"
    using b(1) c script m'(2) by (simp add: comp_def)
  moreover have "plan_room L rx t2 (Delete n None schema) s" using b(1) c script run(2) n by simp
  ultimately show ?thesis using m'(1) idle by (simp add: sql_idle_def)
qed

section \<open>Sessions on a new database\<close>

lemma sql_new_idle: "sql_idle (sql_new L c)" "keyless_table n t [] (sq_store (sql_new L c))"
  by (simp_all add: sql_idle_def sql_new_def store_new_def tm_new_def keyless_table_def keyless_rows_def versions_of_def)

text \<open>C4. What was inserted into a table without a primary key is selected, all of it and in the order of
  insertion: on a new database, an \<^verbatim>\<open>INSERT\<close> of rows that survive their encoding and that there is room for,
  followed by a \<^verbatim>\<open>SELECT *\<close>, returns the rows as they were given, whatever the clock shows.\<close>

theorem keyless_insert_select:
  assumes "uuid_laws L" and "store_inv f" and "page_count f + MAX_KEYS + 1 < MAX_PAGES"
    and "keyless schema" and "\<forall>r \<in> set rows. storable schema r"
    and "table_name_ok n" and "keyless_room n (map row_bytes rows)"
  shows "\<exists>e ex'. engine_new L f w = Ok e \<and>
     run_ops (\<lambda>(now, p). execute L rx now p)
       [(t1, Insert n None (map (map Literal) rows) schema), (t2, Scan n [] None schema)] (executor_new e c) =
     Some ([Ok (ResInsert (length rows)), Ok (ResSelect [] rows)], ex')"
proof -
  let ?ins = "Insert n None (map (map Literal) rows) schema" and ?scan = "Scan n [] None schema"
  obtain e where e: "engine_new L f w = Ok e" "exec_rel L (executor_new e c) (sql_new L c)"
    using exec_rel_new [OF assms(2,3)] by blast
  obtain s where room: "plan_room L rx t1 ?ins (sql_new L c)"
    and s: "plan_spec L rx t1 ?ins (sql_new L c) = (Ok (ResInsert (length rows)), s)"
      "st_rows (sq_store s) = keyless_rows n (TxId t1) (map row_bytes rows)" "sq_tx s = None"
      "tm_after t1 (st_tx (sq_store s))"
    using keyless_insert_plan [OF assms(1) sql_new_idle assms(4,5,7), of rx] by blast
  have "fst (plan_spec L rx t2 ?scan s) = Ok (ResSelect [] rows)"
    by (rule keyless_scan_plan [OF s(3,4) assms(5)], rule keyless_values [OF s(2)]) simp
  with sql_executor.run [of L "executor_new e c" "sql_new L c" rx "[(t1, ?ins), (t2, ?scan)]"] e assms(1,6) room s(1)
  show ?thesis by (auto simp del: plan_spec.simps plan_room.simps(1) execute.simps split: prod.splits)
qed

definition note_schema :: table_schema where
  "note_schema = \<lparr>ts_name = ''notes'',
     ts_columns =
       [\<lparr>cd_name = ''id'', cd_data_type = IntegerType, cd_nullable = False, cd_primary_key = False\<rparr>,
        \<lparr>cd_name = ''body'', cd_data_type = TextType, cd_nullable = True, cd_primary_key = False\<rparr>],
     ts_primary_key = Some []\<rparr>"

definition note_rows :: "sql_value list list" where
  "note_rows = [[VInteger 1, VText ''ann''], [VInteger 2, VNull], [VInteger 1, VText ''bob'']]"

lemma note_schema_keyless: "keyless note_schema"
  by (simp add: keyless_def note_schema_def)

lemma note_rows_storable: "\<forall>r \<in> set note_rows. storable note_schema r"
  by (simp add: note_rows_def note_schema_def storable_def fits_def string_bytes_def)

lemma note_rows_room: "keyless_room ''notes'' (map row_bytes note_rows)" "table_name_ok ''notes''"
  by (simp_all add: keyless_room_def note_rows_def row_bytes_def string_bytes_def MAX_KEYS_def MAX_PAYLOAD_def table_name_ok_def)

theorem keyless_insert_select_witness:
  "\<exists>e ex'. engine_new sample_lib sample_file sample_log = Ok e \<and>
     run_ops (\<lambda>(now, p). execute sample_lib (\<lambda>p. Inl p) now p)
       [(5, Insert ''notes'' None (map (map Literal) note_rows) note_schema), (6, Scan ''notes'' [] None note_schema)]
       (executor_new e catalog_new) =
     Some ([Ok (ResInsert (length note_rows)), Ok (ResSelect [] note_rows)], ex')"
  by (rule keyless_insert_select [OF sample_lib_laws sample_file_inv sample_file_room note_schema_keyless
        note_rows_storable note_rows_room(2,1)])

text \<open>C6. A deletion of all rows of a table without a primary key removes the first row only.  On a new
  database, after an \<^verbatim>\<open>INSERT\<close> as above, a \<^verbatim>\<open>DELETE\<close> without a condition reports every row as deleted, and a
  \<^verbatim>\<open>SELECT *\<close> still returns all rows but the first, provided that the clock did not run backwards.\<close>

theorem keyless_delete_first:
  assumes "uuid_laws L" and "store_inv f" and "page_count f + MAX_KEYS + 1 < MAX_PAGES"
    and "keyless schema" and "\<forall>r' \<in> set (r # rows). storable schema r'"
    and "table_name_ok n" and "keyless_room n (map row_bytes (r # rows))"
    and "41 + length (row_bytes r) \<le> MAX_PAYLOAD" and "tx_le L (TxId t1) (TxId t2)"
  shows "\<exists>e ex'. engine_new L f w = Ok e \<and>
     run_ops (\<lambda>(now, p). execute L rx now p)
       [(t1, Insert n None (map (map Literal) (r # rows)) schema), (t2, Delete n None schema), (t3, Scan n [] None schema)]
       (executor_new e c) =
     Some ([Ok (ResInsert (Suc (length rows))), Ok (ResDelete (Suc (length rows))), Ok (ResSelect [] rows)], ex')"
proof -
  let ?ins = "Insert n None (map (map Literal) (r # rows)) schema" and ?scan = "Scan n [] None schema"
    and ?del = "Delete n None schema"
  obtain e where e: "engine_new L f w = Ok e" "exec_rel L (executor_new e c) (sql_new L c)"
    using exec_rel_new [OF assms(2,3)] by blast
  obtain s where room: "plan_room L rx t1 ?ins (sql_new L c)"
    and s: "plan_spec L rx t1 ?ins (sql_new L c) = (Ok (ResInsert (length (r # rows))), s)"
      "st_rows (sq_store s) = keyless_rows n (TxId t1) (map row_bytes (r # rows))" "sq_tx s = None" "sq_auto s"
      "tm_after t1 (st_tx (sq_store s))"
      "unat (tm_next_tx (st_tx (sq_store s))) = Suc (unat (tm_next_tx (st_tx (sq_store (sql_new L c)))))"
    using keyless_insert_plan [OF assms(1) sql_new_idle assms(4,5,7), of rx] by blast
  have idle: "sql_idle s" using s(3,4,6) by (simp add: sql_idle_def sql_new_def store_new_def tm_new_def)
  obtain s' where room': "plan_room L rx t2 ?del s"
    and s': "plan_spec L rx t2 ?del s = (Ok (ResDelete (Suc (length rows))), s')" "sq_tx s' = None"
      "tm_after t2 (st_tx (sq_store s'))"
      "\<And>tx. t_snapshot_tx tx = TxId t2 \<Longrightarrow> table_values L n tx (sq_store s') = map row_bytes rows"
    using keyless_delete_plan [OF assms(1) idle s(5,2) assms(6,5,8,9), of rx] by blast
  have "fst (plan_spec L rx t3 ?scan s') = Ok (ResSelect [] rows)"
    by (rule keyless_scan_plan [OF s'(2,3) _ s'(4)]) (use assms(5) in auto)
  with sql_executor.run [of L "executor_new e c" "sql_new L c" rx "[(t1, ?ins), (t2, ?del), (t3, ?scan)]"]
    e assms(1,6) room s(1) room' s'(1)
  show ?thesis by (auto simp del: plan_spec.simps plan_room.simps(1,3) execute.simps split: prod.splits)
qed

theorem keyless_delete_first_witness:
  "\<exists>e ex'. engine_new sample_lib sample_file sample_log = Ok e \<and>
     run_ops (\<lambda>(now, p). execute sample_lib (\<lambda>p. Inl p) now p)
       [(5, Insert ''notes'' None (map (map Literal) note_rows) note_schema), (6, Delete ''notes'' None note_schema),
        (7, Scan ''notes'' [] None note_schema)]
       (executor_new e catalog_new) =
     Some ([Ok (ResInsert 3), Ok (ResDelete 3), Ok (ResSelect [] [[VInteger 2, VNull], [VInteger 1, VText ''bob'']])], ex')"
proof -
  have rows: "note_rows = [VInteger 1, VText ''ann''] # [[VInteger 2, VNull], [VInteger 1, VText ''bob'']]"
    by (simp add: note_rows_def)
  have "tx_le sample_lib (TxId 5) (TxId 6)"
    by (simp add: tx_le_key tx_key_def extract_timestamp_def sample_lib_def)
  moreover have "41 + length (row_bytes [VInteger 1, VText ''ann'']) \<le> MAX_PAYLOAD"
    by (simp add: row_bytes_def string_bytes_def MAX_PAYLOAD_def)
  ultimately show ?thesis
    using keyless_delete_first [OF sample_lib_laws sample_file_inv sample_file_room note_schema_keyless
        note_rows_storable [unfolded rows] note_rows_room(2) note_rows_room(1) [unfolded rows],
        where ?t1.0 = 5 and ?t2.0 = 6 and ?t3.0 = 7 and rx = "\<lambda>p. Inl p" and c = catalog_new and w = sample_log]
    unfolding rows by (simp add: numeral_3_eq_3 del: run_ops.simps)
qed

text \<open>C5. \<^verbatim>\<open>ROLLBACK\<close> undoes nothing.  On a new database, rows that are inserted into a table without a
  primary key in a transaction that is rolled back are all returned by a later \<^verbatim>\<open>SELECT *\<close>, although the
  rollback reports success.\<close>

theorem keyless_rollback_keeps:
  assumes "uuid_laws L" and "store_inv f" and "page_count f + MAX_KEYS + 1 < MAX_PAGES"
    and "keyless schema" and "\<forall>r \<in> set rows. storable schema r"
    and "table_name_ok n" and "keyless_room n (map row_bytes rows)"
  shows "\<exists>e ex'. engine_new L f w = Ok e \<and>
     run_ops (\<lambda>(now, p). execute L rx now p)
       [(t1, BeginTransaction), (t2, Insert n None (map (map Literal) rows) schema), (t3, Rollback),
        (t4, Scan n [] None schema)] (executor_new e c) =
     Some ([Ok (ResBeginTransaction (TxId t1)), Ok (ResInsert (length rows)), Ok ResRollback,
        Ok (ResSelect [] rows)], ex')"
proof -
  let ?ins = "Insert n None (map (map Literal) rows) schema" and ?vs = "map row_bytes rows" and ?s0 = "sql_new L c"
  obtain e where e: "engine_new L f w = Ok e" "exec_rel L (executor_new e c) (sql_new L c)"
    using exec_rel_new [OF assms(2,3)] by blast
  obtain tx m where m: "tm_begin L t1 False (st_tx (sq_store ?s0)) = (tx, m)" by fastforce
  then have id: "t_tx_id tx = TxId t1" by (auto simp: tm_begin_def Let_def)
  let ?st = "(sq_store ?s0)\<lparr>st_tx := m\<rparr>"
  let ?s1 = "?s0\<lparr>sq_store := ?st, sq_tx := Some tx, sq_auto := False\<rparr>"
  let ?st' = "snd (run_spec (store_step L) (insert_script n tx (map (Pair []) ?vs)) ?st)"
  have start: "plan_spec L rx t1 BeginTransaction ?s0 = (Ok (ResBeginTransaction (TxId t1)), ?s1)"
    using m id by (simp add: sql_new_def)
  have new: "keyless_table n (t_tx_id tx) [] ?st" using sql_new_idle(2) [of n "TxId t1" L c] id by (simp add: keyless_table_def)
  have ins: "st_rows ?st' = keyless_rows n (TxId t1) ?vs" "st_tx ?st' = m"
    using keyless_inserts [OF new, of ?vs L] id by (simp_all add: keyless_table_def)
  have c: "collect (encode_row rx schema None) (map (map Literal) rows) = (map (Pair []) ?vs, Ok ())"
    by (rule collect_storable [OF assms(4,5)])
  have room: "plan_room L rx t2 ?ins ?s1" using keyless_allowed [OF assms(1) new assms(7)] c by (simp add: sql_begin_def)
  have insert: "plan_spec L rx t2 ?ins ?s1 = (Ok (ResInsert (length rows)), ?s1\<lparr>sq_store := ?st'\<rparr>)"
    using c by (simp add: sql_begin_def sql_data_def sql_finish_def del: map_map)
  obtain m' where m': "tm_abort L (TxId t1) m = (Ok (), m')" "tm_after t1 m'"
    using tm_begin_end(2) [OF m] by (auto simp: sql_new_def store_new_def tm_new_def)
  let ?s3 = "?s1\<lparr>sq_store := ?st'\<lparr>st_tx := m'\<rparr>, sq_tx := None, sq_auto := True\<rparr>"
  have roll: "plan_spec L rx t3 Rollback (?s1\<lparr>sq_store := ?st'\<rparr>) = (Ok ResRollback, ?s3)"
    using m'(1) ins(2) id by simp
  have "fst (plan_spec L rx t4 (Scan n [] None schema) ?s3) = Ok (ResSelect [] rows)"
    by (rule keyless_scan_plan [where t = t1, OF _ _ assms(5)])
      (use m'(2) keyless_values [where t = "TxId t1"] ins(1) in simp_all)
  with sql_executor.run [of L "executor_new e c" ?s0 rx "[(t1, BeginTransaction), (t2, ?ins), (t3, Rollback), (t4, Scan n [] None schema)]"]
    e assms(1,6) start room insert roll
  show ?thesis by (auto simp del: plan_spec.simps plan_room.simps(1) execute.simps split: prod.splits)
qed

theorem keyless_rollback_keeps_witness:
  "\<exists>e ex'. engine_new sample_lib sample_file sample_log = Ok e \<and>
     run_ops (\<lambda>(now, p). execute sample_lib (\<lambda>p. Inl p) now p)
       [(5, BeginTransaction), (0, Insert ''notes'' None (map (map Literal) note_rows) note_schema), (0, Rollback),
        (6, Scan ''notes'' [] None note_schema)] (executor_new e catalog_new) =
     Some ([Ok (ResBeginTransaction (TxId 5)), Ok (ResInsert (length note_rows)), Ok ResRollback,
        Ok (ResSelect [] note_rows)], ex')"
  by (rule keyless_rollback_keeps [OF sample_lib_laws sample_file_inv sample_file_room note_schema_keyless
        note_rows_storable note_rows_room(2,1)])

end
