(* ===== verification/Tx_Time.thy ===== *)
theory Tx_Time
  imports Mvcc
begin

text \<open>
  The time of transaction identifiers: the constructors and conversions of \<^verbatim>\<open>sabi-core/src/tx.rs\<close> that call
  the crate \<^verbatim>\<open>uuid\<close>, and what the order of identifiers means for the times they were made from.  The calls are
  the fields of the record \<open>uuid_clock\<close>.  What its documentation says of them is the predicate \<open>clock_laws\<close>: a
  version 7 identifier has its time in milliseconds, in 48 bits; the nil identifier has no time; and the text
  form is read back.
\<close>

record ('u, 'e) uuid_clock =
  uuid_new_v7 :: "nat \<Rightarrow> u64 \<Rightarrow> u32 \<Rightarrow> 'u"
  uuid_parse_str :: "string \<Rightarrow> ('u, 'e) result"
  uuid_is_nil :: "'u \<Rightarrow> bool"

definition millis :: "u64 \<Rightarrow> u32 \<Rightarrow> nat" where
  "millis secs nanos = unat secs * 1000 + unat nanos div 1000000"

definition clock_laws :: "'u ext_lib \<Rightarrow> ('u, 'e) uuid_clock \<Rightarrow> bool" where
  "clock_laws L U \<longleftrightarrow>
     (\<forall>r secs nanos. millis secs nanos < 2 ^ 48 \<longrightarrow>
        uuid_unix L (uuid_new_v7 U r secs nanos) =
          Some (of_nat (millis secs nanos div 1000), of_nat (millis secs nanos mod 1000 * 1000000))) \<and>
     (\<forall>u. uuid_is_nil U u \<longleftrightarrow> u = uuid_nil L) \<and> uuid_unix L (uuid_nil L) = None \<and>
     (\<forall>u. uuid_parse_str U (uuid_display L u) = Ok u)"

section \<open>Constructors and conversions\<close>

text \<open>\<^verbatim>\<open>now_v7\<close> yields \<open>now\<close>.\<close>

definition tx_new :: "'u \<Rightarrow> 'u tx_id" where
  "tx_new now = TxId now"

text \<open>The random bits of the identifier are the argument \<open>r\<close>.\<close>

definition tx_from_timestamp :: "('u, 'e) uuid_clock \<Rightarrow> nat \<Rightarrow> u64 \<Rightarrow> u32 \<Rightarrow> 'u tx_id" where
  "tx_from_timestamp U r secs nanos = TxId (uuid_new_v7 U r secs nanos)"

definition tx_is_nil :: "('u, 'e) uuid_clock \<Rightarrow> 'u tx_id \<Rightarrow> bool" where
  "tx_is_nil U t = uuid_is_nil U (uuid_of t)"

definition tx_from_str :: "('u, 'e) uuid_clock \<Rightarrow> string \<Rightarrow> ('u tx_id, 'e) result" where
  "tx_from_str U s = rbind (uuid_parse_str U s) (\<lambda>uuid. Ok (TxId uuid))"

text \<open>\<^verbatim>\<open>Duration::new\<close> carries whole seconds out of the nanoseconds and panics when the seconds overflow;
  \<^verbatim>\<open>UNIX_EPOCH.checked_add\<close> gives \<open>None\<close> for a time whose seconds a signed 64-bit integer cannot hold.  A
  system time is its seconds and nanoseconds since the epoch.\<close>

definition duration_new :: "u64 \<Rightarrow> u32 \<Rightarrow> (nat \<times> nat) db_result" where
  "duration_new secs nanos =
     (let s = unat secs + unat nanos div 1000000000 in
      if 2 ^ 64 \<le> s then Panic ''overflow in Duration::new'' else Ok (s, unat nanos mod 1000000000))"

definition epoch_checked_add :: "nat \<times> nat \<Rightarrow> (nat \<times> nat) option" where
  "epoch_checked_add d = (if fst d < 2 ^ 63 then Some d else None)"

definition tx_timestamp :: "'u ext_lib \<Rightarrow> 'u tx_id \<Rightarrow> (nat \<times> nat) option db_result" where
  "tx_timestamp L t =
     (case uuid_unix L (uuid_of t) of
        None \<Rightarrow> Ok None
      | Some (secs, nanos) \<Rightarrow> rbind (duration_new secs nanos) (\<lambda>d. Ok (epoch_checked_add d)))"

section \<open>The time of an identifier\<close>

lemma clock_lawsD:
  assumes "clock_laws L U"
  shows "millis secs nanos < 2 ^ 48 \<Longrightarrow> uuid_unix L (uuid_new_v7 U r secs nanos) =
      Some (of_nat (millis secs nanos div 1000), of_nat (millis secs nanos mod 1000 * 1000000))"
    and "uuid_is_nil U u \<longleftrightarrow> u = uuid_nil L" and "uuid_unix L (uuid_nil L) = None"
    and "uuid_parse_str U (uuid_display L u) = Ok u"
  using assms by (auto simp: clock_laws_def)

lemma subsec_less: "m mod 1000 * 1000000 < (1000000000 :: nat)"
proof -
  have "m mod 1000 < 1000" by simp
  then show ?thesis by linarith
qed

lemma secs_less: "m < 2 ^ 48 \<Longrightarrow> m div 1000 < (2 ^ 63 :: nat)"
  using div_le_dividend [of m 1000] by simp

lemma unat_secs: "m < 2 ^ 48 \<Longrightarrow> unat (of_nat (m div 1000) :: u64) = m div 1000"
  using secs_less [of m] by (simp add: unat_of_nat take_bit_nat_eq_self)

lemma unat_subsec: "unat (of_nat (m mod 1000 * 1000000) :: u32) = m mod 1000 * 1000000"
  using subsec_less [of m] by (simp only: unat_of_nat) (simp add: take_bit_nat_eq_self)

lemma from_timestamp_key:
  assumes "clock_laws L U" and "millis secs nanos < 2 ^ 48"
  shows "tx_key L (tx_from_timestamp U r secs nanos) =
    millis secs nanos div 1000 * 2 ^ 32 + millis secs nanos mod 1000 * 1000000"
  using unat_secs [OF assms(2)] unat_subsec [of "millis secs nanos"]
  by (simp add: tx_key_def extract_timestamp_def tx_from_timestamp_def clock_lawsD(1) [OF assms] del: of_nat_mult)

lemma millis_key_mono: "m div 1000 * 2 ^ 32 + m mod 1000 * 1000000 < k div 1000 * 2 ^ 32 + k mod 1000 * (1000000 :: nat) \<longleftrightarrow> m < k"
proof -
  have "m' div 1000 * 2 ^ 32 + m' mod 1000 * 1000000 < k' div 1000 * 2 ^ 32 + k' mod 1000 * (1000000 :: nat)" if "m' < k'" for m' k' :: nat
  proof (cases "m' div 1000 = k' div 1000")
    case True
    with that have "m' mod 1000 < k' mod 1000" by (metis div_mult_mod_eq nat_add_left_cancel_less)
    with True show ?thesis by simp
  next
    case False
    with that have "Suc (m' div 1000) \<le> k' div 1000" using div_le_mono [of m' k' 1000] by linarith
    then have "Suc (m' div 1000) * 2 ^ 32 \<le> k' div 1000 * 2 ^ 32" by (rule mult_le_mono1)
    moreover have "m' mod 1000 * 1000000 < 2 ^ 32" using subsec_less [of m'] by simp
    ultimately show ?thesis by simp
  qed
  from this [of m k] this [of k m] show ?thesis by (metis linorder_neqE_nat order_less_asym order_less_irrefl)
qed

section \<open>A concrete clock\<close>

text \<open>The layout of version 7: 48 bits of milliseconds, the version, and random bits.\<close>

definition v7_lib :: "128 word ext_lib" where
  "v7_lib = sample_lib\<lparr>
     uuid_unix := (\<lambda>u. if u = 0 then None else
       (let m = unat u div 2 ^ 80 in Some (of_nat (m div 1000), of_nat (m mod 1000 * 1000000)))),
     uuid_display := (\<lambda>u. bytes_string (le_bytes 16 u))\<rparr>"

definition v7_clock :: "(128 word, string) uuid_clock" where
  "v7_clock = \<lparr>
     uuid_new_v7 = (\<lambda>r secs nanos. of_nat (millis secs nanos * 2 ^ 80 + 7 * 2 ^ 76 + r mod 2 ^ 62)),
     uuid_parse_str = (\<lambda>s. Ok (from_le (string_bytes s))),
     uuid_is_nil = (\<lambda>u. u = 0)\<rparr>"

lemma string_bytes_inverse: "string_bytes (bytes_string bs) = bs"
proof -
  have "(of_nat (unat b mod 256) :: u8) = b" for b :: u8
    using unsigned_less [where ?'a = nat and w = b] by simp
  then show ?thesis by (simp add: string_bytes_def bytes_string_def comp_def)
qed

lemma v7_unat:
  assumes "m < 2 ^ 48"
  shows "unat (of_nat (m * 2 ^ 80 + 7 * 2 ^ 76 + r mod 2 ^ 62) :: 128 word) = m * 2 ^ 80 + 7 * 2 ^ 76 + r mod 2 ^ 62"
proof -
  have "r mod 2 ^ 62 < (2 ^ 62 :: nat)" by simp
  then have "m * 2 ^ 80 + 7 * 2 ^ 76 + r mod 2 ^ 62 < 2 ^ 128" using assms by simp
  then show ?thesis by (simp only: unat_of_nat) (simp add: take_bit_nat_eq_self)
qed

lemma v7_laws: "clock_laws v7_lib v7_clock"
proof -
  have "uuid_unix v7_lib (uuid_new_v7 v7_clock r secs nanos) =
      Some (of_nat (millis secs nanos div 1000), of_nat (millis secs nanos mod 1000 * 1000000))"
    if "millis secs nanos < 2 ^ 48" for r secs nanos
  proof -
    let ?u = "uuid_new_v7 v7_clock r secs nanos"
    have u: "unat ?u = millis secs nanos * 2 ^ 80 + 7 * 2 ^ 76 + r mod 2 ^ 62"
      using v7_unat [OF that, of r] by (simp add: v7_clock_def)
    have "r mod 2 ^ 62 < (2 ^ 62 :: nat)" by simp
    then have "unat ?u div 2 ^ 80 = millis secs nanos" unfolding u by simp
    moreover have "?u \<noteq> 0" using u by (auto simp: unat_eq_0)
    ultimately show ?thesis by (simp add: v7_lib_def Let_def)
  qed
  then show ?thesis unfolding clock_laws_def
    by (auto simp: v7_lib_def v7_clock_def sample_lib_def string_bytes_inverse from_le_inverse)
qed

text \<open>C27. The order of identifiers made from times compares milliseconds and nothing else, so two
  transactions of one millisecond are equal in it whatever their identifiers are, and a row is visible to a
  reader exactly when it was created no later than the millisecond of the reader's snapshot: rows created
  after the snapshot but within its millisecond are visible too.\<close>

theorem tx_order_milliseconds:
  assumes "clock_laws L U" and "millis s1 n1 < 2 ^ 48" and "millis s2 n2 < 2 ^ 48"
    and "t_snapshot_tx tx = tx_from_timestamp U r1 s1 n1"
    and "rv_created_by v = tx_from_timestamp U r2 s2 n2" and "rv_deleted_by v = None"
  shows "tx_cmp L (t_snapshot_tx tx) (rv_created_by v) = cmp (millis s1 n1) (millis s2 n2) \<and>
     (is_visible L v tx \<longleftrightarrow> millis s2 n2 \<le> millis s1 n1)"
proof -
  note keys = from_timestamp_key [OF assms(1,2)] from_timestamp_key [OF assms(1,3)]
  have "tx_key L (t_snapshot_tx tx) < tx_key L (rv_created_by v) \<longleftrightarrow> millis s1 n1 < millis s2 n2"
    "tx_key L (rv_created_by v) < tx_key L (t_snapshot_tx tx) \<longleftrightarrow> millis s2 n2 < millis s1 n1"
    unfolding assms(4,5) keys by (rule millis_key_mono)+
  then show ?thesis using assms(6) by (auto simp: tx_cmp_key is_visible_key)
qed

theorem tx_order_milliseconds_witness:
  "tx_from_timestamp v7_clock 8 1 999000 \<noteq> tx_from_timestamp v7_clock 9 1 0 \<and>
   tx_cmp v7_lib (tx_from_timestamp v7_clock 9 1 0) (tx_from_timestamp v7_clock 8 1 999000) = Equal \<and>
   is_visible v7_lib \<lparr>rv_created_by = tx_from_timestamp v7_clock 8 1 999000, rv_deleted_by = None, rv_value = [42]\<rparr>
     \<lparr>t_tx_id = tx_from_timestamp v7_clock 7 1 0, t_snapshot_tx = tx_from_timestamp v7_clock 9 1 0, t_state = Active,
      t_read_only = True, t_tx_number = 2\<rparr>"
proof -
  have m: "millis 1 0 = 1000" "millis 1 999000 = 1000" by (simp_all add: millis_def)
  have "tx_from_timestamp v7_clock 8 1 999000 \<noteq> tx_from_timestamp v7_clock 9 1 0"
    by (simp add: tx_from_timestamp_def v7_clock_def m)
  with tx_order_milliseconds [OF v7_laws, where ?s1.0 = 1 and ?n1.0 = 0 and ?s2.0 = 1 and ?n2.0 = 999000 and ?r1.0 = 9 and ?r2.0 = 8
      and v = "\<lparr>rv_created_by = tx_from_timestamp v7_clock 8 1 999000, rv_deleted_by = None, rv_value = [42]\<rparr>"
      and tx = "\<lparr>t_tx_id = tx_from_timestamp v7_clock 7 1 0, t_snapshot_tx = tx_from_timestamp v7_clock 9 1 0, t_state = Active,
        t_read_only = True, t_tx_number = 2\<rparr>"] m
  show ?thesis by simp
qed

text \<open>An identifier gives back the time it was made from, cut to milliseconds, is never nil, and its
  text is parsed back; the nil identifier has no time.\<close>

lemma tx_time_roundtrip:
  assumes "clock_laws L U" and "millis secs nanos < 2 ^ 48" and "t = tx_from_timestamp U r secs nanos"
  shows "tx_timestamp L t = Ok (Some (millis secs nanos div 1000, millis secs nanos mod 1000 * 1000000)) \<and>
     \<not> tx_is_nil U t \<and> tx_from_str U (show_tx L t) = Ok t \<and>
     tx_is_nil U (tx_nil L) \<and> tx_timestamp L (tx_nil L) = Ok None"
proof -
  let ?m = "millis secs nanos"
  note m = secs_less [OF assms(2)] subsec_less [of ?m]
  have unix: "uuid_unix L (uuid_of t) = Some (of_nat (?m div 1000), of_nat (?m mod 1000 * 1000000))"
    using clock_lawsD(1) [OF assms(1,2)] assms(3) by (simp add: tx_from_timestamp_def)
  have "tx_timestamp L t = Ok (Some (?m div 1000, ?m mod 1000 * 1000000))"
    using m unfolding tx_timestamp_def unix
    by (simp add: duration_new_def epoch_checked_add_def Let_def unat_secs [OF assms(2)] unat_subsec del: of_nat_mult)
  moreover have "uuid_of t \<noteq> uuid_nil L" using unix clock_lawsD(3) [OF assms(1)] by auto
  ultimately show ?thesis using clock_lawsD(2-4) [OF assms(1)]
    by (simp add: tx_is_nil_def tx_from_str_def show_tx_def tx_nil_def tx_timestamp_def)
qed

end
