(* ===== verification/Tx_Threads.thy ===== *)
theory Tx_Threads
  imports Mvcc
begin

text \<open>
  The transaction manager of \<^verbatim>\<open>sabi-storage/src/mvcc.rs\<close> used by several threads.  Its methods take
  \<^verbatim>\<open>&self\<close>: \<^verbatim>\<open>begin\<close> draws a number with an atomic counter, then registers its identifier under a write lock,
  then reads its snapshot under a read lock, then enters the active transactions under a mutex, and other
  threads may run between these points.  \<^verbatim>\<open>commit\<close> and \<^verbatim>\<open>abort\<close> hold the mutex from start to end.  Any
  number of threads take these steps in any order.
\<close>

section \<open>The atomic parts of \<^verbatim>\<open>begin\<close>\<close>

definition begin_fetch :: "'u tx_manager \<Rightarrow> u64 \<times> 'u tx_manager" where
  "begin_fetch m = (tm_next_tx m, m\<lparr>tm_next_tx := tm_next_tx m + 1\<rparr>)"

definition begin_register :: "u64 \<Rightarrow> 'u tx_id \<Rightarrow> 'u tx_manager \<Rightarrow> 'u tx_manager" where
  "begin_register tx_number tx_id m =
     m\<lparr>tm_registry := (grow_registry (unat tx_number) (tm_registry m))[unat tx_number := Some tx_id]\<rparr>"

definition begin_snapshot :: "'u ext_lib \<Rightarrow> u64 \<Rightarrow> 'u tx_manager \<Rightarrow> 'u tx_id db_result" where
  "begin_snapshot L tx_number m =
     (if tx_number > 1
      then rbind (index (tm_registry m) (unat (tx_number - 1))) (\<lambda>r. Ok (case r of Some t \<Rightarrow> t | None \<Rightarrow> tx_nil L))
      else Ok (tx_nil L))"

definition begin_activate :: "'u transaction \<Rightarrow> 'u tx_manager \<Rightarrow> 'u tx_manager" where
  "begin_activate tx m = m\<lparr>tm_active := (tm_active m)(t_tx_id tx \<mapsto> tx)\<rparr>"

definition new_tx :: "bool \<Rightarrow> u64 \<Rightarrow> 'u tx_id \<Rightarrow> 'u tx_id \<Rightarrow> 'u transaction" where
  "new_tx read_only tx_number tx_id snapshot =
     \<lparr>t_tx_id = tx_id, t_snapshot_tx = snapshot, t_state = Active, t_read_only = read_only, t_tx_number = tx_number\<rparr>"

lemma unat_pred: "n > (1 :: u64) \<Longrightarrow> unat (n - 1) = unat n - 1"
  by (rule unat_minus_one) auto

lemma length_register: "unat n < length (tm_registry (begin_register n t m))"
  by (simp add: begin_register_def grow_registry_def)

text \<open>Without other threads in between, the parts make up \<^verbatim>\<open>begin\<close>, and reading the snapshot does not panic.\<close>

lemma tm_begin_parts:
  assumes "begin_fetch m = (n, m1)"
  shows "\<exists>snap. begin_snapshot L n (begin_register n (TxId now) m1) = Ok snap \<and>
    tm_begin L now ro m =
      (new_tx ro n (TxId now) snap, begin_activate (new_tx ro n (TxId now) snap) (begin_register n (TxId now) m1))"
proof -
  have n: "n = tm_next_tx m" "m1 = m\<lparr>tm_next_tx := n + 1\<rparr>" using assms by (auto simp: begin_fetch_def)
  have "unat (n - 1) < length (tm_registry (begin_register n (TxId now) m1))" if "n > 1"
    using length_register [of n "TxId now" m1] unat_pred [OF that] by simp
  then show ?thesis
    by (auto simp: n tm_begin_def begin_snapshot_def begin_activate_def new_tx_def Let_def begin_register_def unat_pred)
qed

section \<open>Threads\<close>

text \<open>Where a thread is in a call of \<^verbatim>\<open>begin\<close>.\<close>

datatype 'u thread =
    Idle
  | Numbered bool u64
  | Stamped bool u64 "'u tx_id"
  | Registered bool u64 "'u tx_id"
  | Started "'u transaction"
  | Crashed string

record 'u tm_system =
  sy_tm :: "'u tx_manager"
  sy_threads :: "nat \<Rightarrow> 'u thread"
  sy_begun :: "'u transaction list"

definition system_new :: "'u ext_lib \<Rightarrow> 'u tm_system" where
  "system_new L = \<lparr>sy_tm = tm_new L, sy_threads = (\<lambda>_. Idle), sy_begun = []\<rparr>"

text \<open>A step of the call in one thread: its place, the manager, and the transaction that it returns, if
  any.  Fewer than \<open>2 ^ 64 - 1\<close> numbers are drawn.\<close>

inductive begin_step ::
  "'u ext_lib \<Rightarrow> 'u thread \<times> 'u tx_manager \<Rightarrow> 'u thread \<times> 'u tx_manager \<Rightarrow> 'u transaction option \<Rightarrow> bool" for L where
  step_fetch: "unat (tm_next_tx m) + 1 < 2 ^ 64 \<Longrightarrow> begin_fetch m = (n, m') \<Longrightarrow>
    begin_step L (Idle, m) (Numbered ro n, m') None"
| step_stamp: "begin_step L (Numbered ro n, m) (Stamped ro n (TxId now), m) None"
| step_register: "begin_step L (Stamped ro n t, m) (Registered ro n t, begin_register n t m) None"
| step_snapshot: "begin_snapshot L n m = Ok snap \<Longrightarrow>
    begin_step L (Registered ro n t, m) (Started (new_tx ro n t snap), m) None"
| step_panic: "begin_snapshot L n m = Panic p \<Longrightarrow> begin_step L (Registered ro n t, m) (Crashed p, m) None"
| step_activate: "begin_step L (Started tx, m) (Idle, begin_activate tx m) (Some tx)"

inductive system_step :: "'u ext_lib \<Rightarrow> 'u tm_system \<Rightarrow> 'u tm_system \<Rightarrow> bool" for L where
  system_begin: "begin_step L (sy_threads s i, sy_tm s) (pc, m) r \<Longrightarrow>
    system_step L s (s\<lparr>sy_tm := m, sy_threads := (sy_threads s)(i := pc),
      sy_begun := (case r of None \<Rightarrow> sy_begun s | Some tx \<Rightarrow> sy_begun s @ [tx])\<rparr>)"
| system_commit: "system_step L s (s\<lparr>sy_tm := snd (tm_commit L t (sy_tm s))\<rparr>)"
| system_abort: "system_step L s (s\<lparr>sy_tm := snd (tm_abort L t (sy_tm s))\<rparr>)"

inductive system_reachable :: "'u ext_lib \<Rightarrow> 'u tm_system \<Rightarrow> bool" for L where
  system_start: "system_reachable L (system_new L)"
| system_next: "system_reachable L s \<Longrightarrow> system_step L s s' \<Longrightarrow> system_reachable L s'"

section \<open>The invariant of all interleavings\<close>

text \<open>A number that is drawn but not registered yet; a registered one; a transaction with its snapshot.\<close>

definition number_drawn :: "'u tx_manager \<Rightarrow> u64 \<Rightarrow> bool" where
  "number_drawn m n \<longleftrightarrow> 1 \<le> unat n \<and> unat n < unat (tm_next_tx m) \<and>
     (unat n < length (tm_registry m) \<longrightarrow> tm_registry m ! unat n = None)"

definition number_registered :: "'u tx_manager \<Rightarrow> u64 \<Rightarrow> 'u tx_id \<Rightarrow> bool" where
  "number_registered m n t \<longleftrightarrow> 1 \<le> unat n \<and> unat n < unat (tm_next_tx m) \<and>
     unat n < length (tm_registry m) \<and> tm_registry m ! unat n = Some t"

definition tx_begun :: "'u ext_lib \<Rightarrow> 'u tx_manager \<Rightarrow> 'u transaction \<Rightarrow> bool" where
  "tx_begun L m tx \<longleftrightarrow> number_registered m (t_tx_number tx) (t_tx_id tx) \<and>
     (t_snapshot_tx tx = tx_nil L \<or> tm_registry m ! (unat (t_tx_number tx) - 1) = Some (t_snapshot_tx tx))"

fun thread_ok :: "'u ext_lib \<Rightarrow> 'u tx_manager \<Rightarrow> 'u thread \<Rightarrow> bool" where
  "thread_ok L m Idle \<longleftrightarrow> True"
| "thread_ok L m (Numbered ro n) \<longleftrightarrow> number_drawn m n"
| "thread_ok L m (Stamped ro n t) \<longleftrightarrow> number_drawn m n"
| "thread_ok L m (Registered ro n t) \<longleftrightarrow> number_registered m n t"
| "thread_ok L m (Started tx) \<longleftrightarrow> tx_begun L m tx"
| "thread_ok L m (Crashed p) \<longleftrightarrow> False"

fun thread_number :: "'u thread \<Rightarrow> u64 option" where
  "thread_number (Numbered ro n) = Some n"
| "thread_number (Stamped ro n t) = Some n"
| "thread_number (Registered ro n t) = Some n"
| "thread_number (Started tx) = Some (t_tx_number tx)"
| "thread_number _ = None"

text \<open>No number is held twice, by threads or by transactions that have begun.\<close>

definition numbers_unique :: "(nat \<Rightarrow> 'u thread) \<Rightarrow> 'u transaction list \<Rightarrow> bool" where
  "numbers_unique T begun \<longleftrightarrow>
     (\<forall>i j n. thread_number (T i) = Some n \<longrightarrow> thread_number (T j) = Some n \<longrightarrow> i = j) \<and>
     (\<forall>i n. thread_number (T i) = Some n \<longrightarrow> n \<notin> t_tx_number ` set begun) \<and>
     distinct (map t_tx_number begun)"

definition system_inv :: "'u ext_lib \<Rightarrow> 'u tm_system \<Rightarrow> bool" where
  "system_inv L s \<longleftrightarrow>
     1 \<le> unat (tm_next_tx (sy_tm s)) \<and> length (tm_registry (sy_tm s)) \<le> unat (tm_next_tx (sy_tm s)) \<and>
     (\<forall>i. thread_ok L (sy_tm s) (sy_threads s i)) \<and>
     (\<forall>tx \<in> set (sy_begun s). tx_begun L (sy_tm s) tx) \<and>
     numbers_unique (sy_threads s) (sy_begun s)"

text \<open>The registry only grows, and an entry is never overwritten.\<close>

definition tm_extends :: "'u tx_manager \<Rightarrow> 'u tx_manager \<Rightarrow> bool" where
  "tm_extends m m' \<longleftrightarrow> unat (tm_next_tx m) \<le> unat (tm_next_tx m') \<and>
     length (tm_registry m) \<le> length (tm_registry m') \<and>
     (\<forall>k < length (tm_registry m). tm_registry m ! k \<noteq> None \<longrightarrow> tm_registry m' ! k = tm_registry m ! k)"

lemma registered_extends: "number_registered m n t \<Longrightarrow> tm_extends m m' \<Longrightarrow> number_registered m' n t"
  by (auto simp: number_registered_def tm_extends_def)

lemma begun_extends: "tx_begun L m tx \<Longrightarrow> tm_extends m m' \<Longrightarrow> tx_begun L m' tx"
  using registered_extends [of m "t_tx_number tx" "t_tx_id tx" m']
  by (auto simp: tx_begun_def number_registered_def tm_extends_def)

lemma registry_register:
  assumes "k \<noteq> unat n" and "k < length (tm_registry (begin_register n t m))"
  shows "tm_registry (begin_register n t m) ! k = (if k < length (tm_registry m) then tm_registry m ! k else None)"
  using assms by (auto simp: begin_register_def grow_registry_def nth_append)

lemma register_extends:
  assumes "number_drawn m n"
  shows "tm_extends m (begin_register n t m)" and "number_registered (begin_register n t m) n t"
proof -
  have len: "length (tm_registry m) \<le> length (tm_registry (begin_register n t m))"
    by (simp add: begin_register_def grow_registry_def)
  have "tm_registry (begin_register n t m) ! k = tm_registry m ! k"
    if "k < length (tm_registry m)" "tm_registry m ! k \<noteq> None" for k
  proof -
    have "k \<noteq> unat n" using that assms by (auto simp: number_drawn_def)
    with registry_register [of k n t m] that len show ?thesis by simp
  qed
  then show "tm_extends m (begin_register n t m)" using len by (simp add: tm_extends_def begin_register_def)
  show "number_registered (begin_register n t m) n t"
    using assms length_register [of n t m] unfolding number_registered_def number_drawn_def
    by (simp add: begin_register_def)
qed

lemma register_others: "number_drawn m n' \<Longrightarrow> n' \<noteq> n \<Longrightarrow> number_drawn (begin_register n t m) n'"
  using registry_register [of "unat n'" n t m]
  by (auto simp: number_drawn_def word_unat_eq_iff) (simp_all add: begin_register_def)

text \<open>Its own registration made the registry long enough for the thread to read its snapshot.\<close>

lemma snapshot_begun:
  assumes "number_registered m n t"
  shows "\<exists>snap. begin_snapshot L n m = Ok snap \<and> tx_begun L m (new_tx ro n t snap)"
proof (cases "n > 1")
  case True
  then have "unat (n - 1) < length (tm_registry m)" 
    using assms unat_pred [OF True] unfolding number_registered_def by linarith
  with True assms show ?thesis
    by (auto simp: begin_snapshot_def tx_begun_def new_tx_def unat_pred split: option.splits)
next
  case False
  with assms show ?thesis by (simp add: begin_snapshot_def tx_begun_def new_tx_def)
qed

text \<open>What one step of a thread does to its place, to the manager and to the numbers.\<close>

lemma begin_step_effect:
  assumes "begin_step L (pc, m) (pc', m') r" and "thread_ok L m pc"
    and "1 \<le> unat (tm_next_tx m)" and "length (tm_registry m) \<le> unat (tm_next_tx m)"
  shows "tm_extends m m' \<and> thread_ok L m' pc' \<and> length (tm_registry m') \<le> unat (tm_next_tx m') \<and>
    (\<forall>n. number_drawn m n \<longrightarrow> thread_number pc \<noteq> Some n \<longrightarrow> number_drawn m' n) \<and>
    (\<forall>tx. r = Some tx \<longrightarrow> tx_begun L m' tx \<and> thread_number pc = Some (t_tx_number tx) \<and> thread_number pc' = None) \<and>
    (r = None \<longrightarrow> thread_number pc' = (if pc = Idle then Some (tm_next_tx m) else thread_number pc))"
  using assms(1)
proof (cases rule: begin_step.cases)
  case (step_fetch n ro)
  then show ?thesis using assms(3,4)
    by (auto simp: begin_fetch_def tm_extends_def number_drawn_def unat_next)
next
  case (step_stamp ro n now)
  then show ?thesis using assms by (auto simp: tm_extends_def)
next
  case (step_register ro n t)
  then have d: "number_drawn m n" using assms(2) by simp
  have "length (tm_registry m') \<le> unat (tm_next_tx m')"
    using step_register d assms(4) by (auto simp: begin_register_def grow_registry_def number_drawn_def)
  with step_register register_extends [OF d] register_others [of m _ n t] show ?thesis by auto
next
  case (step_snapshot n snap ro t)
  then show ?thesis using assms(2,4) snapshot_begun [of m n t L ro] by (auto simp: tm_extends_def new_tx_def)
next
  case (step_panic n p ro t)
  then show ?thesis using assms(2) snapshot_begun [of m n t L ro] by auto
next
  case (step_activate tx)
  then have "tm_extends m m'" by (simp add: tm_extends_def begin_activate_def)
  with step_activate assms(2,4) begun_extends [of L m tx m'] show ?thesis
    by (auto simp: begin_activate_def number_drawn_def)
qed

lemma thread_extends:
  "thread_ok L m pc \<Longrightarrow> tm_extends m m' \<Longrightarrow>
   (\<And>n. number_drawn m n \<Longrightarrow> thread_number pc = Some n \<Longrightarrow> number_drawn m' n) \<Longrightarrow> thread_ok L m' pc"
  by (cases pc) (auto intro: registered_extends begun_extends)

lemma thread_number_drawn:
  "thread_ok L m pc \<Longrightarrow> thread_number pc = Some n \<Longrightarrow> unat n < unat (tm_next_tx m)"
  by (cases pc) (auto simp: number_drawn_def number_registered_def tx_begun_def)

lemma numbers_unique_step:
  assumes uniq: "numbers_unique T B" and fresh: "\<And>j. thread_number (T j) \<noteq> Some k" "k \<notin> t_tx_number ` set B"
    and none: "r = None \<Longrightarrow> thread_number pc = (if T i = Idle then Some k else thread_number (T i))"
    and some: "\<And>tx. r = Some tx \<Longrightarrow> thread_number (T i) = Some (t_tx_number tx) \<and> thread_number pc = None"
  shows "numbers_unique (T(i := pc)) (case r of None \<Rightarrow> B | Some tx \<Rightarrow> B @ [tx])"
proof (cases r)
  case None
  with uniq fresh none show ?thesis unfolding numbers_unique_def by (auto split: if_splits)
next
  case (Some tx)
  then have "t_tx_number tx \<notin> t_tx_number ` set B" using uniq some unfolding numbers_unique_def by blast
  with Some uniq some show ?thesis unfolding numbers_unique_def by (auto split: if_splits)
qed

lemma system_begin_inv:
  assumes inv: "system_inv L s" and st: "begin_step L (sy_threads s i, sy_tm s) (pc, m) r"
  shows "system_inv L (s\<lparr>sy_tm := m, sy_threads := (sy_threads s)(i := pc),
      sy_begun := (case r of None \<Rightarrow> sy_begun s | Some tx \<Rightarrow> sy_begun s @ [tx])\<rparr>)"
proof -
  let ?T = "sy_threads s" and ?T' = "(sy_threads s)(i := pc)"
  let ?B' = "case r of None \<Rightarrow> sy_begun s | Some tx \<Rightarrow> sy_begun s @ [tx]"
  have ok: "thread_ok L (sy_tm s) (?T j)" for j using inv by (simp add: system_inv_def)
  have uniq: "numbers_unique ?T (sy_begun s)" using inv by (simp add: system_inv_def)
  have e: "tm_extends (sy_tm s) m" "thread_ok L m pc" "length (tm_registry m) \<le> unat (tm_next_tx m)"
      "\<And>n. number_drawn (sy_tm s) n \<Longrightarrow> thread_number (?T i) \<noteq> Some n \<Longrightarrow> number_drawn m n"
      "\<And>tx. r = Some tx \<Longrightarrow> tx_begun L m tx \<and> thread_number (?T i) = Some (t_tx_number tx) \<and> thread_number pc = None"
      "r = None \<Longrightarrow> thread_number pc = (if ?T i = Idle then Some (tm_next_tx (sy_tm s)) else thread_number (?T i))"
    using begin_step_effect [OF st ok] inv by (simp_all add: system_inv_def)
  have threads: "thread_ok L m (?T' j)" for j
  proof (cases "j = i")
    case False
    have "thread_ok L m (?T j)"
    proof (rule thread_extends [OF ok e(1)])
      fix n
      assume "number_drawn (sy_tm s) n" and "thread_number (?T j) = Some n"
      moreover from this have "thread_number (?T i) \<noteq> Some n" using uniq False unfolding numbers_unique_def by blast
      ultimately show "number_drawn m n" by (intro e(4))
    qed
    with False show ?thesis by simp
  qed (simp add: e(2))
  have begun: "\<forall>tx \<in> set (sy_begun s). tx_begun L m tx"
    using inv begun_extends [OF _ e(1)] by (auto simp: system_inv_def)
  have "unat n < unat (tm_next_tx (sy_tm s))" if "thread_number (?T j) = Some n" for j n
    using thread_number_drawn [OF ok that] .
  moreover have "tx_begun L (sy_tm s) tx" if "tx \<in> set (sy_begun s)" for tx using inv that by (simp add: system_inv_def)
  ultimately have "numbers_unique ?T' ?B'"
    using e(5,6) by (intro numbers_unique_step [OF uniq, where k = "tm_next_tx (sy_tm s)"])
      (fastforce simp: tx_begun_def number_registered_def)+
  with threads begun e(1,3,5) inv show ?thesis
    by (auto simp: system_inv_def tm_extends_def split: option.splits)
qed

lemma system_end_inv:
  assumes "system_inv L s" and "tm_next_tx m = tm_next_tx (sy_tm s)" and "tm_registry m = tm_registry (sy_tm s)"
  shows "system_inv L (s\<lparr>sy_tm := m\<rparr>)"
proof -
  have "number_drawn m n \<longleftrightarrow> number_drawn (sy_tm s) n" "tm_extends (sy_tm s) m" for n
    using assms(2,3) by (auto simp: number_drawn_def tm_extends_def)
  then show ?thesis using assms thread_extends [of L "sy_tm s" _ m] begun_extends [of L "sy_tm s" _ m]
    by (auto simp: system_inv_def)
qed

lemma tm_end_keeps:
  "tm_next_tx (snd (tm_commit L t m)) = tm_next_tx m" "tm_registry (snd (tm_commit L t m)) = tm_registry m"
  "tm_next_tx (snd (tm_abort L t m)) = tm_next_tx m" "tm_registry (snd (tm_abort L t m)) = tm_registry m"
  by (simp_all add: tm_commit_def tm_abort_def split: option.splits)

lemma system_reachable_inv: "system_reachable L s \<Longrightarrow> system_inv L s"
proof (induction rule: system_reachable.induct)
  case system_start
  show ?case by (simp add: system_inv_def system_new_def tm_new_def numbers_unique_def)
next
  case (system_next s s')
  from system_next.hyps(2) show ?case
  proof (cases rule: system_step.cases)
    case (system_begin i pc m r)
    then show ?thesis using system_begin_inv [OF system_next.IH] by simp
  qed (auto intro: system_end_inv [OF system_next.IH] simp: tm_end_keeps)
qed

section \<open>Overtaking\<close>

lemma reachable_steps: "(system_step L)\<^sup>*\<^sup>* s s' \<Longrightarrow> system_reachable L s \<Longrightarrow> system_reachable L s'"
  by (induction rule: rtranclp_induct) (auto intro: system_next)

lemma steps_begin:
  assumes "(system_step L)\<^sup>*\<^sup>* s0 s" and "begin_step L (sy_threads s i, sy_tm s) (pc, m) r"
    and "s' = s\<lparr>sy_tm := m, sy_threads := (sy_threads s)(i := pc),
      sy_begun := (case r of None \<Rightarrow> sy_begun s | Some tx \<Rightarrow> sy_begun s @ [tx])\<rparr>"
  shows "(system_step L)\<^sup>*\<^sup>* s0 s'"
  unfolding assms(3) by (rule rtranclp.rtrancl_into_rtrancl [OF assms(1) system_begin [OF assms(2)]])

text \<open>The steps from a number that has been drawn to the end of the call, while no other thread moves.\<close>

lemma steps_finish:
  assumes st: "(system_step L)\<^sup>*\<^sup>* s0 s" and pc: "sy_threads s j = Numbered ro n"
    and snap: "begin_snapshot L n (begin_register n (TxId now) (sy_tm s)) = Ok sn"
    and tx: "tx = new_tx ro n (TxId now) sn"
  shows "(system_step L)\<^sup>*\<^sup>* s0 (s\<lparr>sy_tm := begin_activate tx (begin_register n (TxId now) (sy_tm s)),
     sy_threads := (sy_threads s)(j := Idle), sy_begun := sy_begun s @ [tx]\<rparr>)"
proof -
  let ?s = "\<lambda>m pc. s\<lparr>sy_tm := m, sy_threads := (sy_threads s)(j := pc)\<rparr>" and ?m = "begin_register n (TxId now) (sy_tm s)"
  have 1: "(system_step L)\<^sup>*\<^sup>* s0 (?s (sy_tm s) (Stamped ro n (TxId now)))"
    by (rule steps_begin [where i = j, OF st], unfold pc, rule step_stamp) simp
  have 2: "(system_step L)\<^sup>*\<^sup>* s0 (?s ?m (Registered ro n (TxId now)))"
    by (rule steps_begin [where i = j, OF 1], simp, rule step_register) simp
  have 3: "(system_step L)\<^sup>*\<^sup>* s0 (?s ?m (Started tx))"
    unfolding tx by (rule steps_begin [where i = j, OF 2], simp, rule step_snapshot [OF snap]) simp
  show ?thesis by (rule steps_begin [where i = j, OF 3], simp, rule step_activate) simp
qed

text \<open>A call of \<^verbatim>\<open>begin\<close> without other threads in between.\<close>

lemma begin_alone:
  assumes "sy_threads s j = Idle" and "unat (tm_next_tx (sy_tm s)) + 1 < 2 ^ 64"
  shows "(system_step L)\<^sup>*\<^sup>* s (s\<lparr>sy_tm := snd (tm_begin L now ro (sy_tm s)),
     sy_begun := sy_begun s @ [fst (tm_begin L now ro (sy_tm s))]\<rparr>)"
proof -
  obtain n m where f: "begin_fetch (sy_tm s) = (n, m)" by fastforce
  obtain sn where sn: "begin_snapshot L n (begin_register n (TxId now) m) = Ok sn"
      "tm_begin L now ro (sy_tm s) = (new_tx ro n (TxId now) sn,
        begin_activate (new_tx ro n (TxId now) sn) (begin_register n (TxId now) m))"
    using tm_begin_parts [OF f] by blast
  have "(system_step L)\<^sup>*\<^sup>* s (s\<lparr>sy_tm := m, sy_threads := (sy_threads s)(j := Numbered ro n)\<rparr>)"
    by (rule steps_begin [where i = j, OF rtranclp.rtrancl_refl], unfold assms(1), rule step_fetch [OF assms(2) f]) simp
  from steps_finish [where j = j, OF this _ _ refl, of ro n now sn] sn assms(1) show ?thesis
    by (simp add: fun_upd_idem)
qed

text \<open>A thread that draws its number after another one and registers first finds no entry for it.\<close>

lemma overtaking_snapshot:
  assumes "length (tm_registry m) \<le> unat n" and "1 \<le> unat n" and "unat n + 1 < 2 ^ 64"
  shows "begin_snapshot L (n + 1) (begin_register (n + 1) t m) = Ok (tx_nil L)"
proof -
  have n: "unat (n + 1) = Suc (unat n)" using unat_next [OF assms(3)] by simp
  then have "n + 1 > 1" using assms(2) by (simp add: word_less_nat_alt)
  moreover have "unat n < length (tm_registry (begin_register (n + 1) t m))"
    using length_register [of "n + 1" t m] n by simp
  moreover from this have "tm_registry (begin_register (n + 1) t m) ! unat n = None"
    using registry_register [of "unat n" "n + 1" t m] assms(1) n by simp
  ultimately show ?thesis by (simp add: begin_snapshot_def)
qed

lemma overtaking_steps:
  assumes "system_reachable L s" and "i \<noteq> j" and "sy_threads s i = Idle" and "sy_threads s j = Idle"
    and "unat (tm_next_tx (sy_tm s)) + 2 < 2 ^ 64" and tx: "tx = new_tx ro (tm_next_tx (sy_tm s) + 1) (TxId now) (tx_nil L)"
  shows "\<exists>s'. (system_step L)\<^sup>*\<^sup>* s s' \<and> sy_threads s' i = Numbered ro (tm_next_tx (sy_tm s)) \<and>
     sy_begun s' = sy_begun s @ [tx]"
proof -
  let ?n = "tm_next_tx (sy_tm s)" and ?T = "sy_threads s"
  have inv: "length (tm_registry (sy_tm s)) \<le> unat ?n" "1 \<le> unat ?n"
    using system_reachable_inv [OF assms(1)] by (auto simp: system_inv_def)
  have n: "unat (?n + 1) = unat ?n + 1" using assms(5) by (intro unat_next) simp
  let ?m1 = "(sy_tm s)\<lparr>tm_next_tx := ?n + 1\<rparr>" and ?m2 = "(sy_tm s)\<lparr>tm_next_tx := ?n + 2\<rparr>"
  let ?s = "\<lambda>m pc. s\<lparr>sy_tm := m, sy_threads := ?T(i := Numbered ro ?n, j := pc)\<rparr>"
  have idle: "?T(i := pc, j := Idle) = ?T(i := pc)" for pc using assms(2,4) by auto
  have 1: "(system_step L)\<^sup>*\<^sup>* s (?s ?m1 Idle)"
    by (rule steps_begin [where i = i, OF rtranclp.rtrancl_refl], unfold assms(3), rule step_fetch [where ro = ro])
      (use assms(5) idle in \<open>simp_all add: begin_fetch_def\<close>)
  have 2: "(system_step L)\<^sup>*\<^sup>* s (?s ?m2 (Numbered ro (?n + 1)))"
    by (rule steps_begin [where i = j, OF 1], simp, rule step_fetch [where ro = ro])
      (use assms(2,5) n in \<open>auto simp: begin_fetch_def\<close>)
  have "begin_snapshot L (?n + 1) (begin_register (?n + 1) (TxId now) ?m2) = Ok (tx_nil L)"
    by (rule overtaking_snapshot) (use inv assms(5) in simp_all)
  with steps_finish [where j = j, OF 2 _ _ tx] assms(2) show ?thesis by - (rule exI, rule conjI, auto)
qed

text \<open>A transaction that begins alone has the snapshot of the one that began before it.\<close>

lemma begin_alone_snapshot:
  assumes "system_inv L s" and "tx0 \<in> set (sy_begun s)" and "tm_next_tx (sy_tm s) = t_tx_number tx0 + 1"
    and "unat (tm_next_tx (sy_tm s)) + 1 < 2 ^ 64"
  shows "t_snapshot_tx (fst (tm_begin L now ro (sy_tm s))) = t_tx_id tx0"
proof -
  let ?n0 = "t_tx_number tx0" and ?m = "sy_tm s"
  have r: "1 \<le> unat ?n0" "unat ?n0 < unat (tm_next_tx ?m)" "unat ?n0 < length (tm_registry ?m)"
      "tm_registry ?m ! unat ?n0 = Some (t_tx_id tx0)"
    using assms(1,2) by (auto simp: system_inv_def tx_begun_def number_registered_def)
  then have n: "unat (tm_next_tx ?m) = unat ?n0 + 1" using assms(3,4) unat_next [of ?n0] by simp
  then have "tm_next_tx ?m > 1" using r(1) by (simp add: word_less_nat_alt)
  with n r(3,4) show ?thesis
    by (simp add: tm_begin_def Let_def grow_registry_def nth_append)
qed

lemma sample_system:
  "sy_threads (system_new sample_lib) i = Idle" "sy_begun (system_new sample_lib) = []"
  "unat (tm_next_tx (sy_tm (system_new sample_lib))) + 2 < 2 ^ 64"
  by (simp_all add: system_new_def tm_new_def)

section \<open>What the manager promises, and what it does not\<close>

text \<open>C28. Whatever threads use the transaction manager and however their steps interleave: no thread
  panics, no two transactions get the same number, and the snapshot of a transaction is the one with the
  previous number or nil, never any other.\<close>

theorem threads_safe:
  assumes "system_reachable L s"
  shows "(\<forall>i p. sy_threads s i \<noteq> Crashed p) \<and> distinct (map t_tx_number (sy_begun s)) \<and>
     (\<forall>tx \<in> set (sy_begun s). \<forall>tx' \<in> set (sy_begun s).
        unat (t_tx_number tx) = Suc (unat (t_tx_number tx')) \<longrightarrow>
        t_snapshot_tx tx = t_tx_id tx' \<or> t_snapshot_tx tx = tx_nil L)"
proof (intro conjI allI ballI impI)
  have inv: "system_inv L s" using assms by (rule system_reachable_inv)
  then show "distinct (map t_tx_number (sy_begun s))" by (simp add: system_inv_def numbers_unique_def)
  show "sy_threads s i \<noteq> Crashed p" for i p
  proof
    assume c: "sy_threads s i = Crashed p"
    have "thread_ok L (sy_tm s) (sy_threads s i)" using inv by (simp add: system_inv_def)
    then show False unfolding c by simp
  qed
  fix tx tx'
  assume "tx \<in> set (sy_begun s)" "tx' \<in> set (sy_begun s)" and n: "unat (t_tx_number tx) = Suc (unat (t_tx_number tx'))"
  then have "tx_begun L (sy_tm s) tx" "tx_begun L (sy_tm s) tx'" using inv by (auto simp: system_inv_def)
  then show "t_snapshot_tx tx = t_tx_id tx' \<or> t_snapshot_tx tx = tx_nil L"
    using n by (auto simp: tx_begun_def number_registered_def)
qed

theorem threads_safe_witness:
  "\<exists>s tx. system_reachable sample_lib s \<and> sy_begun s = [tx] \<and> (\<forall>i p. sy_threads s i \<noteq> Crashed p)"
proof -
  obtain s where s: "(system_step sample_lib)\<^sup>*\<^sup>* (system_new sample_lib) s"
      "sy_begun s = [new_tx True 2 (TxId 5) (tx_nil sample_lib)]"
    using overtaking_steps [where ro = True, OF system_start _ sample_system(1,1,3) refl, of 0 1 5]
    by (auto simp: sample_system(2)) (simp add: system_new_def tm_new_def)
  from reachable_steps [OF s(1) system_start] have r: "system_reachable sample_lib s" .
  with threads_safe [OF r] s(2) show ?thesis by blast
qed

text \<open>C29. A transaction can lose its snapshot when another thread is in the middle of \<^verbatim>\<open>begin\<close>.  Take any reachable
  state with two idle threads \<open>i\<close> and \<open>j\<close>, in which \<open>tx0\<close> was the last transaction to begin, committed or not,
  and a row version written by \<open>tx0\<close> and not deleted.  If \<open>j\<close> begins a transaction alone, its snapshot is \<open>tx0\<close> and it
  sees the row.  But from the same state the threads can also take steps after which \<open>i\<close> has drawn its number but not
  registered it, and \<open>j\<close> has drawn the next number and begun its transaction: that one has the nil snapshot and
  does not see the row.\<close>

theorem threads_lost_snapshot:
  assumes "system_reachable L s" and "i \<noteq> j" and "sy_threads s i = Idle" and "sy_threads s j = Idle"
    and "unat (tm_next_tx (sy_tm s)) + 2 < 2 ^ 64"
    and "tx0 \<in> set (sy_begun s)" and "tm_next_tx (sy_tm s) = t_tx_number tx0 + 1" and "tx_gt L (t_tx_id tx0) (tx_nil L)"
    and "rv_created_by v = t_tx_id tx0" and "rv_deleted_by v = None"
  shows "(\<exists>s1 tx1. (system_step L)\<^sup>*\<^sup>* s s1 \<and> sy_begun s1 = sy_begun s @ [tx1] \<and> t_tx_id tx1 = TxId now \<and>
       sy_threads s1 = sy_threads s \<and> t_tx_number tx1 = tm_next_tx (sy_tm s) \<and>
       t_snapshot_tx tx1 = t_tx_id tx0 \<and> is_visible L v tx1) \<and>
     (\<exists>s2 tx2. (system_step L)\<^sup>*\<^sup>* s s2 \<and> sy_begun s2 = sy_begun s @ [tx2] \<and> t_tx_id tx2 = TxId now \<and>
       sy_threads s2 i = Numbered ro (tm_next_tx (sy_tm s)) \<and> t_tx_number tx2 = tm_next_tx (sy_tm s) + 1 \<and>
       t_snapshot_tx tx2 = tx_nil L \<and> \<not> is_visible L v tx2)"
proof (rule conjI)
  let ?tx1 = "fst (tm_begin L now ro (sy_tm s))"
  have b: "unat (tm_next_tx (sy_tm s)) + 1 < 2 ^ 64" using assms(5) by simp
  have snap: "t_snapshot_tx ?tx1 = t_tx_id tx0"
    by (rule begin_alone_snapshot [OF system_reachable_inv [OF assms(1)] assms(6,7) b])
  have tx1: "t_tx_id ?tx1 = TxId now" "t_tx_number ?tx1 = tm_next_tx (sy_tm s)" by (simp_all add: tm_begin_def Let_def)
  have "is_visible L v ?tx1" using assms(9,10) snap by (simp add: is_visible_key)
  then show "\<exists>s1 tx1. (system_step L)\<^sup>*\<^sup>* s s1 \<and> sy_begun s1 = sy_begun s @ [tx1] \<and> t_tx_id tx1 = TxId now \<and>
      sy_threads s1 = sy_threads s \<and> t_tx_number tx1 = tm_next_tx (sy_tm s) \<and>
      t_snapshot_tx tx1 = t_tx_id tx0 \<and> is_visible L v tx1"
    using begin_alone [OF assms(4) b, of L now ro] snap tx1
    by (intro exI [of _ "s\<lparr>sy_tm := snd (tm_begin L now ro (sy_tm s)), sy_begun := sy_begun s @ [?tx1]\<rparr>"]
        exI [of _ ?tx1]) simp
next
  let ?tx2 = "new_tx ro (tm_next_tx (sy_tm s) + 1) (TxId now) (tx_nil L)"
  obtain s2 where s2: "(system_step L)\<^sup>*\<^sup>* s s2" "sy_threads s2 i = Numbered ro (tm_next_tx (sy_tm s))"
      "sy_begun s2 = sy_begun s @ [?tx2]"
    using overtaking_steps [OF assms(1-5) refl] by blast
  have "\<not> is_visible L v ?tx2" using assms(8,9) by (simp add: is_visible_key tx_gt_key new_tx_def)
  with s2 show "\<exists>s2 tx2. (system_step L)\<^sup>*\<^sup>* s s2 \<and> sy_begun s2 = sy_begun s @ [tx2] \<and> t_tx_id tx2 = TxId now \<and>
      sy_threads s2 i = Numbered ro (tm_next_tx (sy_tm s)) \<and> t_tx_number tx2 = tm_next_tx (sy_tm s) + 1 \<and>
      t_snapshot_tx tx2 = tx_nil L \<and> \<not> is_visible L v tx2"
    by (intro exI [of _ s2] exI [of _ ?tx2]) (simp add: new_tx_def)
qed

text \<open>A transaction that has begun and committed before the two threads run.\<close>

definition sample_committed :: "128 word tm_system" where
  "sample_committed = (let (tx, m) = tm_begin sample_lib 4 False (tm_new sample_lib) in
     (system_new sample_lib)\<lparr>sy_begun := [tx], sy_tm := snd (tm_commit sample_lib (TxId 4) m)\<rparr>)"

lemma sample_committed_simps:
  "sy_threads sample_committed i = Idle" "tm_next_tx (sy_tm sample_committed) = 2"
  "\<exists>tx0. sy_begun sample_committed = [tx0] \<and> t_tx_id tx0 = TxId 4 \<and> t_tx_number tx0 = 1"
  "fst (tm_commit sample_lib (TxId 4) (snd (tm_begin sample_lib 4 False (tm_new sample_lib)))) = Ok ()"
  by (simp_all add: sample_committed_def tm_begin_def tm_commit_def tm_new_def system_new_def Let_def)

lemma sample_committed_reachable: "system_reachable sample_lib sample_committed"
proof -
  let ?s = "system_new sample_lib" and ?b = "tm_begin sample_lib 4 False (tm_new sample_lib)"
  have "(system_step sample_lib)\<^sup>*\<^sup>* ?s (?s\<lparr>sy_tm := snd ?b, sy_begun := [fst ?b]\<rparr>)"
    using begin_alone [of ?s 0 sample_lib 4 False] by (simp add: system_new_def tm_new_def)
  from system_next [OF reachable_steps [OF this system_start] system_commit [of _ _ "TxId 4"]] show ?thesis
    by (simp add: sample_committed_def case_prod_beta)
qed

theorem threads_lost_snapshot_witness:
  "let v = \<lparr>rv_created_by = TxId 4, rv_deleted_by = None, rv_value = [42]\<rparr> in
   (\<exists>s1 tx1. (system_step sample_lib)\<^sup>*\<^sup>* sample_committed s1 \<and> tx1 \<in> set (sy_begun s1) \<and>
      t_tx_id tx1 = TxId 5 \<and> is_visible sample_lib v tx1) \<and>
   (\<exists>s2 tx2. (system_step sample_lib)\<^sup>*\<^sup>* sample_committed s2 \<and> tx2 \<in> set (sy_begun s2) \<and>
      t_tx_id tx2 = TxId 5 \<and> sy_threads s2 0 = Numbered True 2 \<and> \<not> is_visible sample_lib v tx2)"
proof -
  let ?v = "\<lparr>rv_created_by = TxId 4, rv_deleted_by = None, rv_value = [42]\<rparr> :: 128 word row_version"
  obtain tx0 where tx0: "sy_begun sample_committed = [tx0]" "t_tx_id tx0 = TxId 4" "t_tx_number tx0 = 1"
    using sample_committed_simps(3) by blast
  have gt: "tx_gt sample_lib (t_tx_id tx0) (tx_nil sample_lib)"
    by (simp add: tx0(2) tx_gt_key tx_key_def extract_timestamp_def tx_nil_def sample_lib_def)
  have "tx0 \<in> set (sy_begun sample_committed)" "tm_next_tx (sy_tm sample_committed) = t_tx_number tx0 + 1"
      "unat (tm_next_tx (sy_tm sample_committed)) + 2 < 2 ^ 64" "rv_created_by ?v = t_tx_id tx0" "rv_deleted_by ?v = None"
    by (simp_all add: tx0 sample_committed_simps(2))
  note c = threads_lost_snapshot [OF sample_committed_reachable zero_neq_one sample_committed_simps(1,1)
      this(3,1,2) gt this(4,5), of 5 True]
  obtain s1 tx1 where 1: "(system_step sample_lib)\<^sup>*\<^sup>* sample_committed s1" "sy_begun s1 = [tx0] @ [tx1]"
      "t_tx_id tx1 = TxId 5" "is_visible sample_lib ?v tx1"
    using c unfolding tx0(1) by blast
  obtain s2 tx2 where 2: "(system_step sample_lib)\<^sup>*\<^sup>* sample_committed s2" "sy_begun s2 = [tx0] @ [tx2]"
      "t_tx_id tx2 = TxId 5" "sy_threads s2 0 = Numbered True 2" "\<not> is_visible sample_lib ?v tx2"
    using c unfolding tx0(1) sample_committed_simps(2) by blast
  have "tx1 \<in> set (sy_begun s1)" "tx2 \<in> set (sy_begun s2)" by (simp_all add: 1(2) 2(2))
  with 1 2 show ?thesis unfolding Let_def by blast
qed

end
