(* ===== verification/Runtime_Env.thy ===== *)
theory Runtime_Env
  imports Core_Types Complex_Main
begin

text \<open>
  \<^verbatim>\<open>sabi-runtime/src/types.rs\<close>: the deterministic environment of a transaction and its random number
  generator, with the generator that the runtime installs as \<^verbatim>\<open>Math.random\<close>
  (\<^verbatim>\<open>sabi-runtime/src/deterministic/mod.rs\<close>) and the seed derived from a transaction id.

  A conversion \<^verbatim>\<open>u64 as f64\<close> rounds to the nearest number with 53 significant bits, ties to even; its
  result is an integer.  \<^verbatim>\<open>u64::MAX as f64\<close> is 2 to the power of 64, and a division by a power of two is exact.
\<close>

section \<open>The environment\<close>

record 'u transaction_context =
  tc_tx_id :: 'u
  tc_start_time :: u64
  tc_is_read_only :: bool

record 'u deterministic_env =
  de_random_seed :: u64
  de_logical_time :: u64
  de_context :: "'u transaction_context"

fun bit_length :: "nat \<Rightarrow> nat" where
  "bit_length n = (if n = 0 then 0 else Suc (bit_length (n div 2)))"

declare bit_length.simps [simp del]

definition u64_as_f64 :: "u64 \<Rightarrow> nat" where
  "u64_as_f64 x =
     (let n = unat x; e = bit_length n in
      if e \<le> 53 then n
      else
        let s = e - 53; q = n div 2 ^ s; r = n mod 2 ^ s; half = 2 ^ (s - 1)
        in (if half < r \<or> r = half \<and> odd q then q + 1 else q) * 2 ^ s)"

definition xorshift :: "u64 \<Rightarrow> u64" where
  "xorshift x =
     (let x = x XOR push_bit 13 x;
          x = x XOR drop_bit 7 x;
          x = x XOR push_bit 17 x
      in x)"

definition random :: "'u deterministic_env \<Rightarrow> real \<times> 'u deterministic_env" where
  "random env =
     (let x = xorshift (de_random_seed env)
      in (real (u64_as_f64 x) / 2 ^ 64, env\<lparr>de_random_seed := x\<rparr>))"

definition now :: "'u deterministic_env \<Rightarrow> u64" where
  "now env = de_logical_time env"

text \<open>\<^verbatim>\<open>Math.random\<close> of the script: 32-bit integers, and a right shift that repeats the sign.  The seed is a
  number literal of the script, which a bitwise operation reduces to 32 bits.\<close>

definition js_seed :: "u64 \<Rightarrow> u32" where
  "js_seed seed = of_nat (u64_as_f64 seed)"

definition js_xorshift :: "u32 \<Rightarrow> u32" where
  "js_xorshift x =
     (let x = x XOR push_bit 13 x;
          x = x XOR signed_drop_bit 7 x;
          x = x XOR push_bit 17 x
      in x)"

definition math_random :: "u32 \<Rightarrow> real \<times> u32" where
  "math_random seed = (let x = js_xorshift seed in (real (unat x) / 4294967296, x))"

text \<open>The seed of a transaction: the first eight bytes of its id.\<close>

fun seed_bytes :: "nat \<Rightarrow> bytes \<Rightarrow> u64 \<Rightarrow> u64" where
  "seed_bytes i [] seed = seed"
| "seed_bytes i (b # bs) seed = seed_bytes (Suc i) bs (seed OR push_bit (i * 8) (ucast b))"

definition generate_deterministic_seed :: "'u ext_lib \<Rightarrow> 'u tx_id \<Rightarrow> u64" where
  "generate_deterministic_seed L t = seed_bytes 0 (take 8 (uuid_as_bytes L (uuid_of t))) 0"

section \<open>The generators are permutations\<close>

lemma inj_xor_push: "0 < k \<Longrightarrow> inj (\<lambda>x :: 'a::len word. x XOR push_bit k x)"
proof (rule injI, rule bit_eqI)
  fix x y :: "'a word" and n
  assume k: "0 < k" and eq: "x XOR push_bit k x = y XOR push_bit k y"
  show "bit x n = bit y n"
  proof (induction n rule: less_induct)
    case (less n)
    have "bit (x XOR push_bit k x) n = bit (y XOR push_bit k y) n" using eq by simp
    with less [of "n - k"] k show ?case by (cases "n < k") (auto simp: bit_simps)
  qed
qed

text \<open>A right shift: the bits agree from the top downwards.\<close>

lemma inj_xor_down:
  fixes sh :: "'a::len word \<Rightarrow> 'a word"
  assumes "\<And>x n. n < LENGTH('a) \<Longrightarrow> bit (sh x) n = (n + k < LENGTH('a) \<and> bit x (n + k))" and "0 < k"
  shows "inj (\<lambda>x. x XOR sh x)"
proof (rule injI, rule bit_eqI)
  fix x y :: "'a word" and n
  assume eq: "x XOR sh x = y XOR sh y" and n: "possible_bit TYPE('a word) n"
  have "bit x n = bit y n" if "n < LENGTH('a)" for n
    using that
  proof (induction "LENGTH('a) - n" arbitrary: n rule: less_induct)
    case less
    have "bit (x XOR sh x) n = bit (y XOR sh y) n" using eq by simp
    then have "(bit x n \<noteq> bit (sh x) n) = (bit y n \<noteq> bit (sh y) n)" by (simp add: bit_xor_iff)
    moreover have "bit (sh x) n = bit (sh y) n"
      using assms less.prems less.hyps [of "n + k"] by (cases "n + k < LENGTH('a)") auto
    ultimately show ?case by blast
  qed
  with n show "bit x n = bit y n" by simp
qed

lemma xorshift_comp:
  "xorshift = (\<lambda>x. x XOR push_bit 17 x) \<circ> (\<lambda>x. x XOR drop_bit 7 x) \<circ> (\<lambda>x. x XOR push_bit 13 x)"
  by (simp add: xorshift_def comp_def Let_def fun_eq_iff)

lemma inj_xorshift: "inj xorshift"
  unfolding xorshift_comp
proof (intro inj_compose)
  show "inj (\<lambda>x :: u64. x XOR drop_bit 7 x)"
    by (rule inj_xor_down [where k = 7]) (auto simp: bit_drop_bit_eq add.commute dest: bit_imp_le_length)
qed (simp_all add: inj_xor_push)

lemma xorshift_0 [simp]: "xorshift 0 = 0"
  by (simp add: xorshift_def)

lemma xorshift_eq_0: "xorshift x = 0 \<longleftrightarrow> x = 0"
  using inj_eq [OF inj_xorshift, of x 0] by simp

lemma bij_xorshift: "bij xorshift"
  by (simp add: bij_def inj_xorshift finite_UNIV_inj_surj [OF finite inj_xorshift])

text \<open>The states of the generator recur.\<close>

lemma inj_iterate_periodic:
  fixes f :: "'a::finite \<Rightarrow> 'a"
  assumes "inj f"
  shows "\<exists>p > 0. (f ^^ p) x = x"
proof -
  have "\<not> inj (\<lambda>n :: nat. (f ^^ n) x)"
    using finite_imageD [of "\<lambda>n :: nat. (f ^^ n) x" UNIV] infinite_UNIV_nat by auto
  then obtain m n where mn: "m < n" "(f ^^ m) x = (f ^^ n) x"
    by (metis injI linorder_neqE_nat)
  then have "(f ^^ m) x = (f ^^ m) ((f ^^ (n - m)) x)"
    by (metis add_diff_inverse_nat comp_apply funpow_add less_imp_not_less)
  then have "(f ^^ (n - m)) x = x" using inj_fn [OF assms, of m] by (simp add: inj_eq)
  with mn(1) show ?thesis by (intro exI [of _ "n - m"]) simp
qed

section \<open>Bounds\<close>

lemma bit_length_bound: "n < 2 ^ k \<Longrightarrow> bit_length n \<le> k"
proof (induction n arbitrary: k rule: bit_length.induct)
  case (1 n)
  show ?case
  proof (cases "n = 0")
    case False
    with "1.prems" obtain k' where k: "k = Suc k'" by (cases k) auto
    with "1.prems" have "n div 2 < 2 ^ k'" by (simp add: div_less_iff_less_mult mult.commute)
    with "1.IH" [OF False] k False show ?thesis by (simp add: bit_length.simps [of n])
  qed (simp add: bit_length.simps)
qed

lemma bit_length_lower: "n \<noteq> 0 \<Longrightarrow> 2 ^ (bit_length n - 1) \<le> n"
proof (induction n rule: bit_length.induct)
  case (1 n)
  show ?case
  proof (cases "n div 2 = 0")
    case False
    with 1 have "2 ^ (bit_length (n div 2) - 1) \<le> n div 2" by simp
    moreover have "bit_length (n div 2) \<noteq> 0" using False by (simp add: bit_length.simps [of "n div 2"])
    ultimately have "2 ^ bit_length (n div 2) \<le> n"
      by (cases "bit_length (n div 2)") auto
    with 1 show ?thesis by (simp add: bit_length.simps [of n])
  qed (use 1 in \<open>simp add: bit_length.simps [of n] bit_length.simps [of 0]\<close>)
qed

lemma bit_length_upper: "n < 2 ^ bit_length n"
proof (induction n rule: bit_length.induct)
  case (1 n)
  show ?case
  proof (cases "n = 0")
    case False
    with 1 have "n div 2 < 2 ^ bit_length (n div 2)" by simp
    then have "n < 2 * 2 ^ bit_length (n div 2)" by linarith
    with False show ?thesis by (simp add: bit_length.simps [of n])
  qed (simp add: bit_length.simps)
qed

lemma round_bounds:
  fixes q r s :: nat
  assumes "q < 2 ^ 53" and "s \<le> 11" and "0 < s" and "r < 2 ^ s"
  defines "v \<equiv> (if 2 ^ (s - 1) < r \<or> r = 2 ^ (s - 1) \<and> odd q then q + 1 else q) * 2 ^ s"
  shows "v \<le> 2 ^ 64" and "v = 2 ^ 64 \<longleftrightarrow> s = 11 \<and> q = 2 ^ 53 - 1 \<and> 2 ^ 10 \<le> r"
proof -
  let ?m = "if 2 ^ (s - 1) < r \<or> r = 2 ^ (s - 1) \<and> odd q then q + 1 else q"
  have m: "?m \<le> 2 ^ 53" using assms(1) by simp
  have p: "(2 :: nat) ^ s \<le> 2 ^ 11" using assms(2) by (rule power_increasing) simp
  have "v \<le> 2 ^ 53 * 2 ^ 11" unfolding v_def by (rule mult_le_mono [OF m p])
  then show "v \<le> 2 ^ 64" by simp
  have "v = 2 ^ 64 \<longleftrightarrow> ?m = 2 ^ 53 \<and> s = 11"
  proof
    assume v: "v = 2 ^ 64"
    have "s = 11"
    proof (rule ccontr)
      assume "s \<noteq> 11"
      with assms(2) have "(2 :: nat) ^ s \<le> 2 ^ 10" by (intro power_increasing) simp_all
      from mult_le_mono [OF m this] v show False unfolding v_def by simp
    qed
    with v show "?m = 2 ^ 53 \<and> s = 11" unfolding v_def by simp
  next
    assume m53: "?m = 2 ^ 53 \<and> s = 11"
    have "v = ?m * 2 ^ s" by (simp add: v_def)
    then show "v = 2 ^ 64" unfolding conjunct1 [OF m53] using m53 by simp
  qed
  also have "\<dots> \<longleftrightarrow> s = 11 \<and> q = 2 ^ 53 - 1 \<and> 2 ^ 10 \<le> r"
    using assms(1) by (auto split: if_splits)
  finally show "v = 2 ^ 64 \<longleftrightarrow> s = 11 \<and> q = 2 ^ 53 - 1 \<and> 2 ^ 10 \<le> r" .
qed

lemma u64_as_f64_bounds:
  "u64_as_f64 x \<le> 2 ^ 64 \<and> (u64_as_f64 x = 2 ^ 64 \<longleftrightarrow> 2 ^ 64 - 2 ^ 10 \<le> unat x)"
proof (cases "bit_length (unat x) \<le> 53")
  case True
  have "unat x < 2 ^ bit_length (unat x)" by (rule bit_length_upper)
  also have "\<dots> \<le> 2 ^ 53" using True by (rule power_increasing) simp
  finally have "unat x < 2 ^ 53" .
  with True show ?thesis by (simp add: u64_as_f64_def Let_def)
next
  case False
  let ?n = "unat x" and ?e = "bit_length (unat x)"
  define s where "s = ?e - 53"
  have n64: "?n < 2 ^ 64" using unsigned_less [where ?'a = nat and w = x] by simp
  have e: "?e \<le> 64" using n64 by (rule bit_length_bound)
  have es: "?e = 53 + s" using False by (simp add: s_def)
  have s: "0 < s" "s \<le> 11" using False e es by simp_all
  have "?n < 2 ^ 53 * 2 ^ s" using bit_length_upper [of ?n] es by (simp add: power_add)
  then have q: "?n div 2 ^ s < 2 ^ 53" by (simp add: div_less_iff_less_mult)
  have r: "?n mod 2 ^ s < 2 ^ s" by simp
  note b = round_bounds [OF q s(2,1) r]
  have v: "u64_as_f64 x = (if 2 ^ (s - 1) < ?n mod 2 ^ s \<or> ?n mod 2 ^ s = 2 ^ (s - 1) \<and> odd (?n div 2 ^ s)
      then ?n div 2 ^ s + 1 else ?n div 2 ^ s) * 2 ^ s"
    using False by (simp add: u64_as_f64_def s_def Let_def)
  have "s = 11 \<and> ?n div 2 ^ s = 2 ^ 53 - 1 \<and> 2 ^ 10 \<le> ?n mod 2 ^ s \<longleftrightarrow> 2 ^ 64 - 2 ^ 10 \<le> ?n"
  proof
    assume h: "s = 11 \<and> ?n div 2 ^ s = 2 ^ 53 - 1 \<and> 2 ^ 10 \<le> ?n mod 2 ^ s"
    then have "?n div 2048 = 9007199254740991" "1024 \<le> ?n mod 2048" by auto
    with div_mult_mod_eq [of ?n 2048] show "2 ^ 64 - 2 ^ 10 \<le> ?n" by simp
  next
    assume h: "2 ^ 64 - 2 ^ 10 \<le> ?n"
    have "s = 11"
    proof (rule ccontr)
      assume "s \<noteq> 11"
      with s es have "?e \<le> 63" by simp
      then have "(2 :: nat) ^ ?e \<le> 2 ^ 63" by (rule power_increasing) simp
      with bit_length_upper [of ?n] h show False by simp
    qed
    moreover have d: "?n div 2048 = 9007199254740991" using h n64 by (intro div_nat_eqI) simp_all
    moreover have "1024 \<le> ?n mod 2048" using div_mult_mod_eq [of ?n 2048] h d by simp
    ultimately show "s = 11 \<and> ?n div 2 ^ s = 2 ^ 53 - 1 \<and> 2 ^ 10 \<le> ?n mod 2 ^ s" by simp
  qed
  with b v show ?thesis by simp
qed

text \<open>C38. The values of the random number generator lie between 0 and 1; the value 1, which a uniform generator over
  the half-open interval never yields, occurs exactly for the 1024 largest states.\<close>

theorem random_bounds:
  "0 \<le> fst (random env) \<and> fst (random env) \<le> 1 \<and>
     (fst (random env) = 1 \<longleftrightarrow> 2 ^ 64 - 2 ^ 10 \<le> unat (de_random_seed (snd (random env))))"
proof -
  let ?x = "xorshift (de_random_seed env)"
  define v where "v = u64_as_f64 ?x"
  have b: "v \<le> 2 ^ 64" "v = 2 ^ 64 \<longleftrightarrow> 2 ^ 64 - 2 ^ 10 \<le> unat ?x"
    using u64_as_f64_bounds [of ?x] unfolding v_def by blast+
  have r: "fst (random env) = real v / real (2 ^ 64)" "de_random_seed (snd (random env)) = ?x"
    by (simp_all add: random_def v_def Let_def)
  have "real v \<le> real (2 ^ 64)" using b(1) by (simp only: of_nat_le_iff)
  then have "fst (random env) \<le> 1" unfolding r by (simp add: divide_le_eq_1)
  moreover have "fst (random env) = 1 \<longleftrightarrow> real v = real (2 ^ 64)" unfolding r by (simp add: divide_eq_1_iff)
  then have "fst (random env) = 1 \<longleftrightarrow> v = 2 ^ 64" by (simp only: of_nat_eq_iff)
  moreover have "0 \<le> fst (random env)" unfolding r by simp
  ultimately show ?thesis unfolding r(2) b(2) by blast
qed

text \<open>The states of the generator form cycles: one step is a permutation of the 64-bit words, every state recurs,
  and only the seed 0 ever leads to the state 0, in which it stays.\<close>

lemma xorshift_permutation:
  "bij xorshift \<and> (\<forall>x. xorshift x = 0 \<longleftrightarrow> x = 0) \<and> (\<forall>x. \<exists>p > 0. (xorshift ^^ p) x = x)"
  using bij_xorshift xorshift_eq_0 inj_iterate_periodic [OF inj_xorshift] by blast

lemma js_xorshift_0 [simp]: "js_xorshift 0 = 0"
  by (simp add: js_xorshift_def)

lemma signed_drop_bit_not: "signed_drop_bit n (NOT x) = NOT (signed_drop_bit n x :: 'a::len word)"
  by (rule bit_eqI) (auto simp: bit_signed_drop_bit_iff bit_not_iff)

lemma xor_signed_not: "NOT x XOR signed_drop_bit n (NOT x) = x XOR signed_drop_bit n (x :: 'a::len word)"
  by (simp add: signed_drop_bit_not)

text \<open>C39. The generator that scripts see is not such a permutation: its right shift repeats the sign, so a step maps two
  states to one.  A non-zero seed can lead to the state 0 in one step, after which \<^verbatim>\<open>Math.random\<close> returns 0 for
  ever.\<close>

theorem math_random_collapses:
  "\<exists>seed \<noteq> 0. \<forall>n. fst (math_random ((js_xorshift ^^ n) seed)) = 0"
proof -
  have "js_xorshift 0xFC001FFF = 0" by code_simp
  then have "(js_xorshift ^^ Suc n) 0xFC001FFF = 0" for n by (induction n) auto
  then have "fst (math_random ((js_xorshift ^^ n) 0xFC001FFF)) = 0" for n
    using funpow.simps(2) [of n js_xorshift] by (simp add: math_random_def Let_def)
  then show ?thesis by (intro exI [of _ "0xFC001FFF"]) simp
qed

section \<open>Seeds\<close>

lemma seed_bytes_from_le:
  "8 * (i + length bs) \<le> 64 \<Longrightarrow> seed_bytes i bs seed = seed OR push_bit (i * 8) (from_le bs)"
proof (induction bs arbitrary: i seed)
  case (Cons b bs)
  have "seed_bytes i (b # bs) seed = (seed OR push_bit (i * 8) (ucast b)) OR push_bit (Suc i * 8) (from_le bs)"
    using Cons by simp
  also have "\<dots> = seed OR push_bit (i * 8) (from_le (b # bs))"
    by (simp add: push_bit_or or.assoc add.commute)
  finally show ?case .
qed simp

text \<open>The loop that mixes the seed is the little-endian number in the first eight bytes of the transaction id; two
  transactions share their random numbers exactly if their ids agree in these bytes.\<close>

lemma seed_is_prefix:
  assumes "uuid_laws L"
  shows "generate_deterministic_seed L t = from_le (take 8 (uuid_as_bytes L (uuid_of t))) \<and>
     (generate_deterministic_seed L t = generate_deterministic_seed L u \<longleftrightarrow>
        take 8 (uuid_as_bytes L (uuid_of t)) = take 8 (uuid_as_bytes L (uuid_of u)))"
proof -
  have seed: "generate_deterministic_seed L t = from_le (take 8 (uuid_as_bytes L (uuid_of t)))" for t
    by (simp add: generate_deterministic_seed_def seed_bytes_from_le uuid_lawsD [OF assms])
  have "xs = ys" if "from_le xs = (from_le ys :: u64)" "length xs = 8" "length ys = 8" for xs ys
    using that le_bytes_from_le [of xs, where 'a = 64] le_bytes_from_le [of ys, where 'a = 64] by simp
  then show ?thesis using seed by (auto simp: uuid_lawsD [OF assms])
qed

end
