(* ===== verification/Runtime.thy ===== *)
theory Runtime
  imports Runtime_Env
begin

text \<open>
  The JavaScript runtime of \<^verbatim>\<open>sabi-runtime/src/deterministic/mod.rs\<close>.  The crates \<^verbatim>\<open>deno_core\<close> and
  \<^verbatim>\<open>serde_json\<close> are parameters, the fields of the record \<open>js_lib\<close>: the state of the engine has the type
  \<open>'j\<close>, a value in it the type \<open>'h\<close>, a JSON value the type \<open>'d\<close> and a double the type \<open>'f\<close>; a failure is
  its text.  Nothing is assumed about them.  The debugging output is left out, and the measured duration
  is an argument.
\<close>

section \<open>Data\<close>

datatype 'f js_value =
    JsNull
  | JsBool bool
  | JsNumber 'f
  | JsString string
  | JsArray "'f js_value list"
  | JsObject "string \<rightharpoonup> 'f js_value"

fun type_name :: "'f js_value \<Rightarrow> string" where
  "type_name JsNull = ''null''"
| "type_name (JsBool _) = ''boolean''"
| "type_name (JsNumber _) = ''number''"
| "type_name (JsString _) = ''string''"
| "type_name (JsArray _) = ''array''"
| "type_name (JsObject _) = ''object''"


record 'f query_def =
  qd_name :: string
  qd_function :: string
  qd_args :: "'f js_value list"

record 'f mutation_def =
  md_name :: string
  md_function :: string
  md_args :: "'f js_value list"

record 'f action_def =
  ad_name :: string
  ad_function :: string
  ad_args :: "'f js_value list"

datatype runtime_error =
    DeterminismViolation string
  | IoError string
  | FunctionError string
  | SerializationError string
  | StorageError db_error
  | InvalidFunction string
  | CircularDependency
  | QueryNotFound string
  | MutationNotFound string
  | ActionNotFound string
  | SubscriptionError string
  | LockPoisoned string



section \<open>Scripts\<close>





section \<open>Operations\<close>
















section \<open>Environments of transactions\<close>























end
