(* ===== verification/Server.thy ===== *)
theory Server
  imports Core_Types
begin

text \<open>
  The messages of \<^verbatim>\<open>sabi-core/src/protocol.rs\<close>, the time stamps of \<^verbatim>\<open>timestamp.rs\<close>, and the connection
  handler of \<^verbatim>\<open>sabi-server/src/main.rs\<close>.  \<^verbatim>\<open>serde_json\<close> is a parameter: \<open>from_slice\<close> and \<open>to_vec\<close> decode
  requests and encode responses, and \<open>json_ok\<close> is the value \<^verbatim>\<open>json!({"status": "ok"})\<close>.  A connection
  has the bytes the client sends that were not read yet, as one stream, and the messages written to the client; the events
  that drive it are the outcomes of its reads, each with the outcome of the write that may follow.  A read takes
  what has arrived, at most the 4096 bytes of the buffer, wherever a message begins or ends; \<open>clock\<close>
  yields the identifiers of \<^verbatim>\<open>TxId::new\<close>.  The console output is left out.
\<close>

section \<open>Time stamps\<close>

datatype timestamp = Timestamp u64

text \<open>The argument is the time since the epoch in milliseconds; \<open>None\<close> is a clock before the epoch.\<close>

definition timestamp_now :: "nat option \<Rightarrow> (timestamp, 'e) result" where
  "timestamp_now since_epoch =
     (case since_epoch of
        None \<Rightarrow> Panic ''Time went backwards''
      | Some millis \<Rightarrow> Ok (Timestamp (of_nat millis)))"

fun show_timestamp :: "timestamp \<Rightarrow> string" where
  "show_timestamp (Timestamp t) = show_nat (unat t)"

section \<open>Messages\<close>

datatype 'u request =
    Query (request_id: "'u tx_id") (request_sql: string)
  | Subscribe (request_id: "'u tx_id") (request_sql: string)
  | Notify (request_id: "'u tx_id") (request_sql: string)

datatype error_code = CodeSyntaxError | CodeSerializationFailure | CodeInternal

record error_payload =
  ep_code :: error_code
  ep_message :: string

datatype ('u, 'd) response =
    ResponseOk "'u tx_id" 'd
  | ResponseError "'u tx_id" error_payload
  | ResponseUpdate "'u tx_id" 'd

section \<open>Connections\<close>

record ('u, 'd) server_lib =
  from_slice :: "bytes \<Rightarrow> string + 'u request"
  to_vec :: "('u, 'd) response \<Rightarrow> string + bytes"
  json_ok :: 'd

text \<open>\<open>ReadOk\<close> has the number of bytes that have arrived when the read returns, 0 only at the end of the stream.\<close>

datatype read_outcome = ReadOk nat | ReadErr string

datatype connection = Open | Closed | Panicked

record client =
  cn_incoming :: bytes
  cn_sent :: "bytes list"
  cn_status :: connection

definition BUFFER_SIZE :: nat where "BUFFER_SIZE = 4096"

definition read_length :: "nat \<Rightarrow> bytes \<Rightarrow> nat" where
  "read_length available incoming = min available (min BUFFER_SIZE (length incoming))"

definition error_response :: "'u tx_id \<Rightarrow> string \<Rightarrow> ('u, 'd) response" where
  "error_response t e = ResponseError t \<lparr>ep_code = CodeSyntaxError, ep_message = ''Invalid request: '' @ e\<rparr>"

text \<open>A failed write of an answer closes the connection; a failed write of an error is ignored.\<close>

fun handle_client ::
  "('u, 'd) server_lib \<Rightarrow> (nat \<Rightarrow> 'u) \<Rightarrow> nat \<Rightarrow> (read_outcome \<times> string option) list \<Rightarrow> client \<Rightarrow> client" where
  "handle_client S clock k [] cn = cn"
| "handle_client S clock k ((ReadErr e, w) # events) cn = cn\<lparr>cn_status := Closed\<rparr>"
| "handle_client S clock k ((ReadOk available, w) # events) cn =
     (let n = read_length available (cn_incoming cn);
          msg = take n (cn_incoming cn);
          cn = cn\<lparr>cn_incoming := drop n (cn_incoming cn)\<rparr>
      in if n = 0 then cn\<lparr>cn_status := Closed\<rparr>
         else
           (case from_slice S msg of
              Inr request \<Rightarrow>
                (case to_vec S (ResponseOk (request_id request) (json_ok S)) of
                   Inl _ \<Rightarrow> cn\<lparr>cn_status := Panicked\<rparr>
                 | Inr resp_bytes \<Rightarrow>
                     (case w of
                        None \<Rightarrow> handle_client S clock k events (cn\<lparr>cn_sent := cn_sent cn @ [resp_bytes]\<rparr>)
                      | Some _ \<Rightarrow> cn\<lparr>cn_status := Closed\<rparr>))
            | Inl e \<Rightarrow>
                (case to_vec S (error_response (TxId (clock k)) e) of
                   Inl _ \<Rightarrow> cn\<lparr>cn_status := Panicked\<rparr>
                 | Inr resp_bytes \<Rightarrow>
                     handle_client S clock (k + 1) events
                       (if w = None then cn\<lparr>cn_sent := cn_sent cn @ [resp_bytes]\<rparr> else cn))))"

section \<open>One answer for every read\<close>

text \<open>The bytes of the successive reads of a stream.\<close>

fun chunks :: "nat list \<Rightarrow> bytes \<Rightarrow> bytes list" where
  "chunks [] incoming = []"
| "chunks (n # ns) incoming =
     take (read_length n incoming) incoming # chunks ns (drop (read_length n incoming) incoming)"

definition answers_ok :: "('u, 'd) server_lib \<Rightarrow> bytes \<Rightarrow> bytes \<Rightarrow> bool" where
  "answers_ok S msg resp \<longleftrightarrow>
     (\<exists>request. from_slice S msg = Inr request \<and> to_vec S (ResponseOk (request_id request) (json_ok S)) = Inr resp)"

text \<open>An error with an identifier made up by the server.\<close>

definition answers_error :: "('u, 'd) server_lib \<Rightarrow> 'u set \<Rightarrow> bytes \<Rightarrow> bytes \<Rightarrow> bool" where
  "answers_error S ids msg resp \<longleftrightarrow>
     (\<exists>e. from_slice S msg = Inl e \<and> (\<exists>u \<in> ids. to_vec S (error_response (TxId u) e) = Inr resp))"

lemma handle_client_answers:
  assumes enc: "\<And>r. \<exists>bs. to_vec S r = Inr bs"
  shows "[] \<notin> set (chunks ns (cn_incoming cn)) \<Longrightarrow>
     \<exists>resps. handle_client S clock k (map (\<lambda>n. (ReadOk n, None)) ns) cn =
         cn\<lparr>cn_incoming := drop (length (concat (chunks ns (cn_incoming cn)))) (cn_incoming cn),
            cn_sent := cn_sent cn @ resps\<rparr> \<and>
       list_all2 (\<lambda>m resp. answers_ok S m resp \<or> answers_error S (range clock) m resp) (chunks ns (cn_incoming cn)) resps"
proof (induction ns arbitrary: k cn)
  case (Cons n ns)
  let ?n = "read_length n (cn_incoming cn)"
  let ?m = "take ?n (cn_incoming cn)" and ?in = "drop ?n (cn_incoming cn)"
  have n: "?n \<noteq> 0" using Cons.prems by auto
  have len: "length ?m = ?n" by (simp add: read_length_def)
  have rest: "\<exists>resps. handle_client S clock k' (map (\<lambda>n. (ReadOk n, None)) ns) (cn\<lparr>cn_incoming := ?in, cn_sent := sent\<rparr>) =
        cn\<lparr>cn_incoming := drop (length (concat (chunks ns ?in))) ?in, cn_sent := sent @ resps\<rparr> \<and>
      list_all2 (\<lambda>m resp. answers_ok S m resp \<or> answers_error S (range clock) m resp) (chunks ns ?in) resps" for k' sent
    using Cons.IH [of "cn\<lparr>cn_incoming := ?in, cn_sent := sent\<rparr>" k'] Cons.prems by simp
  show ?case
  proof (cases "from_slice S ?m")
    case (Inl e)
    obtain bs where bs: "to_vec S (error_response (TxId (clock k)) e) = Inr bs" using enc by blast
    then have a: "answers_error S (range clock) ?m bs" using Inl by (auto simp: answers_error_def)
    obtain resps where r: "handle_client S clock (k + 1) (map (\<lambda>n. (ReadOk n, None)) ns)
          (cn\<lparr>cn_incoming := ?in, cn_sent := cn_sent cn @ [bs]\<rparr>) =
        cn\<lparr>cn_incoming := drop (length (concat (chunks ns ?in))) ?in, cn_sent := (cn_sent cn @ [bs]) @ resps\<rparr>"
        "list_all2 (\<lambda>m resp. answers_ok S m resp \<or> answers_error S (range clock) m resp) (chunks ns ?in) resps"
      using rest by blast
    show ?thesis using n Inl bs a r len by (intro exI [of _ "bs # resps"]) (simp add: Let_def add.commute)
  next
    case (Inr request)
    obtain bs where bs: "to_vec S (ResponseOk (request_id request) (json_ok S)) = Inr bs" using enc by blast
    then have a: "answers_ok S ?m bs" using Inr by (auto simp: answers_ok_def)
    obtain resps where r: "handle_client S clock k (map (\<lambda>n. (ReadOk n, None)) ns)
          (cn\<lparr>cn_incoming := ?in, cn_sent := cn_sent cn @ [bs]\<rparr>) =
        cn\<lparr>cn_incoming := drop (length (concat (chunks ns ?in))) ?in, cn_sent := (cn_sent cn @ [bs]) @ resps\<rparr>"
        "list_all2 (\<lambda>m resp. answers_ok S m resp \<or> answers_error S (range clock) m resp) (chunks ns ?in) resps"
      using rest by blast
    show ?thesis using n Inr bs a r len by (intro exI [of _ "bs # resps"]) (simp add: Let_def add.commute)
  qed
qed simp

section \<open>Requests in a stream\<close>

definition json_space :: "u8 \<Rightarrow> bool" where
  "json_space b \<longleftrightarrow> b \<in> {0x20, 0x09, 0x0A, 0x0D}"

text \<open>What \<^verbatim>\<open>serde_json\<close> documents of \<^verbatim>\<open>from_slice\<close>: the input is one value, and nothing but white space may
  follow it.  A request is an object or an array, so the end of the value is known where it is reached.\<close>

definition one_value :: "('u, 'd) server_lib \<Rightarrow> bool" where
  "one_value S \<longleftrightarrow>
     (\<forall>a b request request'. from_slice S a = Inr request \<longrightarrow> from_slice S (a @ b) = Inr request' \<longrightarrow> list_all json_space b)"

text \<open>A request as clients print it, without white space around it.\<close>

definition printed_request :: "('u, 'd) server_lib \<Rightarrow> bytes \<Rightarrow> bool" where
  "printed_request S m \<longleftrightarrow>
     (\<exists>request. from_slice S m = Inr request) \<and> m \<noteq> [] \<and> \<not> json_space (hd m) \<and> \<not> json_space (last m)"

text \<open>Neither a part of a request nor a request and the beginning of the next one can be read.\<close>

lemma part_unreadable:
  assumes "one_value S" and "printed_request S m" and "n < length m"
  shows "\<exists>e. from_slice S (take n m) = Inl e"
proof (cases "from_slice S (take n m)")
  case (Inr request)
  have "list_all json_space (drop n m)"
    using assms(1,2) Inr append_take_drop_id [of n m] unfolding one_value_def printed_request_def by metis
  moreover have "last m \<in> set (drop n m)" using assms(3) last_drop [of n m] by (metis drop_eq_Nil last_in_set not_le)
  ultimately show ?thesis using assms(2) by (simp add: list_all_iff printed_request_def)
qed blast

lemma next_unreadable:
  assumes "one_value S" and "printed_request S m" and "printed_request S m'" and "0 < n"
  shows "\<exists>e. from_slice S (m @ take n (m' @ rest)) = Inl e"
proof (cases "from_slice S (m @ take n (m' @ rest))")
  case (Inr request)
  have "list_all json_space (take n (m' @ rest))"
    using assms(1,2) Inr unfolding one_value_def printed_request_def by metis
  moreover have "hd m' \<in> set (take n (m' @ rest))"
    using assms(3,4) by (cases m'; cases n) (auto simp: printed_request_def)
  ultimately show ?thesis using assms(3) by (simp add: list_all_iff printed_request_def)
qed blast

text \<open>The next read of a stream of requests is readable exactly when it returns the next request and nothing else.\<close>

lemma next_read:
  assumes "one_value S" and "\<forall>x \<in> set (m # ms). printed_request S x"
  shows "(\<exists>request. from_slice S (take n (m @ concat ms)) = Inr request) \<longleftrightarrow> take n (m @ concat ms) = m"
proof
  assume l: "\<exists>request. from_slice S (take n (m @ concat ms)) = Inr request"
  show "take n (m @ concat ms) = m"
  proof (cases "n < length m")
    case True
    with part_unreadable [OF assms(1) _ True] assms(2) l show ?thesis by auto
  next
    case False
    show ?thesis
    proof (cases ms)
      case (Cons m' ms')
      with False next_unreadable [OF assms(1), of m m' "n - length m" "concat ms'"] assms(2) l show ?thesis
        by (cases "n = length m") auto
    qed (use False in simp)
  qed
qed (use assms(2) in \<open>auto simp: printed_request_def\<close>)

text \<open>Reads that return the requests one by one.\<close>

lemma chunks_requests:
  assumes "\<forall>x \<in> set ms. length x \<le> BUFFER_SIZE"
  shows "chunks (map length ms @ ns) (concat ms @ rest) = ms @ chunks ns rest"
  using assms by (induction ms) (simp_all add: read_length_def min_absorb1 min_absorb2)

text \<open>One request after the other is answered, as long as every read returns one request.\<close>

lemma requests_answered:
  assumes "\<And>r. \<exists>bs. to_vec S r = Inr bs" and "one_value S" and "\<forall>x \<in> set (ms @ m # ms'). printed_request S x"
    and "\<forall>x \<in> set ms. length x \<le> BUFFER_SIZE" and "0 < n" and "cn_incoming cn = concat ms @ m @ concat ms'"
  shows "\<exists>resps resp. handle_client S clock k (map (\<lambda>n. (ReadOk n, None)) (map length ms @ [n])) cn =
       cn\<lparr>cn_incoming := drop (read_length n (m @ concat ms')) (m @ concat ms'), cn_sent := cn_sent cn @ resps @ [resp]\<rparr> \<and>
     list_all2 (answers_ok S) ms resps \<and>
     (if read_length n (m @ concat ms') = length m then answers_ok S m resp
      else answers_error S (range clock) (take (read_length n (m @ concat ms')) (m @ concat ms')) resp)"
proof -
  let ?n = "read_length n (m @ concat ms')" and ?A = "\<lambda>m resp. answers_ok S m resp \<or> answers_error S (range clock) m resp"
  let ?last = "take ?n (m @ concat ms')"
  have ch: "chunks (map length ms @ [n]) (cn_incoming cn) = ms @ [?last]"
    using chunks_requests [OF assms(4)] assms(6) by simp
  have "m \<noteq> []" using assms(3) by (simp add: printed_request_def)
  with assms(5) have "?last \<noteq> []" by (simp add: read_length_def BUFFER_SIZE_def)
  moreover have "[] \<notin> set ms" using assms(3) by (auto simp: printed_request_def)
  ultimately have "[] \<notin> set (chunks (map length ms @ [n]) (cn_incoming cn))" unfolding ch by simp
  from handle_client_answers [OF assms(1) this, of clock k] obtain rs where
    rs: "handle_client S clock k (map (\<lambda>n. (ReadOk n, None)) (map length ms @ [n])) cn =
        cn\<lparr>cn_incoming := drop (length (concat (ms @ [?last]))) (cn_incoming cn), cn_sent := cn_sent cn @ rs\<rparr>"
      "list_all2 ?A (ms @ [?last]) rs"
    unfolding ch by blast
  from rs(2) obtain resps resp where re: "rs = resps @ [resp]" "list_all2 ?A ms resps" "?A ?last resp"
    by (auto simp: list_all2_append1 list_all2_Cons1)
  have "\<not> answers_error S (range clock) x resp" if x: "x \<in> set ms" for x resp
  proof -
    have "printed_request S x" using assms(3) x by simp
    then show ?thesis by (auto simp: answers_error_def printed_request_def)
  qed
  then have all_ok: "list_all2 (answers_ok S) ms resps" by (intro list.rel_mono_strong [OF re(2)]) blast
  have le: "?n \<le> length (m @ concat ms')" by (simp add: read_length_def)
  then have len: "length ?last = ?n" by simp
  then have exact: "?last = m \<longleftrightarrow> ?n = length m" by (metis append_eq_conv_conj)
  have "if ?n = length m then answers_ok S m resp else answers_error S (range clock) ?last resp"
    using re(3) next_read [OF assms(2), of m ms' ?n] assms(3) exact
    by (cases "?last = m") (auto simp: answers_ok_def answers_error_def simp del: take_append)
  moreover have "drop (length (concat (ms @ [?last]))) (cn_incoming cn) = drop ?n (m @ concat ms')"
  proof -
    have "length (concat (ms @ [?last])) = length (concat ms) + ?n" using len by simp
    moreover have "drop (length xs + k) (xs @ ys) = drop k ys" for k and xs ys :: bytes by simp
    ultimately show ?thesis unfolding assms(6) by metis
  qed
  ultimately show ?thesis using all_ok rs(1) unfolding re(1) by (intro exI [of _ resps] exI [of _ resp]) metis
qed

text \<open>A library whose requests are three bytes, braces around an id, and whose responses have a byte for
  the kind and one for the id.\<close>

definition sample_server :: "(128 word, unit) server_lib" where
  "sample_server = \<lparr>from_slice = (\<lambda>bs. if length bs = 3 \<and> hd bs = 0x7B \<and> last bs = 0x7D
       then Inr (Query (TxId (ucast (bs ! 1))) ''SELECT 1'') else Inl ''expected value''),
     to_vec = (\<lambda>r. Inr (case r of ResponseOk t _ \<Rightarrow> [1, ucast (uuid_of t)] | _ \<Rightarrow> [0])), json_ok = ()\<rparr>"

lemma sample_one_value: "one_value sample_server"
  by (auto simp: one_value_def sample_server_def split: if_splits)

end
