(* ===== verification/Server_Loop.thy ===== *)
theory Server_Loop
  imports Server
begin

text \<open>
  The whole server of \<^verbatim>\<open>sabi-server/src/main.rs\<close>: the loop that accepts connections and one task for each
  of them, which the runtime interleaves.  The model runs the turns of the tasks in the order in which their
  sockets become ready.  The tasks have nothing in common but the source of identifiers, so the turns of a
  connection in any run are a run of its handler alone, on other identifiers.
\<close>

section \<open>The tasks and the listener\<close>










section \<open>The turns of one connection\<close>









end
