(* ===== verification/Spec2Isabelle.thy ===== *)
theory Spec2Isabelle
  imports Wal Btree_Internal Shell_Store Sql_Keyless Tx_Time Tx_Threads Runtime Server_Loop
begin

text \<open>
  A model of sabiDB (\<^verbatim>\<open>src/sabi/crates\<close>) and what it guarantees.

  \<^bold>\<open>The program.\<close>  sabiDB is a small SQL database.  \<^verbatim>\<open>sabi-core\<close> holds the error type and the
  transaction identifiers.  \<^verbatim>\<open>sabi-storage\<close> is the storage engine: 4 KiB pages with a checksum
  (\<^verbatim>\<open>page.rs\<close>) in one file (\<^verbatim>\<open>page_file.rs\<close>), a B+tree over these pages (\<^verbatim>\<open>btree.rs\<close>), a write-ahead
  log (\<^verbatim>\<open>wal.rs\<close>), versioned tables and the transaction manager (\<^verbatim>\<open>mvcc.rs\<close>), and the engine that
  combines them (\<^verbatim>\<open>engine.rs\<close>): an inserted row is added to the table in memory, its versions are
  written to a fresh data page, and the page id is entered in the B+tree under the composite key
  \<^verbatim>\<open>table NUL key\<close>; a read looks the page up in the tree and picks the first version visible to the
  snapshot of the transaction.  \<^verbatim>\<open>sabi-sql\<close> converts the syntax tree of the
  \<^verbatim>\<open>sqlparser\<close> crate to its own (\<^verbatim>\<open>parser/mod.rs\<close>), plans it with a catalog of schemas
  (\<^verbatim>\<open>planner/mod.rs\<close>) and executes the plans on the engine (\<^verbatim>\<open>executor/mod.rs\<close>); the shell
  (\<^verbatim>\<open>bin/sabi-cli.rs\<close>) reads statements, runs them one after the other and prints the results.
  \<^verbatim>\<open>sabi-runtime\<close> runs JavaScript functions in an environment whose clock and random numbers are
  meant to be determined by the transaction; \<^verbatim>\<open>sabi-server\<close> answers messages on a socket.

  \<^bold>\<open>Conventions.\<close>  A function returning \<^verbatim>\<open>Result\<close> has the outcome type \<open>('a, 'e) result\<close> with a third
  variant \<open>Panic\<close> for run-time panics (index, slice, \<^verbatim>\<open>unwrap\<close>, \<^verbatim>\<open>unreachable!\<close>, overflow under the
  default profile).  A method on \<^verbatim>\<open>&mut self\<close> is an \<open>op\<close>: it returns the outcome and the state it
  leaves, also on an early return.  Integers stored in files are machine words; cursors and lengths
  are natural numbers.  Loops over page ids stored in the file are \<open>partial_function (option)\<close>, where
  \<open>None\<close> means that the loop does not end; the theorems about them show that they end.  No fuel is
  used.  The crates \<^verbatim>\<open>crc32fast\<close> and \<^verbatim>\<open>uuid\<close> are the parameter record \<open>ext_lib\<close>; \<open>uuid_laws\<close> is the
  documented behaviour of \<^verbatim>\<open>uuid\<close> that the code relies on, and \<open>sample_lib\<close> is an instance.  The
  \<^verbatim>\<open>regex\<close> crate is the parameter \<open>rx\<close> of expression evaluation, \<^verbatim>\<open>sqlparser\<close> is the parameter
  \<open>parse_sql\<close> of the parser with the part of its syntax tree that the code looks at as the types
  \<open>sp_\<dots>\<close>, the JavaScript engine and \<^verbatim>\<open>serde_json\<close> are the record \<open>js_lib\<close>, and the socket codec
  of the server is \<open>server_lib\<close>.  The line editor \<^verbatim>\<open>rustyline\<close> with its history is the record
  \<open>editor_lib\<close> of the shell, and the identifiers drawn from the clock are its parameter \<open>clock\<close>.  About these nothing is assumed, except where a theorem names it as
  a hypothesis.

  \<^bold>\<open>The theories.\<close>
  \<^item> \<^verbatim>\<open>Prelude\<close>, \<^verbatim>\<open>Bytes\<close>, \<^verbatim>\<open>Codec\<close>: outcomes, sequencing, slices, little-endian fields, and the loop
    that reads a counted sequence of items; the locale \<open>cursor_codec\<close> is the contract between the
    writer and the reader of one item, used for node entries (interpretation \<open>entry\<close>) and row
    versions (\<open>version_codec\<close>).
  \<^item> \<^verbatim>\<open>Core_Types\<close>: \<^verbatim>\<open>error.rs\<close> and \<^verbatim>\<open>tx.rs\<close>.  The order of identifiers compares time stamps only
    (\<open>tx_key\<close>).  \<^verbatim>\<open>Tx_Time\<close>: identifiers made from times, their conversions, and what their order says
    of the times; the further calls of \<^verbatim>\<open>uuid\<close> are the record \<open>uuid_clock\<close> with \<open>clock_laws\<close>.
  \<^item> \<^verbatim>\<open>Page\<close>: \<^verbatim>\<open>Page::serialize\<close> and \<^verbatim>\<open>Page::deserialize\<close>; round trip, the layout on every branch,
    detection of corruption, and the exact condition under which deserialization panics.
  \<^item> \<^verbatim>\<open>Page_File\<close>: reads, writes, allocation.  The locale \<open>block_store\<close> is what clients rely on (a
    written block is read back, the others are untouched, an allocated id is fresh); it is
    interpreted for data pages here and for nodes in \<^verbatim>\<open>Btree_Node\<close>.  \<open>MAX_PAGES\<close> bounds the file so
    that every offset is a valid seek position.
  \<^item> \<^verbatim>\<open>Btree_Node\<close>: the node encoding and the in-place parent pointer; round trip, safety and
    consistency of decoding, and when updating a parent pointer keeps or damages a node.
  \<^item> \<^verbatim>\<open>Btree\<close>: all operations of \<^verbatim>\<open>BTree\<close>.  \<^verbatim>\<open>Btree_Search\<close>: the tree a file holds (\<open>bptree\<close>,
    \<open>on_disk\<close>, \<open>search_tree\<close>, \<open>chained\<close>) and the correctness of lookup, descent and range scan.
    \<^verbatim>\<open>Btree_Insert\<close>: creation, and insertion as a refinement of the abstract \<open>put_leaf\<close>; the error of
    a leaf that is full in bytes.  \<^verbatim>\<open>Btree_Split\<close>: the split of the root leaf.  \<^verbatim>\<open>Btree_Grow\<close>: the split of a leaf below its parent, as a
    refinement of the abstract \<open>put_split\<close>.  \<^verbatim>\<open>Btree_End\<close>: insertion ends in every file, by the measure
    \<open>load\<close>.  \<^verbatim>\<open>Btree_Internal\<close>: the split of an internal node, and the children it leaves with a wrong
    parent.
  \<^item> \<^verbatim>\<open>Wal\<close>: record codec, writer, reader and replay; the locale \<open>append_log\<close>; what replay returns,
    which logs it rejects, durability of commit records.
  \<^item> \<^verbatim>\<open>Mvcc\<close>: visibility, versioned tables, and the transaction manager as a state machine with its
    invariant over the reachable states; which deletes leave the reads of others unchanged.  \<^verbatim>\<open>Tx_Threads\<close>: the manager shared by any number of threads, with
    the atomic parts of \<^verbatim>\<open>begin\<close> as separate steps; what holds in all interleavings.
  \<^item> \<^verbatim>\<open>Engine\<close>: the engine operations, the row codec, composite keys, insertion and reads;
    \<^verbatim>\<open>Engine_Rows\<close>: deletion, exactly what range scans return, and updates of existing keys; \<^verbatim>\<open>Engine_Log\<close>: the log over all reachable states.
  \<^item> \<^verbatim>\<open>Simulation\<close>: runs of operations, and the locale \<open>simulation\<close>, in which a step-by-step agreement of a
    component with its specification gives the agreement of all runs.  It is interpreted for the engine
    in \<^verbatim>\<open>Engine_Store\<close> (\<open>row_engine\<close>), whose specification \<open>row_store\<close> is a list of rows in key order
    with their versions, beside the tables in memory and the transaction manager; and for the executor of
    plans in \<^verbatim>\<open>Sql_Store\<close> (\<open>sql_executor\<close>), whose specification \<open>plan_spec\<close> lists the operations on that
    row store and says what the client gets.  The runs are those that fit into one leaf of the index
    (\<open>store_room\<close>, \<open>plan_room\<close>): at most 128 rows, whose keys fit in a page.  \<^verbatim>\<open>Sql_Keyless\<close>: sessions on
    tables without a primary key, read off the specification.
  \<^item> \<^verbatim>\<open>Sql_Types\<close>: values, schemas and the SQL error type; values survive their encoding.
    \<^verbatim>\<open>Sql_Expr\<close>: expressions and their evaluation; typing (\<open>expr_type\<close>) and the panics of arithmetic.
    \<^verbatim>\<open>Sql_Row\<close>: row keys, and writing and reading rows.  \<^verbatim>\<open>Sql_Planner\<close>: statements, catalog, planner.
    \<^verbatim>\<open>Sql_Exec\<close>: execution of every plan node; limits.  \<^verbatim>\<open>Sql_Session\<close>: sequences of executed plans,
    the transaction of a session, and what \<^verbatim>\<open>SELECT\<close> finds after \<^verbatim>\<open>INSERT\<close>.  The locale
    \<open>executor_frame\<close> is the contract of a relation between engine states that every engine operation
    respects; its lemmas lift the relation to whole plans, and it is interpreted for the transaction
    of the session (\<open>session\<close>), the schemas (\<open>catalogs\<close>) and the log (\<open>logs\<close>).
  \<^item> \<^verbatim>\<open>Sql_Parser\<close>: the conversion of statements and expressions; which plans it can produce, and that
    \<^verbatim>\<open>BETWEEN\<close> means its two comparisons.  \<^verbatim>\<open>Sql_Shell\<close>: printing of results, one statement, a line of
    statements, the loop over the input and the whole \<^verbatim>\<open>main\<close>, for any executor of plans (\<open>exec\<close>); the locale \<open>shell_invariant\<close> turns a property kept by one
    statement into one of every shell run, interpreted for the agreement of the catalog with the
    executor (\<open>shell\<close>) and for the log (\<open>shell_log\<close>).  \<^verbatim>\<open>Shell_Store\<close>: in the locale \<open>shell_simulation\<close> two
    shells whose executors are related print the same; its interpretation \<open>program\<close> relates the executor to
    the specification of plans, and so the program to its specification.
  \<^item> \<^verbatim>\<open>Runtime_Env\<close>: the seed, the generator and \<^verbatim>\<open>Math.random\<close> of the deterministic environment, with
    the rounding of 64-bit integers to floating point written out.  \<^verbatim>\<open>Runtime\<close>: registering and
    running functions, as sequences of calls to the JavaScript engine.
  \<^item> \<^verbatim>\<open>Server\<close>: time stamps, the protocol messages and the loop that serves one client: reads of at most
    4096 bytes from the stream of bytes the client sends, each answered as one message.  The hypothesis \<open>one_value\<close>
    is the documented behaviour of \<^verbatim>\<open>serde_json\<close> that nothing but white space may follow a value.
    \<^verbatim>\<open>Server_Loop\<close>: the listener and the interleaved tasks of all connections, which share only the source of
    identifiers.

  \<^bold>\<open>What the theorems show.\<close> Encodings round-trip and decoding never reads out of range,
  apart from the unchecked length of a page. Lookups, scans and insertions into leaves with room, or below a
  parent with room, are correct on trees of any height, and every insertion ends. Reads through the engine
  agree with the versioned tables for a key that is inserted once. Within one leaf of the index, the whole
  engine and the whole executor answer like specifications without pages, tree and encodings; so rows
  inserted into a table without a primary key are selected as they were given. The whole program, from the
  lines typed to the lines printed, is covered by such a specification, which does not mention the files it
  is started on: nothing survives a restart. Several theorems state
  behaviour that differs from the comments or the purpose of the code: an update of an existing key is never
  visible to lookups while range scans return the row twice, a second delete can make a deleted row reappear for
  a reader unless the snapshot of the deleter is at least as new, the first split of the root damages the tree, the split of an internal node leaves children with
  a wrong parent, the replay rejects every log, transaction ids change in the log, no commit is logged, rows
  of a table with a primary key cannot be selected, \<^verbatim>\<open>ROLLBACK\<close> undoes nothing,
  \<^verbatim>\<open>DELETE\<close> on a table without a key removes one row whatever it reports,
  transactions of one millisecond are not ordered, a transaction that overtakes another one while both begin
  gets the nil snapshot, although it would see the same rows if it began alone, a boolean in a stored row hides what follows it, distinct states of the generator
  give the same random number, and the server answers a request with its id only if one read returns exactly
  that request. The environment of a transaction in the JavaScript runtime depends on nothing but its id and the kind of its
  first call. For the program as a
  whole: whatever is typed into the shell, the planner and the executor agree on the schemas, and nothing
  the shell does is ever durable in the log.

  \<^bold>\<open>Not modelled.\<close> Disk failures, lock poisoning and, apart from the transaction
  manager, concurrent callers (every operation takes the engine exclusively or a lock); the clock; the debug
  prints.
\<close>

end
